(* ===== verification/Go_Prelude.thy ===== *)
theory Go_Prelude
  imports Complex_Main "HOL-Library.Word" "HOL-Library.Char_ord" "HOL-Library.List_Lexorder"
    "HOL-Library.Multiset"
begin

text \<open>
  The prelude of the development: the parts of Go and of its standard library that the
  modelled packages use, as total HOL functions, together with the generic lemmas the
  components share.

  \<^item> Go strings are byte strings: type \<^typ>\<open>string\<close>, ordered bytewise (the order of
    \<open>HOL-Library.List_Lexorder\<close> over \<open>HOL-Library.Char_ord\<close>), so \<open>sort.Strings\<close> is
    \<^const>\<open>sort\<close>. Case mapping and white space are those of ASCII.
  \<^item> Go's \<open>int\<close> and \<open>int64\<close> are 64 bits wide; \<open>wrap64\<close> is the two's complement
    wrap-around, written where an overflow is reachable. Division and remainder of
    non-negative operands agree with \<^const>\<open>divide\<close> and \<^const>\<open>modulo\<close>.
  \<^item> A \<open>float64\<close> is only ever compared by the modelled code; \<open>flt\<close> and \<open>fle\<close> are Go's
    comparisons, false as soon as an operand is NaN.
  \<^item> Errors are values: \<open>Inl\<close> of an error description.
\<close>

named_theorems go_string \<open>unfoldings of the string functions of the standard library\<close>

type_synonym 'a res = "string + 'a"

section \<open>Strings\<close>

definition has_prefix :: "string \<Rightarrow> string \<Rightarrow> bool" where
  "has_prefix s p = (take (length p) s = p)"

definition has_suffix :: "string \<Rightarrow> string \<Rightarrow> bool" where
  "has_suffix s p = (length p \<le> length s \<and> drop (length s - length p) s = p)"

definition trim_prefix :: "string \<Rightarrow> string \<Rightarrow> string" where
  "trim_prefix s p = (if has_prefix s p then drop (length p) s else s)"

definition trim_suffix :: "string \<Rightarrow> string \<Rightarrow> string" where
  "trim_suffix s p = (if has_suffix s p then take (length s - length p) s else s)"

lemma has_prefix_append [simp]: "has_prefix (p @ s) p"
  by (simp add: has_prefix_def)

lemma has_prefix_Nil [simp]: "has_prefix s []"
  by (simp add: has_prefix_def)

lemma has_prefix_iff: "has_prefix s p \<longleftrightarrow> (\<exists>r. s = p @ r)"
  unfolding has_prefix_def by (metis append_eq_conv_conj)

lemma has_suffix_iff: "has_suffix s p \<longleftrightarrow> (\<exists>r. s = r @ p)"
proof
  assume "has_suffix s p"
  then have "s = take (length s - length p) s @ p"
    unfolding has_suffix_def by (metis append_take_drop_id)
  then show "\<exists>r. s = r @ p" ..
qed (auto simp: has_suffix_def)

lemma trim_prefix_append [simp]: "trim_prefix (p @ s) p = s"
  by (simp add: trim_prefix_def)

declare has_prefix_def [go_string] has_suffix_def [go_string]
  trim_prefix_def [go_string] trim_suffix_def [go_string]

definition is_space :: "char \<Rightarrow> bool" where
  "is_space c = (of_char c = (32::nat) \<or> 9 \<le> (of_char c :: nat) \<and> of_char c \<le> (13::nat))"

definition trim_space :: "string \<Rightarrow> string" where
  "trim_space s = rev (dropWhile is_space (rev (dropWhile is_space s)))"

definition upper_char :: "char \<Rightarrow> char" where
  "upper_char c = (if 97 \<le> (of_char c :: nat) \<and> of_char c \<le> (122::nat)
     then char_of (of_char c - 32 :: nat) else c)"

definition to_upper :: "string \<Rightarrow> string" where
  "to_upper s = map upper_char s"

lemma upper_char_idem [simp]: "upper_char (upper_char c) = upper_char c"
proof (cases "97 \<le> (of_char c :: nat) \<and> of_char c \<le> (122::nat)")
  case True
  then have "of_char (upper_char c) = (of_char c - 32 :: nat)"
    by (simp add: upper_char_def) (rule mod_less, linarith)
  with True show ?thesis by (subst upper_char_def) auto
qed (auto simp: upper_char_def)

lemma to_upper_idem [simp]: "to_upper (to_upper s) = to_upper s"
  by (simp add: to_upper_def)

text \<open>\<^verbatim>\<open>strings.ToLower\<close> on ASCII.\<close>

definition lower_char :: "char \<Rightarrow> char" where
  "lower_char c = (if 65 \<le> (of_char c :: nat) \<and> of_char c \<le> (90::nat) then char_of (of_char c + 32 :: nat) else c)"

definition to_lower :: "string \<Rightarrow> string" where
  "to_lower s = map lower_char s"

lemma lower_char_idem [simp]: "lower_char (lower_char c) = lower_char c"
proof (cases "65 \<le> (of_char c :: nat) \<and> of_char c \<le> (90::nat)")
  case True
  then have "of_char (char_of (of_char c + 32 :: nat)) = (of_char c + 32 :: nat)"
    by simp
  then show ?thesis using True by (simp add: lower_char_def)
next
  case False
  then have "lower_char c = c" by (auto simp: lower_char_def)
  then show ?thesis by simp
qed

text \<open>\<open>strings.Split(s, ",")\<close> for a one-byte separator.\<close>

fun split_on :: "char \<Rightarrow> string \<Rightarrow> string list" where
  "split_on c [] = [[]]"
| "split_on c (x # xs) =
     (if x = c then [] # split_on c xs
      else (case split_on c xs of [] \<Rightarrow> [[x]] | w # ws \<Rightarrow> (x # w) # ws))"

text \<open>\<open>strings.Join\<close>.\<close>

fun join :: "string \<Rightarrow> string list \<Rightarrow> string" where
  "join sep [] = []"
| "join sep [x] = x"
| "join sep (x # y # xs) = x @ sep @ join sep (y # xs)"

lemma split_on_not_Nil [simp]: "split_on c s \<noteq> []"
  by (induction s) (auto split: list.splits)

lemma split_on_free: "c \<notin> set x \<Longrightarrow> split_on c x = [x]"
  by (induction x) auto

lemma split_on_append: "c \<notin> set x \<Longrightarrow> split_on c (x @ c # s) = x # split_on c s"
  by (induction x) auto

lemma split_on_join: "xs \<noteq> [] \<Longrightarrow> (\<And>x. x \<in> set xs \<Longrightarrow> c \<notin> set x) \<Longrightarrow> split_on c (join [c] xs) = xs"
  by (induction "[c]" xs rule: join.induct) (simp_all add: split_on_free split_on_append)

lemma join_split_on: "join [c] (split_on c s) = s"
proof (induction s)
  case Nil
  then show ?case by simp
next
  case (Cons x xs)
  obtain w ws where s: "split_on c xs = w # ws"
    by (meson list.exhaust split_on_not_Nil)
  with Cons show ?case by (cases ws) auto
qed

text \<open>\<open>strings.Contains\<close>.\<close>

fun str_contains :: "string \<Rightarrow> string \<Rightarrow> bool" where
  "str_contains [] sub = (sub = [])"
| "str_contains (c # s) sub = (has_prefix (c # s) sub \<or> str_contains s sub)"

lemma str_contains_iff: "str_contains s sub \<longleftrightarrow> (\<exists>a b. s = a @ sub @ b)"
proof (induction s)
  case (Cons c s)
  have "has_prefix (c # s) sub \<or> (\<exists>a b. s = a @ sub @ b) \<longleftrightarrow> (\<exists>a b. c # s = a @ sub @ b)"
  proof
    assume "\<exists>a b. c # s = a @ sub @ b"
    then obtain a b where "c # s = a @ sub @ b" by blast
    then show "has_prefix (c # s) sub \<or> (\<exists>a b. s = a @ sub @ b)" by (cases a) (auto simp: has_prefix_iff)
  next
    assume "has_prefix (c # s) sub \<or> (\<exists>a b. s = a @ sub @ b)"
    then show "\<exists>a b. c # s = a @ sub @ b" unfolding has_prefix_iff by (metis append_Cons append_Nil)
  qed
  with Cons show ?case by simp
qed auto

section \<open>Decimal rendering (the verb \<open>%d\<close>)\<close>

definition digit_char :: "nat \<Rightarrow> char" where
  "digit_char d = char_of (48 + d)"

fun show_nat :: "nat \<Rightarrow> string" where
  "show_nat n = (if n < 10 then [digit_char n] else show_nat (n div 10) @ [digit_char (n mod 10)])"

declare show_nat.simps [simp del]

definition show_int :: "int \<Rightarrow> string" where
  "show_int i = (if i < 0 then CHR ''-'' # show_nat (nat (- i)) else show_nat (nat i))"

definition is_digit :: "char \<Rightarrow> bool" where
  "is_digit c = (48 \<le> (of_char c :: nat) \<and> of_char c \<le> (57::nat))"

definition digit_val :: "char \<Rightarrow> nat" where
  "digit_val c = of_char c - 48"

definition read_nat :: "string \<Rightarrow> nat" where
  "read_nat s = foldl (\<lambda>a c. 10 * a + digit_val c) 0 s"

lemma digit_char_eqs:
  "digit_char 0 = CHR ''0''" "digit_char 1 = CHR ''1''" "digit_char 2 = CHR ''2''"
  "digit_char 3 = CHR ''3''" "digit_char 4 = CHR ''4''" "digit_char 5 = CHR ''5''"
  "digit_char 6 = CHR ''6''" "digit_char 7 = CHR ''7''" "digit_char 8 = CHR ''8''"
  "digit_char 9 = CHR ''9''" "digit_char (Suc 0) = CHR ''1''"
  by code_simp+

lemma of_char_digit_char: "d < 10 \<Longrightarrow> of_char (digit_char d) = (48 + d :: nat)"
  by (simp add: digit_char_def)

lemma is_digit_digit_char: "d < 10 \<Longrightarrow> is_digit (digit_char d)"
  by (simp add: is_digit_def of_char_digit_char)

lemma digit_val_digit_char [simp]: "d < 10 \<Longrightarrow> digit_val (digit_char d) = d"
  by (simp add: digit_val_def of_char_digit_char)

lemma show_nat_digits: "\<forall>c \<in> set (show_nat n). is_digit c"
proof (induction n rule: show_nat.induct)
  case (1 n)
  then show ?case
    by (subst show_nat.simps) (auto simp: is_digit_digit_char)
qed

lemma show_nat_not_Nil [simp]: "show_nat n \<noteq> []"
  by (subst show_nat.simps) simp

lemma read_show_nat [simp]: "read_nat (show_nat n) = n"
proof (induction n rule: show_nat.induct)
  case (1 n)
  show ?case
  proof (cases "n < 10")
    case True
    then show ?thesis by (subst show_nat.simps) (simp add: read_nat_def)
  next
    case False
    with 1 have "foldl (\<lambda>a c. 10 * a + digit_val c) 0 (show_nat (n div 10)) = n div 10"
      by (simp add: read_nat_def)
    with False show ?thesis
      by (subst show_nat.simps) (simp add: read_nat_def)
  qed
qed

lemma show_nat_inj: "show_nat m = show_nat n \<longleftrightarrow> m = n"
  by (metis read_show_nat)

section \<open>Machine integers\<close>

text \<open>The value of a 64-bit signed addition or multiplication whose exact result is \<open>x\<close>.\<close>

definition wrap64 :: "int \<Rightarrow> int" where
  "wrap64 x = (x + 2 ^ 63) mod 2 ^ 64 - 2 ^ 63"

lemma wrap64_id: "- (2 ^ 63) \<le> x \<Longrightarrow> x < 2 ^ 63 \<Longrightarrow> wrap64 x = x"
  by (simp add: wrap64_def)

lemma wrap64_range: "- (2 ^ 63) \<le> wrap64 x" "wrap64 x < 2 ^ 63"
  by (simp_all add: wrap64_def)

lemma wrap64_mult_left: "wrap64 (wrap64 a * b) = wrap64 (a * b)"
proof -
  have "(wrap64 a * b) mod 2 ^ 64 = (a * b) mod 2 ^ 64"
  proof -
    have "(wrap64 a) mod 2 ^ 64 = a mod 2 ^ 64"
      by (simp add: wrap64_def mod_simps)
    then show ?thesis by (metis mod_mult_left_eq)
  qed
  then have "(wrap64 a * b + 2 ^ 63) mod 2 ^ 64 = (a * b + 2 ^ 63) mod 2 ^ 64"
    by (metis mod_add_left_eq)
  then show ?thesis by (simp only: wrap64_def)
qed

section \<open>Floating-point comparison\<close>

datatype float64 = NaN | NInf | PInf | Fin rat

fun flt :: "float64 \<Rightarrow> float64 \<Rightarrow> bool" where
  "flt NaN _ = False"
| "flt _ NaN = False"
| "flt NInf y = (y \<noteq> NInf)"
| "flt _ NInf = False"
| "flt PInf _ = False"
| "flt (Fin _) PInf = True"
| "flt (Fin a) (Fin b) = (a < b)"

definition fle :: "float64 \<Rightarrow> float64 \<Rightarrow> bool" where
  "fle x y = (flt x y \<or> (x = y \<and> x \<noteq> NaN))"

section \<open>Lists\<close>

text \<open>\<open>append(xs[:i], xs[i+1:]...)\<close>: the list without its entry at \<open>i\<close>.\<close>

definition remove_at :: "nat \<Rightarrow> 'a list \<Rightarrow> 'a list" where
  "remove_at i xs = take i xs @ drop (Suc i) xs"

lemma length_remove_at: "i < length xs \<Longrightarrow> length (remove_at i xs) = length xs - 1"
  by (simp add: remove_at_def)

lemma mset_remove_at: "i < length xs \<Longrightarrow> mset xs = add_mset (xs ! i) (mset (remove_at i xs))"
  unfolding remove_at_def
  by (metis append_take_drop_id id_take_nth_drop mset_append mset.simps(2) union_mset_add_mset_right)

lemma set_remove_at_subset: "set (remove_at i xs) \<subseteq> set xs"
  by (auto simp: remove_at_def dest: in_set_takeD in_set_dropD)

lemma distinct_remove_at: "distinct xs \<Longrightarrow> distinct (remove_at i xs)"
  unfolding remove_at_def
  by (auto simp: set_take_disj_set_drop_if_distinct)

lemma set_remove_at: "distinct xs \<Longrightarrow> i < length xs \<Longrightarrow> set (remove_at i xs) = set xs - {xs ! i}"
proof -
  assume d: "distinct xs" and i: "i < length xs"
  have m: "mset xs = add_mset (xs ! i) (mset (remove_at i xs))"
    using i by (rule mset_remove_at)
  then have "set xs = insert (xs ! i) (set (remove_at i xs))"
    by (metis set_mset_add_mset_insert set_mset_mset)
  moreover have "xs ! i \<notin> set (remove_at i xs)"
  proof
    assume "xs ! i \<in> set (remove_at i xs)"
    then have "count (mset xs) (xs ! i) \<ge> 2"
      using m by (metis Suc_1 Suc_le_mono count_add_mset count_greater_eq_one_iff set_mset_mset)
    with d show False
      by (metis distinct_count_atmost_1 le_numeral_extra(2) not_numeral_le_zero Suc_1 Suc_n_not_le_n)
  qed
  ultimately show ?thesis by auto
qed

text \<open>Insertion of a new key with last-write-wins, and the lookup of a missing key.\<close>

definition lookup_or :: "'v \<Rightarrow> ('k \<rightharpoonup> 'v) \<Rightarrow> 'k \<Rightarrow> 'v" where
  "lookup_or d m k = (case m k of None \<Rightarrow> d | Some v \<Rightarrow> v)"

lemma lookup_or_upd [simp]: "lookup_or d (m(k \<mapsto> v)) k' = (if k' = k then v else lookup_or d m k')"
  by (simp add: lookup_or_def)

lemma lookup_or_empty [simp]: "lookup_or d Map.empty k = d"
  by (simp add: lookup_or_def)

section \<open>Paths\<close>

text \<open>\<open>filepath.Clean\<close> and \<open>filepath.Dir\<close> for Unix paths.\<close>

definition clean_step :: "bool \<Rightarrow> string list \<Rightarrow> string \<Rightarrow> string list" where
  "clean_step rooted out el =
     (if el = [] \<or> el = ''.'' then out
      else if el = ''..'' then
        (if out \<noteq> [] \<and> last out \<noteq> ''..'' then butlast out
         else if rooted then out else out @ [el])
      else out @ [el])"

definition path_clean :: "string \<Rightarrow> string" where
  "path_clean p =
     (let rooted = has_prefix p ''/'';
          els = foldl (clean_step rooted) [] (split_on CHR ''/'' p);
          r = (if rooted then ''/'' else []) @ join ''/'' els
      in if r = [] then ''.'' else r)"

definition path_dir :: "string \<Rightarrow> string" where
  "path_dir p = path_clean (rev (dropWhile (\<lambda>c. c \<noteq> CHR ''/'') (rev p)))"

section \<open>Truncated division\<close>

definition go_div :: "int \<Rightarrow> int \<Rightarrow> int" where
  "go_div a b = (if (a < 0) = (b < 0) then \<bar>a\<bar> div \<bar>b\<bar> else - (\<bar>a\<bar> div \<bar>b\<bar>))"

definition go_rem :: "int \<Rightarrow> int \<Rightarrow> int" where
  "go_rem a b = (if a < 0 then - (\<bar>a\<bar> mod \<bar>b\<bar>) else \<bar>a\<bar> mod \<bar>b\<bar>)"

lemma go_div_pos: "0 < b \<Longrightarrow> go_div a b = (if a < 0 then - ((- a) div b) else a div b)"
  by (simp add: go_div_def)

lemma go_rem_pos: "0 < b \<Longrightarrow> go_rem a b = (if a < 0 then - ((- a) mod b) else a mod b)"
  by (simp add: go_rem_def)

lemma go_div_rem: "0 < b \<Longrightarrow> go_div a b * b + go_rem a b = a"
proof -
  assume b: "0 < b"
  have "b * (- a div b) + - a mod b = - a" by (rule mult_div_mod_eq)
  then have "- (b * (- a div b)) - - a mod b = a" by linarith
  then show ?thesis using b by (simp add: go_div_pos go_rem_pos mult.commute)
qed

lemma go_div_nat: "go_div (int a) (int b) = int (a div b)"
  by (simp add: go_div_def zdiv_int)

lemma go_rem_nat: "go_rem (int a) (int b) = int (a mod b)"
  by (simp add: go_rem_def zmod_int)

section \<open>Quoting and host addresses\<close>

text \<open>The verb \<^verbatim>\<open>%q\<close> on ASCII text.\<close>

definition hex_digit :: "nat \<Rightarrow> char" where
  "hex_digit d = (if d < 10 then char_of (48 + d) else char_of (87 + d))"

definition quote_char :: "char \<Rightarrow> string" where
  "quote_char c =
    (let n = (of_char c :: nat) in
     if n = 34 then [CHR 0x5C, CHR 0x22]
     else if n = 92 then [CHR 0x5C, CHR 0x5C]
     else if n = 7 then CHR 0x5C # ''a'' else if n = 8 then CHR 0x5C # ''b''
     else if n = 9 then CHR 0x5C # ''t'' else if n = 10 then CHR 0x5C # ''n''
     else if n = 11 then CHR 0x5C # ''v'' else if n = 12 then CHR 0x5C # ''f''
     else if n = 13 then CHR 0x5C # ''r''
     else if n < 32 \<or> n = 127 then CHR 0x5C # CHR ''x'' # [hex_digit (n div 16), hex_digit (n mod 16)]
     else [c])"

definition go_quote :: "string \<Rightarrow> string" where
  "go_quote s = CHR 0x22 # concat (map quote_char s) @ [CHR 0x22]"

text \<open>\<^verbatim>\<open>strconv.Atoi\<close>.\<close>

definition atoi :: "string \<Rightarrow> int res" where
  "atoi s =
    (let neg = (s \<noteq> [] \<and> hd s = CHR ''-'');
         ds = (if s \<noteq> [] \<and> (hd s = CHR ''-'' \<or> hd s = CHR ''+'') then tl s else s);
         v = (if neg then - int (read_nat ds) else int (read_nat ds))
     in if ds = [] \<or> \<not> list_all is_digit ds then Inl ''invalid syntax''
        else if v < - (2 ^ 63) \<or> 2 ^ 63 \<le> v then Inl ''value out of range''
        else Inr v)"

lemma atoi_show_nat: "int n < 2 ^ 63 \<Longrightarrow> atoi (show_nat n) = Inr (int n)"
proof -
  assume n: "int n < 2 ^ 63"
  have d: "list_all is_digit (show_nat n)" using show_nat_digits by (simp add: list_all_iff)
  then have "is_digit (hd (show_nat n))" by (simp add: list_all_iff)
  then have "hd (show_nat n) \<noteq> CHR ''-''" "hd (show_nat n) \<noteq> CHR ''+''"
    by (auto simp: is_digit_def)
  then show ?thesis using n d by (simp add: atoi_def)
qed

text \<open>\<^verbatim>\<open>net.SplitHostPort\<close>: host and port of an address; the errors carry their reason.\<close>

definition last_colon :: "string \<Rightarrow> nat option" where
  "last_colon s =
    (if CHR '':'' \<in> set s
     then Some (length s - 1 - length (takeWhile (\<lambda>c. c \<noteq> CHR '':'') (rev s))) else None)"

definition split_host_port :: "string \<Rightarrow> (string \<times> string) res" where
  "split_host_port s =
    (case last_colon s of
       None \<Rightarrow> Inl ''missing port in address''
     | Some i \<Rightarrow>
         if hd s = CHR ''['' then
           (let e = length (takeWhile (\<lambda>c. c \<noteq> CHR '']'') s) in
            if CHR '']'' \<notin> set s then Inl ''missing ']' in address''
            else if e + 1 = length s then Inl ''missing port in address''
            else if e + 1 \<noteq> i then
              (if s ! (e + 1) = CHR '':'' then Inl ''too many colons in address''
               else Inl ''missing port in address'')
            else if CHR ''['' \<in> set (drop 1 s) then Inl ''unexpected '[' in address''
            else if CHR '']'' \<in> set (drop (e + 1) s) then Inl ''unexpected ']' in address''
            else Inr (take (e - 1) (drop 1 s), drop (i + 1) s))
         else if CHR '':'' \<in> set (take i s) then Inl ''too many colons in address''
         else if CHR ''['' \<in> set s then Inl ''unexpected '[' in address''
         else if CHR '']'' \<in> set s then Inl ''unexpected ']' in address''
         else Inr (take i s, drop (i + 1) s))"

lemma last_colon_append:
  "CHR '':'' \<notin> set p \<Longrightarrow> last_colon (h @ CHR '':'' # p) = Some (length h)"
  by (auto simp: last_colon_def takeWhile_append)

lemma split_host_port_plain:
  assumes "CHR '':'' \<notin> set h" "CHR ''['' \<notin> set h" "CHR '']'' \<notin> set h"
    and "CHR '':'' \<notin> set p" "CHR ''['' \<notin> set p" "CHR '']'' \<notin> set p"
  shows "split_host_port (h @ CHR '':'' # p) = Inr (h, p)"
proof -
  have "hd (h @ CHR '':'' # p) \<noteq> CHR ''[''" using assms(2) by (cases h) auto
  then show ?thesis using assms by (simp add: split_host_port_def last_colon_append)
qed

end
