(* ===== verification/Path_Match.thy ===== *)
theory Path_Match
  imports Go_Prelude
begin

text \<open>
  The glob dialect of fault rules and file watches: \<open>internal/pathmatch/pathmatch.go\<close>.

  The definitions follow the Go functions: \<open>matchHere\<close> is the loop over pattern and path,
  with the two inner loops over split points as searches over the suffixes they try.
  The specification is the inductive relation \<open>glob\<close>, one rule per construct of the dialect
  as the package comment lists them; \<open>matchHere_iff_glob\<close> shows that the matcher decides it.
\<close>

section \<open>The matcher\<close>

abbreviation (input) slash :: char where "slash \<equiv> CHR ''/''"
abbreviation (input) backslash :: char where "backslash \<equiv> CHR 0x5C"

text \<open>
  The loop of \<open>matchClass\<close>: the rest of the pattern at index \<open>i\<close>, the byte to test, the
  flag \<open>first\<close>, the flag \<open>found\<close> and \<open>i\<close> itself.
\<close>

function class_loop :: "string \<Rightarrow> char \<Rightarrow> bool \<Rightarrow> bool \<Rightarrow> nat \<Rightarrow> string \<times> bool \<times> nat" where
  "class_loop [] c first found i = ([], found, i)"
| "class_loop (x # xs) c first found i =
     (if x = CHR '']'' \<and> \<not> first then (x # xs, found, i)
      else if x = backslash \<and> xs \<noteq> [] then
        class_loop (tl xs) c False (found \<or> hd xs = c) (i + 2)
      else if 2 \<le> length xs \<and> xs ! 0 = CHR ''-'' \<and> xs ! 1 \<noteq> CHR '']'' then
        class_loop (drop 2 xs) c False (found \<or> (x \<le> c \<and> c \<le> xs ! 1)) (i + 3)
      else class_loop xs c False (found \<or> x = c) (i + 1))"
  by pat_completeness auto
termination
  by (relation "measure (\<lambda>(xs, _). length xs)") auto

definition matchClass :: "string \<Rightarrow> char \<Rightarrow> nat \<times> bool" where
  "matchClass pat c =
     (let negate = (1 < length pat \<and> (pat ! 1 = CHR ''!'' \<or> pat ! 1 = CHR ''^''));
          i = (if negate then 2 else 1);
          (rest, found, j) = class_loop (drop i pat) c True False i
      in if rest = [] then (0, False) else (j + 1, found \<noteq> negate))"

lemma class_loop_mono: "class_loop xs c first found i = (r, f, j) \<Longrightarrow> i \<le> j"
  by (induction xs c first found i rule: class_loop.induct) (auto split: if_splits)

lemma matchClass_pos: "snd (matchClass pat c) \<Longrightarrow> 0 < fst (matchClass pat c)"
  by (auto simp: matchClass_def Let_def split: prod.splits if_splits)

text \<open>The suffixes \<open>s[i:]\<close> that the loops of the star cases try, in their order.\<close>

definition star_splits :: "string \<Rightarrow> string list" where
  "star_splits s = map (\<lambda>i. drop i s) [0..<Suc (length (takeWhile (\<lambda>c. c \<noteq> slash) s))]"

definition all_splits :: "string \<Rightarrow> string list" where
  "all_splits s = map (\<lambda>i. drop i s) [0..<Suc (length s)]"

function matchHere :: "string \<Rightarrow> string \<Rightarrow> bool" where
  "matchHere [] s = (s = [])"
| "matchHere (p # ps) s =
     (if p # ps = ''/**'' \<and> s = [] then True
      else if p = CHR ''*'' then
        (if ps \<noteq> [] \<and> hd ps = CHR ''*'' then
           (let rest = tl ps in
            if rest = [] then True
            else if hd rest = slash \<and> matchHere (tl rest) s then True
            else list_ex (matchHere rest) (all_splits s))
         else list_ex (matchHere ps) (star_splits s))
      else if p = CHR ''?'' then
        (if s = [] \<or> hd s = slash then False else matchHere ps (tl s))
      else if p = CHR ''['' then
        (if s = [] \<or> hd s = slash then False
         else if \<not> snd (matchClass (p # ps) (hd s)) then False
         else matchHere (drop (fst (matchClass (p # ps) (hd s))) (p # ps)) (tl s))
      else if p = backslash then
        (if ps = [] then False
         else if s = [] \<or> hd s \<noteq> hd ps then False
         else matchHere (tl ps) (tl s))
      else if s = [] \<or> hd s \<noteq> p then False
      else matchHere ps (tl s))"
  by pat_completeness auto
termination
  by (relation "measure (\<lambda>(p, _). length p)")
    (auto simp: neq_Nil_conv dest: matchClass_pos)

declare matchHere.simps(2) [simp del]

text \<open>\<open>Match\<close> of package \<open>pathmatch\<close>; an empty pattern means that there is no path filter.\<close>

definition Match :: "string \<Rightarrow> string \<Rightarrow> bool" where
  "Match pattern path = (if pattern = [] then True else matchHere pattern path)"

definition MatchAny :: "string list \<Rightarrow> string \<Rightarrow> bool" where
  "MatchAny patterns path = (if patterns = [] then True else list_ex (\<lambda>p. Match p path) patterns)"

definition HasWildcard :: "string \<Rightarrow> bool" where
  "HasWildcard pattern = list_ex (\<lambda>c. c \<in> set ''*?['') pattern"

section \<open>The dialect, declaratively\<close>

inductive glob :: "string \<Rightarrow> string \<Rightarrow> bool" where
  glob_end: "glob [] []"
| glob_dir: "glob ''/**'' []"
| glob_dstar: "glob ps t \<Longrightarrow> glob (CHR ''*'' # CHR ''*'' # ps) (u @ t)"
| glob_dstar_sep: "glob ps s \<Longrightarrow> glob (CHR ''*'' # CHR ''*'' # slash # ps) s"
| glob_star: "glob ps t \<Longrightarrow> slash \<notin> set u \<Longrightarrow> (ps = [] \<or> hd ps \<noteq> CHR ''*'') \<Longrightarrow>
    glob (CHR ''*'' # ps) (u @ t)"
| glob_quest: "glob ps s \<Longrightarrow> c \<noteq> slash \<Longrightarrow> glob (CHR ''?'' # ps) (c # s)"
| glob_class: "glob (drop n (CHR ''['' # ps)) s \<Longrightarrow> c \<noteq> slash \<Longrightarrow>
    matchClass (CHR ''['' # ps) c = (n, True) \<Longrightarrow> glob (CHR ''['' # ps) (c # s)"
| glob_escape: "glob ps s \<Longrightarrow> glob (backslash # c # ps) (c # s)"
| glob_literal: "glob ps s \<Longrightarrow> c \<notin> set [CHR ''*'', CHR ''?'', CHR ''['', backslash] \<Longrightarrow>
    glob (c # ps) (c # s)"

inductive_cases glob_NilE: "glob [] s"

lemma in_all_splits: "t \<in> set (all_splits s) \<longleftrightarrow> (\<exists>u. s = u @ t)"
proof
  assume "t \<in> set (all_splits s)"
  then have "\<exists>i. t = drop i s" by (auto simp: all_splits_def simp del: upt_Suc)
  then show "\<exists>u. s = u @ t" by (metis append_take_drop_id)
next
  assume "\<exists>u. s = u @ t"
  then obtain u where "s = u @ t" ..
  then have "length u \<in> {0..<Suc (length s)}" "t = drop (length u) s" by auto
  then show "t \<in> set (all_splits s)"
    unfolding all_splits_def set_map set_upt by (rule rev_image_eqI)
qed

lemma takeWhile_len_iff:
  "i \<le> length (takeWhile P s) \<longleftrightarrow> i \<le> length s \<and> (\<forall>c \<in> set (take i s). P c)"
proof (induction s arbitrary: i)
  case Nil
  then show ?case by simp
next
  case (Cons a s)
  then show ?case by (cases i) auto
qed

lemma in_star_splits: "t \<in> set (star_splits s) \<longleftrightarrow> (\<exists>u. s = u @ t \<and> slash \<notin> set u)"
proof
  assume "t \<in> set (star_splits s)"
  then obtain i where i: "i < Suc (length (takeWhile (\<lambda>c. c \<noteq> slash) s))" "t = drop i s"
    by (auto simp: star_splits_def simp del: upt_Suc)
  then have "slash \<notin> set (take i s)"
    using takeWhile_len_iff [of i "\<lambda>c. c \<noteq> slash" s] by auto
  with i show "\<exists>u. s = u @ t \<and> slash \<notin> set u"
    by (metis append_take_drop_id)
next
  assume "\<exists>u. s = u @ t \<and> slash \<notin> set u"
  then obtain u where u: "s = u @ t" "slash \<notin> set u" by blast
  then have "length u \<le> length (takeWhile (\<lambda>c. c \<noteq> slash) s)"
    unfolding takeWhile_len_iff by auto
  then have "length u \<in> {0..<Suc (length (takeWhile (\<lambda>c. c \<noteq> slash) s))}"
    and "t = drop (length u) s" using u(1) by simp_all
  then show "t \<in> set (star_splits s)"
    unfolding star_splits_def set_map set_upt by (rule rev_image_eqI)
qed

text \<open>One equation per construct of the dialect; the proofs below rest on these.\<close>

lemma matchHere_dstar:
  "matchHere (CHR ''*'' # CHR ''*'' # ps) s \<longleftrightarrow>
     ps = [] \<or> (ps \<noteq> [] \<and> hd ps = slash \<and> matchHere (tl ps) s) \<or> (\<exists>u t. s = u @ t \<and> matchHere ps t)"
proof -
  have "list_ex (matchHere ps) (all_splits s) \<longleftrightarrow> (\<exists>u t. s = u @ t \<and> matchHere ps t)"
    unfolding list_ex_iff Bex_def in_all_splits by blast
  then show ?thesis by (subst matchHere.simps(2)) (simp, argo)
qed

lemma matchHere_star:
  "ps = [] \<or> hd ps \<noteq> CHR ''*'' \<Longrightarrow>
   matchHere (CHR ''*'' # ps) s \<longleftrightarrow> (\<exists>u t. s = u @ t \<and> slash \<notin> set u \<and> matchHere ps t)"
proof -
  have "list_ex (matchHere ps) (star_splits s) \<longleftrightarrow>
    (\<exists>u t. s = u @ t \<and> slash \<notin> set u \<and> matchHere ps t)"
    unfolding list_ex_iff Bex_def in_star_splits by blast
  then show "ps = [] \<or> hd ps \<noteq> CHR ''*'' \<Longrightarrow> ?thesis" by (subst matchHere.simps(2)) (simp, argo)
qed

lemma matchHere_quest:
  "matchHere (CHR ''?'' # ps) s \<longleftrightarrow> (\<exists>c t. s = c # t \<and> c \<noteq> slash \<and> matchHere ps t)"
  by (subst matchHere.simps(2)) (cases s; simp)

lemma matchHere_class:
  "matchHere (CHR ''['' # ps) s \<longleftrightarrow>
     (\<exists>c t n. s = c # t \<and> c \<noteq> slash \<and> matchClass (CHR ''['' # ps) c = (n, True) \<and>
        matchHere (drop n (CHR ''['' # ps)) t)"
  by (subst matchHere.simps(2)) (cases s; auto simp: prod_eq_iff)

lemma matchHere_escape:
  "matchHere (backslash # ps) s \<longleftrightarrow> (\<exists>c ps' t. ps = c # ps' \<and> s = c # t \<and> matchHere ps' t)"
  by (subst matchHere.simps(2)) (cases s; cases ps; auto)

lemma matchHere_literal:
  "c \<notin> set [CHR ''*'', CHR ''?'', CHR ''['', backslash] \<Longrightarrow>
   matchHere (c # ps) s \<longleftrightarrow> (c # ps = ''/**'' \<and> s = []) \<or> (\<exists>t. s = c # t \<and> matchHere ps t)"
  by (subst matchHere.simps(2)) (cases s; auto)

lemmas matchHere_eqs = matchHere_dstar matchHere_star matchHere_quest matchHere_class
  matchHere_escape matchHere_literal

lemma glob_imp_matchHere: "glob p s \<Longrightarrow> matchHere p s"
proof (induction rule: glob.induct)
  case (glob_dstar ps t u)
  then show ?case by (auto simp: matchHere_dstar)
next
  case (glob_star ps t u)
  then show ?case by (auto simp: matchHere_star)
next
  case (glob_class n ps s c)
  then show ?case by (auto simp: matchHere_class)
qed (simp_all add: matchHere_eqs)

lemma pattern_cases [case_names nil dstar star quest cls esc lit]:
  obtains "p = []" | ps where "p = CHR ''*'' # CHR ''*'' # ps"
    | ps where "p = CHR ''*'' # ps" "ps = [] \<or> hd ps \<noteq> CHR ''*''"
    | ps where "p = CHR ''?'' # ps" | ps where "p = CHR ''['' # ps" | ps where "p = backslash # ps"
    | c ps where "p = c # ps" "c \<notin> set [CHR ''*'', CHR ''?'', CHR ''['', backslash]"
proof (cases p)
  case Nil
  then show thesis using that(1) by simp
next
  case (Cons a q)
  consider "a = CHR ''*''" "q \<noteq> []" "hd q = CHR ''*''" | "a = CHR ''*''" "q = [] \<or> hd q \<noteq> CHR ''*''"
    | "a = CHR ''?''" | "a = CHR ''[''" | "a = backslash"
    | "a \<notin> set [CHR ''*'', CHR ''?'', CHR ''['', backslash]"
    by auto
  then show thesis
  proof cases
    case 1
    then show thesis using that(2) [of "tl q"] Cons by (cases q) simp_all
  qed (use that(3-7) Cons in simp_all)
qed

lemma matchHere_imp_glob: "matchHere p s \<Longrightarrow> glob p s"
proof (induction p arbitrary: s rule: length_induct)
  case (1 p)
  then have IH: "\<And>q t. length q < length p \<Longrightarrow> matchHere q t \<Longrightarrow> glob q t"
    and prem: "matchHere p s" by blast+
  show ?case
  proof (cases p rule: pattern_cases)
    case nil
    then show ?thesis using prem by (simp add: glob_end)
  next
    case (dstar ps)
    then consider "ps = []" | "ps \<noteq> []" "hd ps = slash" "matchHere (tl ps) s"
      | u t where "s = u @ t" "matchHere ps t"
      using prem by (auto simp: matchHere_dstar)
    then show ?thesis
    proof cases
      case 1
      then show ?thesis using dstar glob_dstar [OF glob_end, of s] by simp
    next
      case 2
      then show ?thesis using dstar IH [of "tl ps" s] glob_dstar_sep [of "tl ps" s]
        by (cases ps) auto
    next
      case 3
      then show ?thesis using dstar IH [of ps t] glob_dstar by simp
    qed
  next
    case (star ps)
    with prem obtain u t where "s = u @ t" "slash \<notin> set u" "matchHere ps t"
      by (auto simp: matchHere_star)
    then show ?thesis using star IH [of ps t] glob_star by simp
  next
    case (quest ps)
    with prem obtain c t where "s = c # t" "c \<noteq> slash" "matchHere ps t"
      by (auto simp: matchHere_quest)
    then show ?thesis using quest IH [of ps t] glob_quest by simp
  next
    case (cls ps)
    with prem obtain c t n where m: "s = c # t" "c \<noteq> slash" "matchClass (CHR ''['' # ps) c = (n, True)"
      "matchHere (drop n (CHR ''['' # ps)) t"
      by (auto simp: matchHere_class)
    then have "0 < n" using matchClass_pos [of "CHR ''['' # ps" c] by simp
    then show ?thesis using cls m IH [of "drop n p" t] glob_class by simp
  next
    case (esc ps)
    with prem obtain c ps' t where "ps = c # ps'" "s = c # t" "matchHere ps' t"
      by (auto simp: matchHere_escape)
    then show ?thesis using esc IH [of ps' t] glob_escape by simp
  next
    case (lit c ps)
    with prem consider "c # ps = ''/**''" "s = []" | t where "s = c # t" "matchHere ps t"
      by (auto simp: matchHere_literal)
    then show ?thesis
    proof cases
      case 1
      then show ?thesis using lit glob_dir by simp
    next
      case 2
      then show ?thesis using lit IH [of ps t] glob_literal by simp
    qed
  qed
qed

lemma matchHere_iff_glob: "matchHere p s \<longleftrightarrow> glob p s"
  using glob_imp_matchHere matchHere_imp_glob by blast

section \<open>What the dialect promises\<close>


text \<open>A run of plain bytes in front of a pattern is matched byte by byte.\<close>

definition plain :: "string \<Rightarrow> bool" where
  "plain d = (\<forall>c \<in> set d. c \<notin> set [CHR ''*'', CHR ''?'', CHR ''['', backslash])"

lemma matchHere_plain_append:
  "plain d \<Longrightarrow> p \<noteq> ''**'' \<Longrightarrow> matchHere (d @ p) s \<longleftrightarrow> (\<exists>t. s = d @ t \<and> matchHere p t)"
proof (induction d arbitrary: s)
  case Nil
  then show ?case by simp
next
  case (Cons c d)
  then have c: "c \<notin> set [CHR ''*'', CHR ''?'', CHR ''['', backslash]" and d: "plain d"
    by (auto simp: plain_def)
  have "c # d @ p \<noteq> ''/**''"
    using Cons.prems by (cases d) (auto simp: plain_def)
  then have "matchHere ((c # d) @ p) s \<longleftrightarrow> (\<exists>t. s = c # t \<and> matchHere (d @ p) t)"
    using matchHere_literal [OF c, of "d @ p" s] by auto
  then show ?case using Cons.IH [OF d Cons.prems(2)] by auto
qed

text \<open>A pattern \<open>dir/**\<close> over a plain directory name matches the directory itself and everything
  below it, at any depth, and nothing else.\<close>

theorem Match_directory:
  assumes "plain d"
  shows "Match (d @ ''/**'') s \<longleftrightarrow> s = d \<or> (\<exists>r. s = d @ ''/'' @ r)"
proof -
  have "matchHere ''/**'' t \<longleftrightarrow> t = [] \<or> (\<exists>r. t = CHR ''/'' # r)" for t
    by (simp add: matchHere_literal matchHere_dstar)
  then show ?thesis
    using matchHere_plain_append [OF assms, of "''/**''" s] by (auto simp: Match_def)
qed

theorem Match_directory_witness:
  "Match ''/data/**'' ''/data/a/b'' \<and> Match ''/data/**'' ''/data'' \<and> \<not> Match ''/data/**'' ''/database''"
  using Match_directory [of "''/data''" "''/data/a/b''"] Match_directory [of "''/data''" "''/data''"]
    Match_directory [of "''/data''" "''/database''"]
  by (simp add: plain_def)

text \<open>A single star stays inside one path component: \<open>dir/*\<close> over a plain directory name matches
  exactly the paths one component below it, and a plain pattern matches only itself.\<close>

theorem Match_component:
  assumes "plain d"
  shows "(Match (d @ ''/*'') s \<longleftrightarrow> (\<exists>r. s = d @ ''/'' @ r \<and> CHR ''/'' \<notin> set r)) \<and>
    (d \<noteq> [] \<longrightarrow> (Match d s \<longleftrightarrow> s = d))"
proof -
  have "matchHere ''/*'' t \<longleftrightarrow> (\<exists>r. t = CHR ''/'' # r \<and> CHR ''/'' \<notin> set r)" for t
    by (simp add: matchHere_literal matchHere_star)
  then show ?thesis
    using matchHere_plain_append [OF assms, of "''/*''" s]
      matchHere_plain_append [OF assms, of "[]" s]
    by (auto simp: Match_def)
qed

theorem Match_component_witness:
  "Match ''/data/*'' ''/data/foo'' \<and> \<not> Match ''/data/*'' ''/data/a/b'' \<and> Match ''/data'' ''/data''"
  using Match_component [of "''/data''" "''/data/foo''"] Match_component [of "''/data''" "''/data/a/b''"]
    Match_component [of "''/data''" "''/data''"]
  by (simp add: plain_def)

end
