(* ===== verification/Fault_Rule.thy ===== *)
theory Fault_Rule
  imports Path_Match
begin

text \<open>
  Syscall fault rules: \<open>internal/engine/fault.go\<close>. The record \<open>FaultRule\<close> has the fields of the
  Go struct; its two atomic counters are fields too, \<open>None\<close> being the nil pointer before the lazy
  initialisation. Reading and bumping a counter returns the updated rule.

  The interface locale \<open>trigger_gate\<close> states what a stateful trigger promises: consulted once per
  matching call, it counts the calls and decides from the count alone. Its lemmas describe whole
  runs of calls; the syscall rules here and the packet rules of theory \<open>Packet_Rule\<close> interpret it.
\<close>

section \<open>Data\<close>

datatype FaultAction = ActionDeny | ActionDelay | ActionHold | ActionTrace

datatype FaultTrigger = TriggerAlways | TriggerNth | TriggerAfter

record FaultRule =
  Syscall :: string
  Action :: FaultAction
  Errno :: int
  Delay :: int \<comment> \<open>nanoseconds\<close>
  Probability :: float64
  PathGlob :: string
  Trigger :: FaultTrigger
  TriggerN :: int
  DestAddr :: string
  Label :: string
  Op :: string
  HoldTag :: string
  MaxFires :: int
  Mode :: string
  counter :: "int option"
  probCounter :: "int option"

definition actionName :: "FaultAction \<Rightarrow> string" where
  "actionName a = (case a of ActionDeny \<Rightarrow> ''deny'' | ActionDelay \<Rightarrow> ''delay''
     | ActionHold \<Rightarrow> ''hold'' | ActionTrace \<Rightarrow> ''trace'')"

section \<open>Operations\<close>

definition MatchPath :: "FaultRule \<Rightarrow> string \<Rightarrow> bool" where
  "MatchPath r path = Match (PathGlob r) path"

definition MatchCount :: "FaultRule \<Rightarrow> int" where
  "MatchCount r = (case counter r of None \<Rightarrow> 0 | Some n \<Rightarrow> n)"

text \<open>\<open>atomic.Int64.Add(1)\<close> after the lazy initialisation of a nil counter.\<close>

definition bump :: "int option \<Rightarrow> int" where
  "bump c = (case c of None \<Rightarrow> 1 | Some n \<Rightarrow> n + 1)"

definition NextProbabilityOccurrence :: "FaultRule \<Rightarrow> int \<times> FaultRule" where
  "NextProbabilityOccurrence r =
     (let n = bump (probCounter r) in (n - 1, r\<lparr>probCounter := Some n\<rparr>))"

definition ShouldFire :: "FaultRule \<Rightarrow> bool \<times> FaultRule" where
  "ShouldFire r =
     (let n = bump (counter r);
          r' = r\<lparr>counter := Some n\<rparr>
      in (case Trigger r of
            TriggerNth \<Rightarrow> (n = TriggerN r, r')
          | TriggerAfter \<Rightarrow> (n > TriggerN r, r')
          | TriggerAlways \<Rightarrow> (True, r')))"

definition SystemPathPrefixes :: "string list" where
  "SystemPathPrefixes = [''/lib/'', ''/lib64/'', ''/usr/lib/'', ''/usr/lib64/'', ''/proc/'', ''/sys/'',
     ''/dev/'', ''/etc/ld.so.'']"

definition IsFileSyscall :: "string \<Rightarrow> bool" where
  "IsFileSyscall name = (name \<in> set [''open'', ''openat'', ''creat'', ''mkdirat'', ''unlinkat'',
     ''faccessat'', ''fstatat'', ''readlinkat'', ''renameat'', ''renameat2'', ''linkat'', ''symlinkat''])"

definition IsFdSyscall :: "string \<Rightarrow> bool" where
  "IsFdSyscall name = (name \<in> set [''write'', ''writev'', ''pwrite64'', ''pwritev'', ''pwritev2'',
     ''read'', ''readv'', ''pread64'', ''preadv'', ''preadv2'',
     ''fsync'', ''fdatasync'', ''ftruncate'', ''fchmod'', ''fchown''])"

definition IsSystemPath :: "string \<Rightarrow> bool" where
  "IsSystemPath path = list_ex (has_prefix path) SystemPathPrefixes"

text \<open>The table of injectable errnos with the values of the Linux ABI.\<close>

definition errnoMap :: "(string \<times> int) list" where
  "errnoMap = [(''ENOENT'', 2), (''EACCES'', 13), (''EPERM'', 1), (''EIO'', 5), (''ENOSPC'', 28),
     (''EROFS'', 30), (''EEXIST'', 17), (''ENOTEMPTY'', 39), (''ENFILE'', 23), (''EMFILE'', 24),
     (''EFBIG'', 27),
     (''ECONNREFUSED'', 111), (''ECONNRESET'', 104), (''ECONNABORTED'', 103), (''ETIMEDOUT'', 110),
     (''ENETUNREACH'', 101), (''EHOSTUNREACH'', 113), (''EADDRINUSE'', 98), (''EADDRNOTAVAIL'', 99),
     (''EINTR'', 4), (''EAGAIN'', 11), (''ENOMEM'', 12), (''EBUSY'', 16), (''EINVAL'', 22),
     (''ENOSYS'', 38), (''EDEADLK'', 35), (''ELOOP'', 40), (''EDQUOT'', 122), (''ENOLCK'', 37)]"

definition errnoByName :: "string \<Rightarrow> int option" where
  "errnoByName name = map_of errnoMap (to_upper name)"

definition ValidErrno :: "string \<Rightarrow> bool" where
  "ValidErrno name = (errnoByName name \<noteq> None)"

definition SupportedErrnos :: "string list" where
  "SupportedErrnos = sort (map fst errnoMap)"

text \<open>
  \<open>errnoName\<close> ranges over a Go map, whose order is not specified: \<open>ord\<close> is the order in which
  this call sees the entries.
\<close>

definition errnoName_in :: "(string \<times> int) list \<Rightarrow> int \<Rightarrow> string" where
  "errnoName_in ord e = (case List.find (\<lambda>(n, v). v = e) ord of
      Some (n, v) \<Rightarrow> n | None \<Rightarrow> ''errno('' @ show_int e @ '')'')"

section \<open>The contract of a stateful trigger\<close>

text \<open>
  A gate counts the calls it is asked about and decides from the count alone; nothing else of the
  rule changes what it answers (\<open>same\<close> relates rules that differ in their counters only).
\<close>

locale trigger_gate =
  fixes gate :: "'r \<Rightarrow> bool \<times> 'r"
    and calls :: "'r \<Rightarrow> int"
    and fires_at :: "'r \<Rightarrow> int \<Rightarrow> bool"
    and fresh :: "'r \<Rightarrow> bool"
  assumes gate_counts: "calls (snd (gate r)) = calls r + 1"
    and gate_decides: "fst (gate r) = fires_at r (calls r + 1)"
    and gate_keeps: "fires_at (snd (gate r)) = fires_at r"
    and fresh_calls: "fresh r \<Longrightarrow> calls r = 0"
begin

text \<open>The answers of \<open>n\<close> consecutive calls, and the rule after them.\<close>

primrec answers :: "nat \<Rightarrow> 'r \<Rightarrow> bool list \<times> 'r" where
  "answers 0 r = ([], r)"
| "answers (Suc n) r = (let (b, r') = gate r; (bs, r'') = answers n r' in (b # bs, r''))"

lemma answers_spec:
  "fst (answers n r) = map (\<lambda>k. fires_at r (calls r + 1 + int k)) [0..<n] \<and>
   calls (snd (answers n r)) = calls r + int n"
proof (induction n arbitrary: r)
  case 0
  then show ?case by simp
next
  case (Suc n)
  obtain b r' where g: "gate r = (b, r')" by fastforce
  then have "calls r' = calls r + 1" "b = fires_at r (calls r + 1)" "fires_at r' = fires_at r"
    using gate_counts [of r] gate_decides [of r] gate_keeps [of r] by simp_all
  with g Suc [of r'] show ?case
    by (simp add: split_beta upt_conv_Cons map_Suc_upt [symmetric] del: upt_Suc)
       (simp add: algebra_simps)
qed

lemma answers_fresh:
  assumes "fresh r"
  shows "fst (answers n r) = map (\<lambda>k. fires_at r (1 + int k)) [0..<n]"
  using answers_spec [of n r] fresh_calls [OF assms] by simp

lemma answers_length: "length (fst (answers n r)) = n"
  by (simp add: answers_spec)

end

text \<open>The law by which a syscall rule's trigger decides.\<close>

definition fault_fires_at :: "FaultRule \<Rightarrow> int \<Rightarrow> bool" where
  "fault_fires_at r n = (case Trigger r of TriggerAlways \<Rightarrow> True
     | TriggerNth \<Rightarrow> n = TriggerN r | TriggerAfter \<Rightarrow> n > TriggerN r)"

interpretation syscall_gate: trigger_gate ShouldFire MatchCount fault_fires_at "\<lambda>r. counter r = None"
  by unfold_locales
    (auto simp: ShouldFire_def MatchCount_def bump_def fault_fires_at_def Let_def fun_eq_iff
      split: option.splits FaultTrigger.splits)

text \<open>The decisions of \<open>n\<close> consecutive matching calls of a rule.\<close>

primrec fire_run :: "nat \<Rightarrow> FaultRule \<Rightarrow> bool list" where
  "fire_run 0 r = []"
| "fire_run (Suc n) r = fst (ShouldFire r) # fire_run n (snd (ShouldFire r))"

lemma fire_run_answers: "fire_run n r = fst (syscall_gate.answers n r)"
  by (induction n arbitrary: r) (simp_all add: split_beta)

lemma fire_run_fresh:
  "counter r = None \<Longrightarrow> fire_run n r = map (\<lambda>k. fault_fires_at r (1 + int k)) [0..<n]"
  by (simp add: fire_run_answers syscall_gate.answers_fresh)

lemma count_positions: "length (filter id (map P [0..<n])) = card {k. k < n \<and> P k}"
proof -
  have "length (filter id (map P [0..<n])) = length (filter P [0..<n])"
    by (simp add: filter_map o_def)
  also have "\<dots> = card (set (filter P [0..<n]))"
    by (rule distinct_card [symmetric]) simp
  also have "set (filter P [0..<n]) = {k. k < n \<and> P k}" by auto
  finally show ?thesis .
qed


definition demo_rule :: FaultRule where
  "demo_rule = \<lparr>Syscall = ''write'', Action = ActionDeny, Errno = 5, Delay = 0, Probability = Fin 1,
     PathGlob = [], Trigger = TriggerNth, TriggerN = 2, DestAddr = [], Label = [], Op = [],
     HoldTag = [], MaxFires = 0, Mode = [], counter = None, probCounter = None\<rparr>"


text \<open>The errno table is injective in both directions.\<close>

lemma distinct_errnoMap: "distinct (map fst errnoMap)" "distinct (map snd errnoMap)"
  by (simp_all add: errnoMap_def)

lemma find_value_unique:
  assumes "distinct (map snd xs)" and "(n, v) \<in> set xs"
  shows "List.find (\<lambda>(n, v'). v' = v) xs = Some (n, v)"
  using assms
proof (induction xs)
  case Nil
  then show ?case by simp
next
  case (Cons x xs)
  then show ?case by (cases x) (force simp: image_iff)
qed

text \<open>Errno names round-trip: in whatever order the Go map is traversed, the name reported for the
  errno that a spelling denotes is that spelling in upper case.\<close>

theorem errnoName_roundtrip:
  assumes "mset ord = mset errnoMap" and "errnoByName name = Some e"
  shows "errnoName_in ord e = to_upper name \<and> errnoByName (errnoName_in ord e) = Some e"
proof -
  have "(to_upper name, e) \<in> set ord"
    using assms by (metis errnoByName_def map_of_SomeD mset_eq_setD)
  moreover have "distinct (map snd ord)"
    using assms(1) distinct_errnoMap(2) by (metis mset_eq_imp_distinct_iff mset_map)
  ultimately have f: "errnoName_in ord e = to_upper name"
    by (simp add: errnoName_in_def find_value_unique)
  with assms(2) show ?thesis by (simp add: errnoByName_def)
qed

theorem errnoName_roundtrip_witness:
  "errnoByName ''enoent'' = Some 2 \<and> errnoName_in (rev errnoMap) 2 = ''ENOENT''"
proof -
  have h: "errnoByName ''enoent'' = Some 2"
    by code_simp
  have "errnoName_in (rev errnoMap) 2 = to_upper ''enoent''"
    using errnoName_roundtrip [of "rev errnoMap", OF _ h] by simp
  moreover have "to_upper ''enoent'' = ''ENOENT''" by code_simp
  ultimately show ?thesis using h by simp
qed

end
