(* ===== verification/Hold_Queue.thy ===== *)
theory Hold_Queue
  imports Go_Prelude
begin

text \<open>
  The queue of held syscall notifications: \<open>internal/engine/hold.go\<close>.

  A send on a notification's release channel is an output of the operation: every operation returns
  the new queue together with the sends it makes, in order. (The channel has capacity one and each
  notification is sent to once, so no send blocks; that "once" is what the conservation lemmas say.)
  The locale \<open>conserving_queue\<close> states the contract the notification supervisor relies on.
  \<open>Wait\<close> is modelled at two grains: one pass of its loop, and, for its interplay with the goroutine
  that watches the context, as a step relation whose steps are the critical sections.
\<close>

section \<open>Data and operations\<close>

record HoldDecision =
  Allow :: bool
  DErrno :: int

record HeldNotif =
  ReqID :: nat
  ListenerFd :: int
  SyscallName :: string
  PID :: nat
  Path :: string

record HoldQueue =
  pending :: "HeldNotif list"
  closed :: bool

type_synonym sends = "(HeldNotif \<times> HoldDecision) list"

definition allow_decision :: HoldDecision where
  "allow_decision = \<lparr>Allow = True, DErrno = 0\<rparr>"

definition NewHoldQueue :: HoldQueue where
  "NewHoldQueue = \<lparr>pending = [], closed = False\<rparr>"

definition Enqueue :: "HeldNotif \<Rightarrow> HoldQueue \<Rightarrow> HoldQueue \<times> sends" where
  "Enqueue h q = (if closed q then (q, [(h, allow_decision)])
     else (q\<lparr>pending := pending q @ [h]\<rparr>, []))"

definition ReleaseOne :: "HoldDecision \<Rightarrow> HoldQueue \<Rightarrow> bool \<times> HoldQueue \<times> sends" where
  "ReleaseOne d q = (case pending q of [] \<Rightarrow> (False, q, [])
     | h # hs \<Rightarrow> (True, q\<lparr>pending := hs\<rparr>, [(h, d)]))"

definition ReleaseAll :: "HoldDecision \<Rightarrow> HoldQueue \<Rightarrow> HoldQueue \<times> sends" where
  "ReleaseAll d q = (q\<lparr>pending := []\<rparr>, map (\<lambda>h. (h, d)) (pending q))"

definition ReleaseByIndex :: "int \<Rightarrow> HoldDecision \<Rightarrow> HoldQueue \<Rightarrow> bool \<times> HoldQueue \<times> sends" where
  "ReleaseByIndex i d q =
     (if i < 0 \<or> i \<ge> int (length (pending q)) then (False, q, [])
      else (True, q\<lparr>pending := remove_at (nat i) (pending q)\<rparr>, [(pending q ! nat i, d)]))"

definition Pending :: "HoldQueue \<Rightarrow> HeldNotif list" where
  "Pending q = pending q"

definition Len :: "HoldQueue \<Rightarrow> int" where
  "Len q = int (length (pending q))"

definition Close :: "HoldQueue \<Rightarrow> HoldQueue \<times> sends" where
  "Close q = (if closed q then (q, [])
     else (\<lparr>pending = [], closed = True\<rparr>, map (\<lambda>h. (h, allow_decision)) (pending q)))"

text \<open>
  One pass of the loop in \<open>Wait\<close>: \<open>None\<close> is "park on the condition variable and look again";
  \<open>Some\<close> is the return, with the context's error when it has one.
\<close>

definition Wait_pass :: "int \<Rightarrow> string option \<Rightarrow> HoldQueue \<Rightarrow> string option option" where
  "Wait_pass cnt ctx_err q =
     (if Len q < cnt \<and> \<not> closed q then
        (case ctx_err of Some e \<Rightarrow> Some (Some e) | None \<Rightarrow> None)
      else (case ctx_err of Some e \<Rightarrow> Some (Some e) | None \<Rightarrow> Some None))"

section \<open>The contract of a queue that loses nothing\<close>

locale conserving_queue =
  fixes apply_op :: "'o \<Rightarrow> 'q \<Rightarrow> 'q \<times> ('h \<times> 'd) list"
    and arrives :: "'o \<Rightarrow> 'h list"
    and items :: "'q \<Rightarrow> 'h list"
  assumes conserve: "apply_op o' q = (q', out) \<Longrightarrow>
    mset (map fst out) + mset (items q') = mset (items q) + mset (arrives o')"
begin

fun run_ops :: "'o list \<Rightarrow> 'q \<Rightarrow> 'q \<times> ('h \<times> 'd) list" where
  "run_ops [] q = (q, [])"
| "run_ops (o' # os) q =
     (let (q1, out1) = apply_op o' q; (q2, out2) = run_ops os q1 in (q2, out1 @ out2))"

lemma run_conserve:
  "run_ops os q = (q', out) \<Longrightarrow>
   mset (map fst out) + mset (items q') = mset (items q) + mset (concat (map arrives os))"
proof (induction os arbitrary: q q' out)
  case Nil
  then show ?case by simp
next
  case (Cons o' os)
  obtain q1 out1 where s1: "apply_op o' q = (q1, out1)" by fastforce
  obtain q2 out2 where s2: "run_ops os q1 = (q2, out2)" by fastforce
  from Cons.prems s1 s2 have eqs: "q' = q2" "out = out1 @ out2" by auto
  have "mset (map fst out) + mset (items q') =
      mset (map fst out1) + (mset (map fst out2) + mset (items q2))"
    by (simp add: eqs ac_simps)
  also have "\<dots> = mset (map fst out1) + mset (items q1) + mset (concat (map arrives os))"
    using Cons.IH [OF s2] by (simp add: ac_simps)
  also have "\<dots> = mset (items q) + mset (concat (map arrives (o' # os)))"
    using conserve [OF s1] by (simp add: ac_simps)
  finally show ?case .
qed

lemma run_at_most_once:
  assumes "run_ops os q = (q', out)" and "items q = []" and "distinct (concat (map arrives os))"
  shows "distinct (map fst out @ items q')"
    and "set (map fst out) \<union> set (items q') = set (concat (map arrives os))"
proof -
  have m: "mset (map fst out @ items q') = mset (concat (map arrives os))"
    using run_conserve [OF assms(1)] assms(2) by simp
  then show "distinct (map fst out @ items q')"
    using assms(3) mset_eq_imp_distinct_iff by blast
  show "set (map fst out) \<union> set (items q') = set (concat (map arrives os))"
    using mset_eq_setD [OF m] by simp
qed

end

datatype hq_op = OEnqueue HeldNotif | OReleaseOne HoldDecision | OReleaseAll HoldDecision
  | OReleaseByIndex int HoldDecision | OClose

fun hq_step :: "hq_op \<Rightarrow> HoldQueue \<Rightarrow> HoldQueue \<times> sends" where
  "hq_step (OEnqueue h) q = Enqueue h q"
| "hq_step (OReleaseOne d) q = snd (ReleaseOne d q)"
| "hq_step (OReleaseAll d) q = ReleaseAll d q"
| "hq_step (OReleaseByIndex i d) q = snd (ReleaseByIndex i d q)"
| "hq_step OClose q = Close q"

fun hq_arrives :: "hq_op \<Rightarrow> HeldNotif list" where
  "hq_arrives (OEnqueue h) = [h]"
| "hq_arrives _ = []"

lemma hq_step_conserve:
  "hq_step op q = (q', out) \<Longrightarrow>
   mset (map fst out) + mset (pending q') = mset (pending q) + mset (hq_arrives op)"
proof (cases op)
  case (OReleaseByIndex i d)
  assume s: "hq_step op q = (q', out)"
  show ?thesis
  proof (cases "i < 0 \<or> i \<ge> int (length (pending q))")
    case False
    then have "nat i < length (pending q)" by linarith
    from mset_remove_at [OF this] show ?thesis
      using s False OReleaseByIndex by (auto simp: ReleaseByIndex_def)
  qed (use s OReleaseByIndex in \<open>auto simp: ReleaseByIndex_def\<close>)
qed (auto simp: Enqueue_def ReleaseOne_def ReleaseAll_def Close_def multiset.map_comp o_def
    split: if_splits list.splits)

interpretation hq: conserving_queue hq_step hq_arrives pending
  by unfold_locales (rule hq_step_conserve)

text \<open>A run of queue operations from the empty queue.\<close>

fun hq_run :: "hq_op list \<Rightarrow> HoldQueue \<Rightarrow> HoldQueue \<times> sends" where
  "hq_run [] q = (q, [])"
| "hq_run (op # ops) q =
     (let (q1, out1) = hq_step op q; (q2, out2) = hq_run ops q1 in (q2, out1 @ out2))"

lemma hq_run_eq: "hq_run ops q = hq.run_ops ops q"
  by (induction ops arbitrary: q) simp_all

lemma hq_step_closed: "closed q \<Longrightarrow> closed (fst (hq_step op q))"
  by (cases op)
    (auto simp: Enqueue_def ReleaseOne_def ReleaseAll_def ReleaseByIndex_def Close_def split: list.splits)

lemma hq_step_closed_empty:
  "closed q \<longrightarrow> pending q = [] \<Longrightarrow> closed (fst (hq_step op q)) \<longrightarrow> pending (fst (hq_step op q)) = []"
  by (cases op)
    (auto simp: Enqueue_def ReleaseOne_def ReleaseAll_def ReleaseByIndex_def Close_def
      split: list.splits if_splits)

lemma hq_run_closed: "closed q \<Longrightarrow> closed (fst (hq_run ops q))"
proof (induction ops arbitrary: q)
  case (Cons op ops)
  from Cons.IH [OF hq_step_closed [OF Cons.prems, of op]] show ?case
    by (simp add: split_beta)
qed simp

lemma hq_run_closed_empty:
  "closed q \<longrightarrow> pending q = [] \<Longrightarrow> closed (fst (hq_run ops q)) \<longrightarrow> pending (fst (hq_run ops q)) = []"
proof (induction ops arbitrary: q)
  case (Cons op ops)
  from Cons.IH [OF hq_step_closed_empty [OF Cons.prems, of op]] show ?case
    by (simp add: split_beta)
qed simp

lemma hq_run_OClose: "OClose \<in> set ops \<Longrightarrow> closed (fst (hq_run ops q))"
proof (induction ops arbitrary: q)
  case (Cons op ops)
  then show ?case
    by (cases "op = OClose")
      (auto simp: split_beta Close_def intro!: hq_run_closed)
qed simp

text \<open>C6. Whatever the interleaving of enqueues, releases and closes, no held notification is answered
  twice and none is lost: each enqueued one has been released exactly once or is still pending, and
  once the queue has been closed none is pending.\<close>

theorem hold_queue_conserves:
  assumes "hq_run ops NewHoldQueue = (q, out)" and "distinct (concat (map hq_arrives ops))"
  shows "distinct (map fst out @ pending q) \<and>
    set (map fst out) \<union> set (pending q) = set (concat (map hq_arrives ops)) \<and>
    (OClose \<in> set ops \<longrightarrow> pending q = [])"
proof (intro conjI impI)
  have r: "hq.run_ops ops NewHoldQueue = (q, out)" and e: "pending NewHoldQueue = []"
    using assms(1) by (simp_all add: hq_run_eq NewHoldQueue_def)
  show "distinct (map fst out @ pending q)"
    and "set (map fst out) \<union> set (pending q) = set (concat (map hq_arrives ops))"
    using hq.run_at_most_once [OF r e assms(2)] by blast+
  assume "OClose \<in> set ops"
  then have "closed (fst (hq_run ops NewHoldQueue))" by (rule hq_run_OClose)
  then show "pending q = []"
    using hq_run_closed_empty [of NewHoldQueue ops] assms(1) e by simp
qed

definition demo_notif :: "nat \<Rightarrow> HeldNotif" where
  "demo_notif i = \<lparr>ReqID = i, ListenerFd = 3, SyscallName = ''write'', PID = 7, Path = []\<rparr>"

theorem hold_queue_conserves_witness:
  "snd (hq_run [OEnqueue (demo_notif 1), OEnqueue (demo_notif 2), OReleaseByIndex 1 allow_decision,
      OClose] NewHoldQueue) = [(demo_notif 2, allow_decision), (demo_notif 1, allow_decision)] \<and>
   distinct (map fst (snd (hq_run [OEnqueue (demo_notif 1), OEnqueue (demo_notif 2),
      OReleaseByIndex 1 allow_decision, OClose] NewHoldQueue)))"
proof -
  let ?ops = "[OEnqueue (demo_notif 1), OEnqueue (demo_notif 2), OReleaseByIndex 1 allow_decision, OClose]"
  have r: "hq_run ?ops NewHoldQueue = (\<lparr>pending = [], closed = True\<rparr>,
      [(demo_notif 2, allow_decision), (demo_notif 1, allow_decision)])"
    by (simp add: Enqueue_def ReleaseByIndex_def Close_def NewHoldQueue_def remove_at_def)
  have "distinct (concat (map hq_arrives ?ops))" by (simp add: demo_notif_def)
  from hold_queue_conserves [OF r this] r show ?thesis by simp
qed

text \<open>Released one at a time, held notifications leave in the order in which they arrived.\<close>

theorem hold_queue_fifo:
  assumes "hq_run ops NewHoldQueue = (q, out)"
    and "list_all (\<lambda>op. case op of OEnqueue h \<Rightarrow> True | OReleaseOne d \<Rightarrow> True | _ \<Rightarrow> False) ops"
  shows "map fst out @ pending q = concat (map hq_arrives ops)"
proof -
  have "hq_run ops q0 = (q1, out1) \<Longrightarrow> \<not> closed q0 \<Longrightarrow>
      list_all (\<lambda>op. case op of OEnqueue h \<Rightarrow> True | OReleaseOne d \<Rightarrow> True | _ \<Rightarrow> False) ops \<Longrightarrow>
      map fst out1 @ pending q1 = pending q0 @ concat (map hq_arrives ops)" for q0 q1 out1
  proof (induction ops arbitrary: q0 q1 out1)
    case (Cons op ops)
    obtain q' o' where s: "hq_step op q0 = (q', o')" by fastforce
    obtain q2 o2 where r: "hq_run ops q' = (q2, o2)" by fastforce
    have c: "\<not> closed q'" and i: "map fst o' @ pending q' = pending q0 @ hq_arrives op"
      using s Cons.prems by (auto simp: Enqueue_def ReleaseOne_def split: hq_op.splits list.splits)
    have "map fst o2 @ pending q2 = pending q' @ concat (map hq_arrives ops)"
      using Cons.IH [OF r c] Cons.prems(3) by simp
    moreover have "q1 = q2" "out1 = o' @ o2" using Cons.prems(1) s r by auto
    ultimately have "map fst out1 @ pending q1 = (map fst o' @ pending q') @ concat (map hq_arrives ops)"
      by simp
    also have "\<dots> = pending q0 @ concat (map hq_arrives (op # ops))" unfolding i by simp
    finally show ?case .
  qed simp
  from this [OF assms(1) _ assms(2)] show ?thesis by (simp add: NewHoldQueue_def)
qed

theorem hold_queue_fifo_witness:
  "map fst (snd (hq_run [OEnqueue (demo_notif 1), OEnqueue (demo_notif 2), OReleaseOne allow_decision]
      NewHoldQueue)) = [demo_notif 1]"
proof -
  let ?ops = "[OEnqueue (demo_notif 1), OEnqueue (demo_notif 2), OReleaseOne allow_decision]"
  have r: "hq_run ?ops NewHoldQueue =
      (\<lparr>pending = [demo_notif 2], closed = False\<rparr>, [(demo_notif 1, allow_decision)])"
    by (simp add: Enqueue_def ReleaseOne_def NewHoldQueue_def)
  from hold_queue_fifo [OF r] r show ?thesis by simp
qed

section \<open>Waiting\<close>

text \<open>
  \<open>Wait\<close> next to the goroutine it starts and to other users of the queue. The waiter owns the queue's
  mutex in \<open>WCheck\<close> (about to evaluate the loop condition and the context) and in \<open>WPark\<close> (about to
  call \<open>cond.Wait\<close>, which enters the notification list before it gives the mutex up); every other
  queue operation is a critical section and needs the mutex. The watching goroutine broadcasts
  without taking it.
\<close>

datatype waiter_pc = WCheck | WPark | WParked | WReturned "string option"

datatype wait_label = LCancel | LWatch | LPass | LPark | LQueue hq_op

record wait_sys =
  wqueue :: HoldQueue
  waiter :: waiter_pc
  cancelled :: bool
  watching :: bool

definition ctx_error :: "wait_sys \<Rightarrow> string option" where
  "ctx_error s = (if cancelled s then Some ''context canceled'' else None)"

definition wake :: "waiter_pc \<Rightarrow> waiter_pc" where
  "wake w = (if w = WParked then WCheck else w)"

fun broadcasts :: "hq_op \<Rightarrow> HoldQueue \<Rightarrow> bool" where
  "broadcasts (OEnqueue h) q = (\<not> closed q)"
| "broadcasts OClose q = (\<not> closed q)"
| "broadcasts _ q = False"

inductive wait_step :: "int \<Rightarrow> wait_label \<Rightarrow> wait_sys \<Rightarrow> wait_sys \<Rightarrow> bool" for cnt where
  cancel: "\<not> cancelled s \<Longrightarrow> wait_step cnt LCancel s (s\<lparr>cancelled := True\<rparr>)"
| watch: "cancelled s \<Longrightarrow> watching s \<Longrightarrow>
    wait_step cnt LWatch s (s\<lparr>watching := False, waiter := wake (waiter s)\<rparr>)"
| pass_return: "waiter s = WCheck \<Longrightarrow> Wait_pass cnt (ctx_error s) (wqueue s) = Some r \<Longrightarrow>
    wait_step cnt LPass s (s\<lparr>waiter := WReturned r, watching := False\<rparr>)"
| pass_wait: "waiter s = WCheck \<Longrightarrow> Wait_pass cnt (ctx_error s) (wqueue s) = None \<Longrightarrow>
    wait_step cnt LPass s (s\<lparr>waiter := WPark\<rparr>)"
| park: "waiter s = WPark \<Longrightarrow> wait_step cnt LPark s (s\<lparr>waiter := WParked\<rparr>)"
| queue: "waiter s \<noteq> WCheck \<Longrightarrow> waiter s \<noteq> WPark \<Longrightarrow>
    wait_step cnt (LQueue op) s (s\<lparr>wqueue := fst (hq_step op (wqueue s)),
      waiter := (if broadcasts op (wqueue s) then wake (waiter s) else waiter s)\<rparr>)"

inductive wait_reach :: "int \<Rightarrow> HoldQueue \<Rightarrow> wait_sys \<Rightarrow> bool" for cnt q where
  start: "wait_reach cnt q \<lparr>wqueue = q, waiter = WCheck, cancelled = False, watching = True\<rparr>"
| more: "wait_reach cnt q s \<Longrightarrow> wait_step cnt l s s' \<Longrightarrow> wait_reach cnt q s'"

inductive_cases wait_stepE: "wait_step cnt l s s'"

lemma Wait_pass_None: "Wait_pass cnt e q = None \<longleftrightarrow> Len q < cnt \<and> \<not> closed q \<and> e = None"
  by (simp add: Wait_pass_def split: option.splits)

lemma Wait_pass_return:
  "Wait_pass cnt e q = Some None \<longleftrightarrow> e = None \<and> (cnt \<le> Len q \<or> closed q)"
  by (auto simp: Wait_pass_def split: option.splits)

lemma silent_op_keeps_waiting:
  assumes "\<not> broadcasts op q" and "Len q < cnt" and "\<not> closed q"
  shows "Len (fst (hq_step op q)) < cnt \<and> \<not> closed (fst (hq_step op q))"
  using assms
  by (cases op) (auto simp: Len_def ReleaseOne_def ReleaseAll_def ReleaseByIndex_def length_remove_at
      split: list.splits)

definition wait_inv :: "int \<Rightarrow> wait_sys \<Rightarrow> bool" where
  "wait_inv cnt s \<longleftrightarrow> (waiter s = WPark \<or> waiter s = WParked \<longrightarrow> Len (wqueue s) < cnt \<and> \<not> closed (wqueue s))"

lemma wait_inv_step: "wait_inv cnt s \<Longrightarrow> wait_step cnt l s s' \<Longrightarrow> wait_inv cnt s'"
  by (erule wait_stepE)
    (auto simp: wait_inv_def wake_def Wait_pass_None silent_op_keeps_waiting)

lemma wait_inv_reach: "wait_reach cnt q s \<Longrightarrow> wait_inv cnt s"
proof (induction rule: wait_reach.induct)
  case start
  then show ?case by (simp add: wait_inv_def)
qed (rule wait_inv_step)

text \<open>No wake-up from the queue is lost: whenever \<open>Wait\<close> is parked, the condition it waits for
  does not hold, so an \<open>Enqueue\<close> or \<open>Close\<close> that makes it true always wakes the waiter.\<close>

theorem wait_parked_condition:
  assumes "wait_reach cnt q s" and "waiter s = WParked"
  shows "Len (wqueue s) < cnt \<and> \<not> closed (wqueue s)"
  using wait_inv_reach [OF assms(1)] assms(2) by (simp add: wait_inv_def)

lemma wait_missed_run:
  "wait_reach 1 NewHoldQueue
     \<lparr>wqueue = NewHoldQueue, waiter = WParked, cancelled = True, watching = False\<rparr>"
proof -
  let ?s = "\<lambda>w c v. \<lparr>wqueue = NewHoldQueue, waiter = w, cancelled = c, watching = v\<rparr>"
  have 0: "wait_reach 1 NewHoldQueue (?s WCheck False True)" by (rule wait_reach.start)
  have "Wait_pass 1 (ctx_error (?s WCheck False True)) NewHoldQueue = None"
    by (simp add: Wait_pass_None Len_def NewHoldQueue_def ctx_error_def)
  then have 1: "wait_reach 1 NewHoldQueue (?s WPark False True)"
    using wait_reach.more [OF 0 wait_step.pass_wait] by simp
  have 2: "wait_reach 1 NewHoldQueue (?s WPark True True)"
    using wait_reach.more [OF 1 wait_step.cancel] by simp
  have 3: "wait_reach 1 NewHoldQueue (?s WPark True False)"
    using wait_reach.more [OF 2 wait_step.watch] by (simp add: wake_def)
  show ?thesis
    using wait_reach.more [OF 3 wait_step.park] by simp
qed

theorem wait_parked_condition_witness:
  "waiter \<lparr>wqueue = NewHoldQueue, waiter = WParked, cancelled = True, watching = False\<rparr> = WParked \<and>
   Len NewHoldQueue < 1 \<and> \<not> closed NewHoldQueue"
  using wait_parked_condition [OF wait_missed_run] by simp

text \<open>C15. The cancellation of the context can be missed: the watching goroutine broadcasts without the
  mutex, so its only broadcast may fall between the waiter's check of the context and its parking.
  \<open>Wait\<close> is then parked under a cancelled context and nothing but a later queue operation can
  move it.\<close>

theorem wait_misses_cancellation:
  "\<exists>s. wait_reach 1 NewHoldQueue s \<and> cancelled s \<and> waiter s = WParked \<and>
     {l. \<exists>s'. wait_step 1 l s s'} \<subseteq> range LQueue"
proof -
  let ?s = "\<lparr>wqueue = NewHoldQueue, waiter = WParked, cancelled = True, watching = False\<rparr>"
  have "wait_step 1 l ?s s' \<Longrightarrow> l \<in> range LQueue" for l s'
    by (erule wait_stepE) simp_all
  then show ?thesis using wait_missed_run by (intro exI [of _ ?s]) auto
qed

end
