(* ===== verification/Seccomp_Filter.thy ===== *)
theory Seccomp_Filter
  imports Go_Prelude
begin

unbundle bit_operations_syntax

text \<open>
  The seccomp layer: \<open>internal/seccomp/filter_linux.go\<close> with the syscall tables of
  \<open>arch_amd64.go\<close> and \<open>arch_arm64.go\<close>.

  \<open>buildFilter\<close> generates the classic BPF program instruction by instruction, at the widths of
  \<open>unix.SockFilter\<close>. What the kernel does with such a program is the interpreter \<open>bpf_exec\<close>, limited
  to the instructions the generator uses; it is the specification's side, not code of the
  repository. The build tag chooses the architecture, here an argument. The memory of the traced
  process is reached through a \<open>pread\<close> argument that stands for opening and reading
  \<open>/proc/<pid>/mem\<close>.
\<close>

section \<open>Architectures and syscall names\<close>

datatype arch = Amd64 | Arm64

definition auditArch :: "arch \<Rightarrow> 32 word" where
  "auditArch a = (case a of Amd64 \<Rightarrow> 0xC000003E | Arm64 \<Rightarrow> 0xC00000B7)"

definition nativeArch :: "arch \<Rightarrow> 32 word" where
  "nativeArch a = auditArch a"

definition syscallNames_amd64 :: "(int \<times> string) list" where
  "syscallNames_amd64 =
   [(0, ''read''), (1, ''write''), (2, ''open''), (3, ''close''), (17, ''pread64''),
     (18, ''pwrite64''), (19, ''readv''), (20, ''writev''), (42, ''connect''), (43, ''accept''),
     (44, ''sendto''), (45, ''recvfrom''), (46, ''sendmsg''), (47, ''recvmsg''), (49, ''bind''),
     (50, ''listen''), (41, ''socket''), (74, ''fsync''), (75, ''fdatasync''), (257, ''openat''),
     (83, ''mkdir''), (84, ''rmdir''), (87, ''unlink''), (263, ''unlinkat''), (258, ''mkdirat''),
     (4, ''stat''), (5, ''fstat''), (6, ''lstat''), (262, ''newfstatat''), (9, ''mmap''),
     (10, ''mprotect''), (12, ''brk''), (16, ''ioctl''), (21, ''access''), (56, ''clone''),
     (57, ''fork''), (59, ''execve''), (60, ''exit''), (61, ''wait4''), (39, ''getpid''),
     (63, ''uname''), (72, ''fcntl''), (78, ''getdents''), (89, ''readlink''),
     (217, ''getdents64''), (302, ''prlimit64''), (318, ''getrandom''), (231, ''exit_group''),
     (13, ''sigaction''), (14, ''sigprocmask''), (15, ''sigreturn''), (35, ''nanosleep''),
     (228, ''clock_gettime''), (230, ''clock_nanosleep''), (202, ''futex''), (7, ''poll''),
     (23, ''select''), (270, ''pselect6''), (271, ''ppoll'')]"

definition syscallNames_arm64 :: "(int \<times> string) list" where
  "syscallNames_arm64 =
   [(56, ''openat''), (57, ''close''), (63, ''read''), (64, ''write''), (67, ''pread64''),
     (68, ''pwrite64''), (82, ''fsync''), (83, ''fdatasync''), (203, ''connect''),
     (198, ''socket''), (200, ''bind''), (201, ''listen''), (202, ''accept''),
     (204, ''getsockname''), (206, ''sendto''), (207, ''recvfrom''), (211, ''sendmsg''),
     (212, ''recvmsg''), (222, ''mmap''), (226, ''mprotect''), (233, ''mkdirat''),
     (35, ''unlinkat''), (48, ''faccessat''), (79, ''fstatat''), (61, ''getdents64''),
     (78, ''readlinkat''), (160, ''uname''), (172, ''getpid''), (214, ''brk''), (260, ''wait4''),
     (220, ''clone''), (221, ''execve''), (93, ''exit''), (94, ''exit_group''),
     (261, ''prlimit64''), (29, ''ioctl''), (25, ''fcntl''), (66, ''writev''), (65, ''readv''),
     (278, ''getrandom''), (73, ''ppoll''), (72, ''pselect6''), (134, ''sigaction''),
     (135, ''sigprocmask''), (139, ''sigreturn''), (101, ''nanosleep''), (113, ''clock_gettime''),
     (115, ''clock_nanosleep''), (422, ''futex'')]"

definition syscallNames :: "arch \<Rightarrow> (int \<times> string) list" where
  "syscallNames a = (case a of Amd64 \<Rightarrow> syscallNames_amd64 | Arm64 \<Rightarrow> syscallNames_arm64)"

definition SyscallName :: "arch \<Rightarrow> int \<Rightarrow> string" where
  "SyscallName a nr = (case map_of (syscallNames a) nr of Some n \<Rightarrow> n
     | None \<Rightarrow> ''syscall_'' @ show_int nr)"

text \<open>\<open>SyscallNumber\<close> ranges over the map; \<open>ord\<close> is the order in which the runtime happens to visit it.\<close>

primrec SyscallNumber_in :: "(int \<times> string) list \<Rightarrow> string \<Rightarrow> int" where
  "SyscallNumber_in [] name = - 1"
| "SyscallNumber_in (e # es) name = (if snd e = name then fst e else SyscallNumber_in es name)"

definition SyscallNumber :: "arch \<Rightarrow> string \<Rightarrow> int" where
  "SyscallNumber a name = SyscallNumber_in (syscallNames a) name"

section \<open>The filter program\<close>

record SockFilter =
  Code :: "16 word"
  Jt :: "8 word"
  Jf :: "8 word"
  K :: "32 word"

definition SECCOMP_RET_ALLOW :: "32 word" where "SECCOMP_RET_ALLOW = 0x7fff0000"
definition SECCOMP_RET_USER_NOTIF :: "32 word" where "SECCOMP_RET_USER_NOTIF = 0x7fc00000"

definition bpfLD :: "16 word" where "bpfLD = 0x00"
definition bpfJMP :: "16 word" where "bpfJMP = 0x05"
definition bpfRET :: "16 word" where "bpfRET = 0x06"
definition bpfW :: "16 word" where "bpfW = 0x00"
definition bpfABS :: "16 word" where "bpfABS = 0x20"
definition bpfJEQ :: "16 word" where "bpfJEQ = 0x10"
definition bpfK :: "16 word" where "bpfK = 0x00"

definition offsetNr :: "32 word" where "offsetNr = 0"
definition offsetArch :: "32 word" where "offsetArch = 4"
definition offsetArgs0 :: "32 word" where "offsetArgs0 = 16"

definition insn_load :: "32 word \<Rightarrow> SockFilter" where
  "insn_load off = \<lparr>Code = bpfLD OR bpfW OR bpfABS, Jt = 0, Jf = 0, K = off\<rparr>"

definition insn_jeq :: "8 word \<Rightarrow> 8 word \<Rightarrow> 32 word \<Rightarrow> SockFilter" where
  "insn_jeq jt jf k = \<lparr>Code = bpfJMP OR bpfJEQ OR bpfK, Jt = jt, Jf = jf, K = k\<rparr>"

definition insn_ret :: "32 word \<Rightarrow> SockFilter" where
  "insn_ret k = \<lparr>Code = bpfRET, Jt = 0, Jf = 0, K = k\<rparr>"

definition write_family :: "string list" where
  "write_family = [''write'', ''writev'', ''pwrite64'']"

definition socket_family :: "string list" where
  "socket_family = [''read'', ''readv'', ''pread64'', ''sendmsg'', ''sendto'', ''recvmsg'', ''recvfrom'']"

definition writeLike :: "arch \<Rightarrow> int \<Rightarrow> 32 word list \<Rightarrow> 32 word \<Rightarrow> bool" where
  "writeLike a allowFdForWrite nrs nr \<longleftrightarrow>
     nr \<in> set nrs \<and> SyscallName a (sint nr) \<in> set write_family \<and> 0 \<le> allowFdForWrite"

definition socketLike :: "arch \<Rightarrow> int \<Rightarrow> 32 word list \<Rightarrow> 32 word \<Rightarrow> bool" where
  "socketLike a allowFdForSocket nrs nr \<longleftrightarrow>
     nr \<in> set nrs \<and> SyscallName a (sint nr) \<in> set socket_family \<and> 0 \<le> allowFdForSocket"

definition emitFdWhitelist :: "32 word \<Rightarrow> int \<Rightarrow> SockFilter list" where
  "emitFdWhitelist nr allowFd =
     [insn_jeq 0 5 nr, insn_load offsetArgs0, insn_jeq 1 0 (word_of_int allowFd),
      insn_ret SECCOMP_RET_USER_NOTIF, insn_ret SECCOMP_RET_ALLOW, insn_load offsetNr]"

definition emit_syscall :: "arch \<Rightarrow> int \<Rightarrow> int \<Rightarrow> 32 word list \<Rightarrow> 32 word \<Rightarrow> SockFilter list" where
  "emit_syscall a fdW fdS nrs nr =
     (if writeLike a fdW nrs nr then emitFdWhitelist nr fdW
      else if socketLike a fdS nrs nr then emitFdWhitelist nr fdS
      else [insn_jeq 0 1 nr, insn_ret SECCOMP_RET_USER_NOTIF])"

definition buildFilter :: "arch \<Rightarrow> 32 word list \<Rightarrow> int \<Rightarrow> int \<Rightarrow> SockFilter list" where
  "buildFilter a syscallNrs allowFdForWrite allowFdForSocket =
     (let insns = [insn_load offsetArch];
          archCheckIdx = length insns;
          insns = insns @ [insn_jeq 0 0 (nativeArch a)] @ [insn_load offsetNr];
          insns = insns @ concat (map (emit_syscall a allowFdForWrite allowFdForSocket syscallNrs) syscallNrs);
          insns = insns @ [insn_ret SECCOMP_RET_ALLOW]
      in insns[archCheckIdx := (insns ! archCheckIdx)\<lparr>Jf := word_of_int (int (length insns) - int archCheckIdx - 2)\<rparr>])"

section \<open>What the kernel does with it\<close>

record seccomp_data =
  Nr :: "32 word"
  Arch :: "32 word"
  Args :: "64 word list"

definition load_abs :: "seccomp_data \<Rightarrow> 32 word \<Rightarrow> 32 word" where
  "load_abs d off = (if off = 0 then Nr d else if off = 4 then Arch d
     else if off = 16 then ucast (Args d ! 0) else 0)"

text \<open>Jumps only go forward, so the program counter is the suffix still to run.\<close>

function bpf_exec :: "seccomp_data \<Rightarrow> SockFilter list \<Rightarrow> 32 word \<Rightarrow> 32 word option" where
  "bpf_exec d [] A = None"
| "bpf_exec d (i # is) A =
     (if Code i = 0x20 then bpf_exec d is (load_abs d (K i))
      else if Code i = 0x15 then bpf_exec d (drop (unat (if A = K i then Jt i else Jf i)) is) A
      else if Code i = 0x06 then Some (K i) else None)"
  by pat_completeness auto
termination
  by (relation "measure (\<lambda>(d, is, A). length is)") auto

text \<open>What the filter is meant to decide.\<close>

definition filter_spec :: "arch \<Rightarrow> 32 word list \<Rightarrow> int \<Rightarrow> int \<Rightarrow> seccomp_data \<Rightarrow> 32 word" where
  "filter_spec a nrs fdW fdS d =
     (if Arch d \<noteq> nativeArch a \<or> Nr d \<notin> set nrs then SECCOMP_RET_ALLOW
      else if writeLike a fdW nrs (Nr d) then
        (if ucast (Args d ! 0) = (word_of_int fdW :: 32 word) then SECCOMP_RET_ALLOW else SECCOMP_RET_USER_NOTIF)
      else if socketLike a fdS nrs (Nr d) then
        (if ucast (Args d ! 0) = (word_of_int fdS :: 32 word) then SECCOMP_RET_ALLOW else SECCOMP_RET_USER_NOTIF)
      else SECCOMP_RET_USER_NOTIF)"

lemma exec_load [simp]: "bpf_exec d (insn_load off # is) A = bpf_exec d is (load_abs d off)"
  by (simp add: insn_load_def bpfLD_def bpfW_def bpfABS_def)

lemma exec_jeq [simp]: "bpf_exec d (insn_jeq jt jf k # is) A =
    bpf_exec d (drop (unat (if A = k then jt else jf)) is) A"
  by (simp add: insn_jeq_def bpfJMP_def bpfJEQ_def bpfK_def)

lemma exec_ret [simp]: "bpf_exec d (insn_ret k # is) A = Some k"
  by (simp add: insn_ret_def bpfRET_def)

declare bpf_exec.simps(2) [simp del]

text \<open>One emitted block: it decides its own syscall and hands any other one on with the syscall
  number still in the accumulator.\<close>

definition block_verdict :: "arch \<Rightarrow> int \<Rightarrow> int \<Rightarrow> 32 word list \<Rightarrow> seccomp_data \<Rightarrow> 32 word" where
  "block_verdict a fdW fdS nrs d =
     (if writeLike a fdW nrs (Nr d) \<and> ucast (Args d ! 0) = (word_of_int fdW :: 32 word) then SECCOMP_RET_ALLOW
      else if \<not> writeLike a fdW nrs (Nr d) \<and> socketLike a fdS nrs (Nr d) \<and>
        ucast (Args d ! 0) = (word_of_int fdS :: 32 word) then SECCOMP_RET_ALLOW
      else SECCOMP_RET_USER_NOTIF)"

lemma exec_emit_syscall:
  "bpf_exec d (emit_syscall a fdW fdS nrs nr @ rest) (Nr d) =
     (if Nr d = nr then Some (block_verdict a fdW fdS nrs d) else bpf_exec d rest (Nr d))"
  by (simp add: emit_syscall_def emitFdWhitelist_def block_verdict_def load_abs_def offsetArgs0_def
      offsetNr_def)

lemma exec_blocks:
  "bpf_exec d (concat (map (emit_syscall a fdW fdS nrs) xs) @ [insn_ret SECCOMP_RET_ALLOW]) (Nr d) =
     Some (if Nr d \<in> set xs then block_verdict a fdW fdS nrs d else SECCOMP_RET_ALLOW)"
  by (induction xs) (simp_all add: exec_emit_syscall)

definition filter_body :: "arch \<Rightarrow> int \<Rightarrow> int \<Rightarrow> 32 word list \<Rightarrow> SockFilter list" where
  "filter_body a fdW fdS nrs = concat (map (emit_syscall a fdW fdS nrs) nrs)"

lemma buildFilter_shape:
  "buildFilter a nrs fdW fdS =
     insn_load offsetArch # insn_jeq 0 (of_nat (Suc (length (filter_body a fdW fdS nrs)))) (nativeArch a) #
     insn_load offsetNr # filter_body a fdW fdS nrs @ [insn_ret SECCOMP_RET_ALLOW]"
  unfolding buildFilter_def filter_body_def [symmetric]
  by (simp add: insn_jeq_def Let_def ac_simps)

lemma filter_spec_block:
  "filter_spec a nrs fdW fdS d =
     (if Arch d = nativeArch a \<and> Nr d \<in> set nrs then block_verdict a fdW fdS nrs d else SECCOMP_RET_ALLOW)"
  by (simp add: filter_spec_def block_verdict_def)

lemma length_filter_body:
  "length (filter_body a fdW fdS nrs) =
     2 * length nrs + 4 * length (filter (\<lambda>nr. writeLike a fdW nrs nr \<or> socketLike a fdS nrs nr) nrs)"
proof -
  have "length (concat (map (emit_syscall a fdW fdS nrs) xs)) =
      2 * length xs + 4 * length (filter (\<lambda>nr. writeLike a fdW nrs nr \<or> socketLike a fdS nrs nr) xs)" for xs
    by (induction xs) (simp_all add: emit_syscall_def emitFdWhitelist_def)
  then show ?thesis by (simp only: filter_body_def)
qed

lemma buildFilter_correct:
  assumes "length (buildFilter a nrs fdW fdS) \<le> 258"
  shows "bpf_exec d (buildFilter a nrs fdW fdS) 0 = Some (filter_spec a nrs fdW fdS d)"
proof (cases "Arch d = nativeArch a")
  case True
  then show ?thesis
    by (simp add: buildFilter_shape load_abs_def offsetArch_def offsetNr_def exec_blocks
        filter_spec_block filter_body_def)
next
  case False
  let ?n = "length (filter_body a fdW fdS nrs)"
  from assms have "Suc ?n < 2 ^ LENGTH(8)" by (simp add: buildFilter_shape)
  then have "unat (of_nat (Suc ?n) :: 8 word) = Suc ?n"
    by (simp only: unat_of_nat mod_less)
  with False show ?thesis
    by (simp add: buildFilter_shape load_abs_def offsetArch_def filter_spec_block)
qed

lemma syscallNames_distinct:
  "distinct (map fst (syscallNames a))" "distinct (map snd (syscallNames a))"
  by (cases a, simp_all add: syscallNames_def syscallNames_amd64_def syscallNames_arm64_def)+

lemma length_syscallNames: "length (syscallNames a) \<le> 59"
  by (cases a) (simp_all add: syscallNames_def syscallNames_amd64_def syscallNames_arm64_def)

lemma SyscallName_table: "(nr, n) \<in> set (syscallNames a) \<Longrightarrow> SyscallName a nr = n"
  using syscallNames_distinct(1) [of a] by (simp add: SyscallName_def)

lemma SyscallName_inj: "inj_on (SyscallName a) (fst ` set (syscallNames a))"
proof (rule inj_onI)
  fix x y
  assume "x \<in> fst ` set (syscallNames a)" "y \<in> fst ` set (syscallNames a)"
    and eq: "SyscallName a x = SyscallName a y"
  then obtain n m where xn: "(x, n) \<in> set (syscallNames a)" and ym: "(y, m) \<in> set (syscallNames a)"
    by auto
  from eq SyscallName_table [OF xn] SyscallName_table [OF ym] have "n = m" by simp
  with xn ym syscallNames_distinct(2) [of a] show "x = y"
    by (auto simp: distinct_map dest: inj_onD [where x = "(x, m)" and y = "(y, m)"])
qed

lemma known_nrs_bounds:
  assumes "distinct nrs" and "sint ` set nrs \<subseteq> fst ` set (syscallNames a)"
  shows "length nrs \<le> 59"
    and "length (filter (\<lambda>nr. writeLike a fdW nrs nr \<or> socketLike a fdS nrs nr) nrs) \<le> 10"
proof -
  have inj: "inj_on sint (set nrs)" by (rule inj_on_inverseI [where g = word_of_int]) simp
  have "length nrs = card (sint ` set nrs)"
    using assms(1) by (simp add: card_image [OF inj] distinct_card)
  also have "\<dots> \<le> card (fst ` set (syscallNames a))"
    using assms(2) by (intro card_mono) auto
  also have "\<dots> \<le> 59"
    using card_length [of "map fst (syscallNames a)"] length_syscallNames [of a] by simp
  finally show "length nrs \<le> 59" .
  let ?F = "filter (\<lambda>nr. writeLike a fdW nrs nr \<or> socketLike a fdS nrs nr) nrs"
  have "inj_on (SyscallName a \<circ> sint) (set ?F)"
    using inj SyscallName_inj [of a] assms(2)
    by (intro comp_inj_on) (auto intro: inj_on_subset)
  then have "length ?F = card ((SyscallName a \<circ> sint) ` set ?F)"
    unfolding distinct_card [OF distinct_filter [OF assms(1)], symmetric] by (rule card_image [symmetric])
  also have "\<dots> \<le> card (set (write_family @ socket_family))"
    by (intro card_mono) (auto simp: writeLike_def socketLike_def)
  also have "\<dots> \<le> length (write_family @ socket_family)" by (rule card_length)
  also have "\<dots> = 10" by (simp add: write_family_def socket_family_def)
  finally show "length ?F \<le> 10" .
qed

text \<open>C1. The installed filter decides as intended on every syscall of every architecture. For any set of
  distinct known syscalls (which is what the launcher passes) the program's jumps stay within their
  eight bits, and running it notifies exactly on the listed syscalls of the native architecture,
  except where the first argument is the exempted descriptor of the syscall's family.\<close>

theorem filter_decides:
  assumes "distinct nrs" and "sint ` set nrs \<subseteq> fst ` set (syscallNames a)"
  shows "bpf_exec d (buildFilter a nrs fdW fdS) 0 = Some (filter_spec a nrs fdW fdS d)"
proof (rule buildFilter_correct)
  show "length (buildFilter a nrs fdW fdS) \<le> 258"
    using known_nrs_bounds(1) [OF assms] known_nrs_bounds(2) [OF assms, of fdW fdS]
    by (simp add: buildFilter_shape length_filter_body)
qed

theorem filter_decides_witness:
  "bpf_exec \<lparr>Nr = 44, Arch = 0xC000003E, Args = [9]\<rparr> (buildFilter Amd64 [1, 44] 2 7) 0 =
     Some SECCOMP_RET_USER_NOTIF \<and>
   bpf_exec \<lparr>Nr = 44, Arch = 0xC000003E, Args = [7]\<rparr> (buildFilter Amd64 [1, 44] 2 7) 0 =
     Some SECCOMP_RET_ALLOW \<and>
   bpf_exec \<lparr>Nr = 1, Arch = 0x40000003, Args = [9]\<rparr> (buildFilter Amd64 [1, 44] 2 7) 0 =
     Some SECCOMP_RET_ALLOW"
proof -
  have n: "SyscallName Amd64 1 = ''write''" "SyscallName Amd64 44 = ''sendto''"
    and t: "{1, 44} \<subseteq> fst ` set (syscallNames Amd64)"
    by (simp_all add: SyscallName_def syscallNames_def syscallNames_amd64_def)
  from t have k: "distinct [1, 44 :: 32 word]" "sint ` set [1, 44 :: 32 word] \<subseteq> fst ` set (syscallNames Amd64)"
    by simp_all
  have "filter_spec Amd64 [1, 44] 2 7 \<lparr>Nr = 44, Arch = 0xC000003E, Args = [9]\<rparr> = SECCOMP_RET_USER_NOTIF"
    "filter_spec Amd64 [1, 44] 2 7 \<lparr>Nr = 44, Arch = 0xC000003E, Args = [7]\<rparr> = SECCOMP_RET_ALLOW"
    "filter_spec Amd64 [1, 44] 2 7 \<lparr>Nr = 1, Arch = 0x40000003, Args = [9]\<rparr> = SECCOMP_RET_ALLOW"
    by (simp_all add: filter_spec_def writeLike_def socketLike_def n write_family_def socket_family_def
        nativeArch_def auditArch_def)
  then show ?thesis by (simp add: filter_decides [OF k])
qed

lemma SyscallNumber_in_unique:
  "distinct (map snd t) \<Longrightarrow> (nr, n) \<in> set t \<Longrightarrow> SyscallNumber_in t n = nr"
  by (induction t) (auto simp: image_iff)

lemma SyscallNumber_in_absent: "n \<notin> snd ` set t \<Longrightarrow> SyscallNumber_in t n = - 1"
  by (induction t) auto

lemma SyscallNumber_in_nonneg:
  "list_all (\<lambda>e. 0 \<le> fst e) t \<Longrightarrow> 0 \<le> SyscallNumber_in t n \<Longrightarrow> (SyscallNumber_in t n, n) \<in> set t"
  by (induction t) (auto split: if_splits)

lemma syscallNames_nonneg: "list_all (\<lambda>e. 0 \<le> fst e) (syscallNames a)"
  by (cases a) (simp_all add: syscallNames_def syscallNames_amd64_def syscallNames_arm64_def)

lemma SyscallNumber_known: "0 \<le> SyscallNumber a n \<Longrightarrow> (SyscallNumber a n, n) \<in> set (syscallNames a)"
  using SyscallNumber_in_nonneg [OF syscallNames_nonneg] by (simp add: SyscallNumber_def)

text \<open>Name and number are inverse on the table, and the random order in which the runtime visits the
  map does not matter: whatever order it takes, a known name gets its number, an unknown one \<open>-1\<close>, and
  a number found for a name has that name.\<close>

theorem SyscallNumber_roundtrip:
  assumes "mset ord = mset (syscallNames a)"
  shows "SyscallNumber_in ord name = SyscallNumber a name \<and>
    (0 \<le> SyscallNumber a name \<longrightarrow> SyscallName a (SyscallNumber a name) = name) \<and>
    (name \<in> snd ` set ord \<longleftrightarrow> 0 \<le> SyscallNumber a name)"
proof (intro conjI impI)
  have st: "set ord = set (syscallNames a)" using assms by (rule mset_eq_setD)
  have "mset (map snd ord) = mset (map snd (syscallNames a))" using assms by simp
  then have d: "distinct (map snd ord)" using syscallNames_distinct(2) mset_eq_imp_distinct_iff by blast
  show "SyscallNumber_in ord name = SyscallNumber a name"
  proof (cases "name \<in> snd ` set ord")
    case True
    then obtain nr where "(nr, name) \<in> set ord" by auto
    then show ?thesis
      using SyscallNumber_in_unique [OF d] SyscallNumber_in_unique [OF syscallNames_distinct(2)] st
      by (metis SyscallNumber_def)
  next
    case False
    then show ?thesis using st by (simp add: SyscallNumber_def SyscallNumber_in_absent)
  qed
  show "SyscallName a (SyscallNumber a name) = name" if "0 \<le> SyscallNumber a name"
    using SyscallName_table [OF SyscallNumber_known [OF that]] .
  show "name \<in> snd ` set ord \<longleftrightarrow> 0 \<le> SyscallNumber a name"
  proof
    assume "name \<in> snd ` set ord"
    then obtain nr where m: "(nr, name) \<in> set (syscallNames a)" using st by auto
    then have "SyscallNumber a name = nr"
      using SyscallNumber_in_unique [OF syscallNames_distinct(2)] by (simp add: SyscallNumber_def)
    with m syscallNames_nonneg [of a] show "0 \<le> SyscallNumber a name" by (auto simp: list_all_iff)
  next
    assume "0 \<le> SyscallNumber a name"
    from SyscallNumber_known [OF this] st show "name \<in> snd ` set ord" by (auto intro: rev_image_eqI)
  qed
qed

theorem SyscallNumber_roundtrip_witness:
  "SyscallNumber_in (rev (syscallNames Amd64)) ''fsync'' = 74 \<and>
   SyscallNumber_in (rev (syscallNames Arm64)) ''fork'' = - 1"
proof -
  have m: "mset (rev (syscallNames a)) = mset (syscallNames a)" for a by simp
  have "SyscallNumber Amd64 ''fsync'' = 74" "SyscallNumber Arm64 ''fork'' = - 1" by code_simp+
  then show ?thesis
    using SyscallNumber_roundtrip [OF m [of Amd64], of "''fsync''"]
      SyscallNumber_roundtrip [OF m [of Arm64], of "''fork''"] by simp
qed

text \<open>The exemption of a descriptor is permanent. The binary launcher installs the filter with its
  signalling pipe, descriptor 3, exempted for writes; the filter survives the exec that follows the
  closing of that pipe, so whatever the target later opens as descriptor 3 is written without
  any notification, whatever rules ask for \<open>write\<close>.\<close>

theorem pipe_descriptor_stays_exempt:
  "bpf_exec \<lparr>Nr = 1, Arch = nativeArch Amd64, Args = 3 # args\<rparr> (buildFilter Amd64 (1 # nrs) 3 (- 1)) 0
     = Some SECCOMP_RET_ALLOW"
proof -
  have "SyscallName Amd64 1 \<in> set write_family" by code_simp
  then have "block_verdict Amd64 3 (- 1) (1 # nrs) \<lparr>Nr = 1, Arch = nativeArch Amd64, Args = 3 # args\<rparr> =
      SECCOMP_RET_ALLOW"
    by (simp add: block_verdict_def writeLike_def)
  then show ?thesis
    using exec_blocks [of "\<lparr>Nr = 1, Arch = nativeArch Amd64, Args = 3 # args\<rparr>" Amd64 3 "- 1" "1 # nrs" "1 # nrs"]
    by (simp add: buildFilter_shape load_abs_def offsetArch_def offsetNr_def filter_body_def)
qed

end
