(* ===== verification/Seccomp_Notif.thy ===== *)
theory Seccomp_Notif
  imports Seccomp_Filter
begin

text \<open>
  Notifications and their answers: the second half of \<open>internal/seccomp/filter_linux.go\<close>, the error
  classification of \<open>internal/engine/launch_linux.go\<close>, and the launch handshake
  (\<open>parseShimSignal\<close>, \<open>awaitExecPermit\<close>) of \<open>internal/seccomp/shim_linux.go\<close>.

  The kernel is on the other side of every one of these functions. The results of the system calls a
  function makes are arguments: a list of them for a retry loop, a function \<open>pread\<close> for reads of the
  traced process. An error is the chain that \<open>errors.Is\<close> walks.
\<close>

section \<open>Errors\<close>

datatype sentinel = ErrListenerClosed | ErrnoErr int | OtherErr string

type_synonym go_error = "sentinel list"

definition EINTR :: int where "EINTR = 4"
definition ENOENT :: int where "ENOENT = 2"
definition EBADF :: int where "EBADF = 9"
definition EPIPE :: int where "EPIPE = 32"

definition wrap_err :: "string \<Rightarrow> go_error \<Rightarrow> go_error" where
  "wrap_err msg e = OtherErr msg # e"

definition isClosedFdErr :: "go_error option \<Rightarrow> bool" where
  "isClosedFdErr err = (case err of None \<Rightarrow> False
     | Some e \<Rightarrow> ErrListenerClosed \<in> set e \<or> ErrnoErr EBADF \<in> set e \<or> ErrnoErr EPIPE \<in> set e)"

definition isDroppedNotifErr :: "go_error option \<Rightarrow> bool" where
  "isDroppedNotifErr err = (case err of None \<Rightarrow> False | Some e \<Rightarrow> ErrnoErr ENOENT \<in> set e)"

definition isBenignRespondErr :: "go_error option \<Rightarrow> bool" where
  "isBenignRespondErr err = (isClosedFdErr err \<or> isDroppedNotifErr err)"

section \<open>Requests and answers\<close>

record NotifReq =
  ID :: nat
  ReqPid :: nat
  Data :: seccomp_data

record NotifResp =
  RespID :: nat
  Val :: int
  RespError :: int
  Flags :: nat

definition SECCOMP_USER_NOTIF_FLAG_CONTINUE :: nat where
  "SECCOMP_USER_NOTIF_FLAG_CONTINUE = 1"

definition AllowResp :: "nat \<Rightarrow> NotifResp" where
  "AllowResp i = \<lparr>RespID = i, Val = 0, RespError = 0, Flags = SECCOMP_USER_NOTIF_FLAG_CONTINUE\<rparr>"

definition DenyResp :: "nat \<Rightarrow> int \<Rightarrow> NotifResp" where
  "DenyResp i e = \<lparr>RespID = i, Val = 0, RespError = - e, Flags = 0\<rparr>"

definition ReturnValueResp :: "nat \<Rightarrow> int \<Rightarrow> NotifResp" where
  "ReturnValueResp i v = \<lparr>RespID = i, Val = v, RespError = 0, Flags = 0\<rparr>"

text \<open>What the traced thread sees once the kernel has the answer.\<close>

datatype syscall_effect = Executes | Fails int | Returns int

definition effect_of :: "NotifResp \<Rightarrow> syscall_effect" where
  "effect_of r = (if Flags r = SECCOMP_USER_NOTIF_FLAG_CONTINUE then Executes
     else if RespError r \<noteq> 0 then Fails (- RespError r) else Returns (Val r))"

text \<open>\<open>Receive\<close>: one entry of the list per \<open>ioctl\<close> it makes, an errno or the request.\<close>

fun Receive :: "(int + NotifReq) list \<Rightarrow> (go_error + NotifReq) option" where
  "Receive [] = None"
| "Receive (Inr req # rs) = Some (Inr req)"
| "Receive (Inl errno # rs) =
     (if errno = EINTR then Receive rs
      else Some (Inl (wrap_err ''ioctl(SECCOMP_IOCTL_NOTIF_RECV)'' [ErrnoErr errno])))"

text \<open>\<open>Poll\<close>: per call of \<open>poll\<close> an errno, or the number of ready descriptors and whether one of
  the error bits is set.\<close>

fun Poll :: "(int + (nat \<times> bool)) list \<Rightarrow> (go_error + bool) option" where
  "Poll [] = None"
| "Poll (Inl errno # rs) = (if errno = EINTR then Poll rs else Some (Inl [ErrnoErr errno]))"
| "Poll (Inr (n, hup) # rs) =
     (if 0 < n \<and> hup then Some (Inl (wrap_err ''revents'' [ErrListenerClosed])) else Some (Inr (0 < n)))"

section \<open>Reading the traced process\<close>

type_synonym byte = "8 word"
type_synonym pread = "nat \<Rightarrow> 64 word \<Rightarrow> nat \<Rightarrow> byte list res"

definition byte_char :: "byte \<Rightarrow> char" where
  "byte_char b = char_of (unat b)"

definition ReadStringFromProcess :: "pread \<Rightarrow> nat \<Rightarrow> 64 word \<Rightarrow> nat \<Rightarrow> string res" where
  "ReadStringFromProcess rd pid addr maxLen =
     (if addr = 0 then Inr []
      else case rd pid addr maxLen of Inl e \<Rightarrow> Inl e
        | Inr buf \<Rightarrow> Inr (map byte_char (takeWhile (\<lambda>b. b \<noteq> 0) buf)))"

definition ReadFromProcess :: "pread \<Rightarrow> nat \<Rightarrow> 64 word \<Rightarrow> nat \<Rightarrow> byte list res" where
  "ReadFromProcess rd pid addr sz =
     (if addr = 0 then Inl ''null address'' else rd pid addr sz)"

definition show_byte :: "byte \<Rightarrow> string" where
  "show_byte b = show_nat (unat b)"

definition ReadSockaddrFromProcess :: "pread \<Rightarrow> nat \<Rightarrow> 64 word \<Rightarrow> (string \<times> int) res" where
  "ReadSockaddrFromProcess rd pid addr =
     (if addr = 0 then Inl ''null sockaddr pointer''
      else case rd pid addr 28 of Inl e \<Rightarrow> Inl e
        | Inr buf \<Rightarrow>
          (if length buf < 4 then Inl ''short read''
           else let family = (ucast (buf ! 0) :: 16 word) OR push_bit 8 (ucast (buf ! 1)) in
             if family = 2 then
               (if length buf < 8 then Inl ''short sockaddr_in''
                else Inr (join ''.'' (map show_byte [buf ! 4, buf ! 5, buf ! 6, buf ! 7]),
                  256 * uint (buf ! 2) + uint (buf ! 3)))
             else Inl ''unsupported address family''))"

text \<open>Little-endian 64-bit integers of \<open>encoding/binary\<close>.\<close>

definition put_uint64 :: "64 word \<Rightarrow> byte list" where
  "put_uint64 w = map (\<lambda>i. ucast (drop_bit (8 * i) w)) [0..<8]"

definition get_uint64 :: "byte list \<Rightarrow> 64 word" where
  "get_uint64 bs = foldr (\<lambda>b acc. ucast b + 256 * acc) (take 8 bs) 0"

lemma byte_step: "ucast (ucast w :: byte) + 256 * drop_bit 8 w = (w :: 64 word)"
proof -
  have "ucast (ucast w :: byte) = take_bit 8 w"
    by (rule bit_word_eqI) (auto simp: bit_simps)
  moreover have "256 * drop_bit 8 w = push_bit 8 (drop_bit 8 w)"
    by (simp add: push_bit_eq_mult)
  ultimately show ?thesis
    using bits_ident [of 8 w] by (simp add: add.commute)
qed

lemma get_put_uint64 [simp]: "get_uint64 (put_uint64 w @ rest) = w"
proof -
  have step: "ucast (ucast (drop_bit n w) :: byte) + 256 * drop_bit (n + 8) w = drop_bit n w" for n
    using byte_step [of "drop_bit n w"] by (simp add: add.commute)
  have "drop_bit 64 w = 0" by (rule bit_word_eqI) (simp add: bit_simps)
  then have top: "ucast (ucast (drop_bit 56 w) :: byte) = drop_bit 56 w" using step [of 56] by simp
  show ?thesis
    using step [of 0] step [of 8] step [of 16] step [of 24] step [of 32] step [of 40] step [of 48] top
    by (simp add: get_uint64_def put_uint64_def upt_rec)
qed

lemma length_put_uint64 [simp]: "length (put_uint64 w) = 8"
  by (simp add: put_uint64_def)

section \<open>The launch handshake\<close>

definition parseShimSignal :: "string \<Rightarrow> int res" where
  "parseShimSignal raw =
     (let s = trim_space raw in
      if has_prefix s ''ERR '' then Inl (''launch target: '' @ trim_prefix s ''ERR '')
      else case atoi s of Inl e \<Rightarrow> Inl (''parse listener fd '' @ go_quote s @ '': '' @ e) | Inr fd \<Rightarrow> Inr fd)"

definition shim_signal :: "nat \<Rightarrow> string" where
  "shim_signal listenerFd = show_nat listenerFd @ [CHR 0x0A]"

fun awaitExecPermit :: "(int + byte list) list \<Rightarrow> unit res option" where
  "awaitExecPermit [] = None"
| "awaitExecPermit (Inl errno # rs) =
     (if errno = EINTR then awaitExecPermit rs else Some (Inl ''wait for parent exec permit''))"
| "awaitExecPermit (Inr got # rs) =
     (if got \<noteq> [1] then Some (Inl ''parent exec gate closed without a valid permit'') else Some (Inr ()))"

lemma is_digit_not_sign: "is_digit c \<Longrightarrow> c \<noteq> CHR ''-'' \<and> c \<noteq> CHR ''+'' \<and> c \<noteq> CHR ''E''"
  by (auto simp: is_digit_def)

lemma is_digit_not_space: "is_digit c \<Longrightarrow> \<not> is_space c"
  by (auto simp: is_digit_def is_space_def)

lemma show_nat_hd_digit: "is_digit (hd (show_nat n))"
  using show_nat_digits [of n] hd_in_set [OF show_nat_not_Nil] by blast

lemma dropWhile_space_digits:
  "xs \<noteq> [] \<Longrightarrow> is_digit (hd xs) \<Longrightarrow> dropWhile is_space xs = xs"
  by (cases xs) (simp_all add: is_digit_not_space)

text \<open>The launch handshake round-trips: the parent reads back the listener descriptor that the child
  wrote, and never mistakes it for an error report.\<close>

theorem shim_signal_roundtrip:
  assumes "int fd < 2 ^ 63"
  shows "parseShimSignal (shim_signal fd) = Inr (int fd)"
proof -
  let ?s = "show_nat fd"
  have "is_space (CHR 0x0A)" by (simp add: is_space_def)
  moreover have "is_digit (last ?s)" using show_nat_digits [of fd] last_in_set [OF show_nat_not_Nil] by blast
  ultimately have t: "trim_space (shim_signal fd) = ?s"
    using show_nat_hd_digit [of fd]
    by (simp add: trim_space_def shim_signal_def dropWhile_space_digits hd_rev)
  have "\<not> has_prefix ?s ''ERR ''"
    using is_digit_not_sign [OF show_nat_hd_digit [of fd]] by (auto simp: has_prefix_iff)
  then show ?thesis by (simp add: parseShimSignal_def t atoi_show_nat [OF assms])
qed

theorem shim_signal_roundtrip_witness: "parseShimSignal (shim_signal 7) = Inr 7"
  using shim_signal_roundtrip [of 7] by simp

lemma port_bytes:
  "256 * uint (ucast (drop_bit 8 port) :: byte) + uint (ucast port :: byte) = uint (port :: 16 word)"
proof -
  have "uint port div 256 mod 256 = uint port div 256"
    using unsigned_less [of port, where ?'a = int] unsigned_greater_eq [of port, where ?'a = int]
    by (intro mod_pos_pos_trivial) (simp_all add: div_int_pos_iff)
  then have "uint (ucast (drop_bit 8 port) :: byte) = uint port div 256"
    by (simp add: unsigned_ucast_eq take_bit_eq_mod drop_bit_eq_div uint_div)
  moreover have "uint (ucast port :: byte) = uint port mod 256"
    by (simp add: unsigned_ucast_eq take_bit_eq_mod)
  ultimately show ?thesis by (simp only: mult_div_mod_eq)
qed

text \<open>The destination of a \<open>connect\<close> is read back from the \<open>sockaddr_in\<close> in the traced process:
  family in host order, port in network order, the address as four decimal octets.\<close>

theorem sockaddr_roundtrip:
  assumes "addr \<noteq> 0"
    and "rd pid addr 28 = Inr ([2, 0, ucast (drop_bit 8 (port :: 16 word)), ucast port, a, b, c, d] @ rest)"
  shows "ReadSockaddrFromProcess rd pid addr = Inr (join ''.'' (map show_byte [a, b, c, d]), uint port)"
proof -
  let ?buf = "[2, 0, ucast (drop_bit 8 port), ucast port, a, b, c, d] @ rest"
  have f: "(ucast (2 :: byte) :: 16 word) OR push_bit 8 (ucast (0 :: byte)) = 2" by simp
  have n: "?buf ! 0 = 2" "?buf ! 1 = 0" "?buf ! 2 = ucast (drop_bit 8 port)" "?buf ! 3 = ucast port"
    "?buf ! 4 = a" "?buf ! 5 = b" "?buf ! 6 = c" "?buf ! 7 = d"
    by (simp_all add: eval_nat_numeral)
  have l: "\<not> length ?buf < 4" "\<not> length ?buf < 8" by simp_all
  show ?thesis
    by (simp only: ReadSockaddrFromProcess_def assms Let_def n l f port_bytes if_False if_True sum.case
        refl simp_thms)
qed

theorem sockaddr_roundtrip_witness:
  "ReadSockaddrFromProcess (\<lambda>_ _ _. Inr [2, 0, 0x15, 0x38, 10, 0, 0, 7]) 1 64 = Inr (''10.0.0.7'', 5432)"
proof -
  have "ucast (drop_bit 8 (5432 :: 16 word)) = (0x15 :: byte)" "ucast (5432 :: 16 word) = (0x38 :: byte)"
    by simp_all
  moreover have "join ''.'' (map show_byte [10, 0, 0, 7]) = ''10.0.0.7''"
    by (simp add: show_byte_def show_nat.simps digit_char_eqs)
  ultimately show ?thesis
    using sockaddr_roundtrip [of 64 "\<lambda>_ _ _. Inr [2, 0, 0x15, 0x38, 10, 0, 0, 7]" 1 5432 10 0 0 7 "[]"] by simp
qed

end
