(* ===== verification/Session.thy ===== *)
theory Session
  imports Fault_Rule Hold_Queue Seccomp_Notif
begin

text \<open>
  The session: \<open>internal/engine/session.go\<close> and the rule resolution at the top of \<open>launch\<close> in
  \<open>internal/engine/launch_linux.go\<close>.

  The record holds the fields of the Go struct that the modelled operations read or write. Rules are
  held behind pointers in the code; here a table entry is the rule with its counters, and an operation
  that bumps a counter writes the rule back. The generator behind \<open>rng\<close> is the sequence of its next
  draws. Events reach the callback \<open>OnSyscall\<close>; \<open>events\<close> collects what it was given, without the wall
  clock time, and with the decision text as the value it is formatted from. A map from syscall
  numbers is a function with the empty list for a missing key; ranging over one takes the order of
  its keys as an argument. All operations on a session are nil-safe by an early return, which
  \<open>map_option\<close> over a possibly missing session expresses.
\<close>

section \<open>Virtual clock\<close>

record VirtualClock =
  enabled :: bool
  elapsed :: int

definition Advance :: "int \<Rightarrow> VirtualClock \<Rightarrow> VirtualClock" where
  "Advance d vc = vc\<lparr>elapsed := wrap64 (elapsed vc + d)\<rparr>"

definition Timespec :: "VirtualClock \<Rightarrow> int \<times> int" where
  "Timespec vc = (go_div (elapsed vc) 1000000000, go_rem (elapsed vc) 1000000000)"

section \<open>Session state\<close>

datatype State = StateCreated | StateStarting | StateRunning | StateStopped | StateFailed

datatype Decision = DAllow | DSystemPath | DTrace | DDelay int | DDeny int | DHold string
  | DReleasedAllow | DReleasedDeny int | DVirtualSleep int | DVirtualTime int int

record SyscallEvent =
  Seq :: int
  EvService :: string
  EvSyscall :: string
  EvPID :: nat
  EvDecision :: Decision
  EvPath :: string
  Latency :: int
  EvLabel :: string
  EvOp :: string
  DestIP :: string
  DestPort :: int

type_synonym decider = "FaultRule \<Rightarrow> int \<Rightarrow> bool \<times> bool"

record Session =
  Service :: string
  cfgRules :: "FaultRule list"
  hasOnSyscall :: bool
  ProbabilityDecider :: "decider option"
  state :: State
  rng :: "nat \<Rightarrow> rat"
  vclock :: "VirtualClock option"
  syscallSeq :: int
  unresolvedPaths :: int
  droppedNotifs :: int
  supervisorFailed :: bool
  supervisorErr :: "string option"
  dynamicRules :: "int \<Rightarrow> FaultRule list"
  holdRules :: "int \<Rightarrow> FaultRule list"
  holdQueues :: "string \<rightharpoonup> HoldQueue"
  events :: "SyscallEvent list"

definition NewSession :: "string \<Rightarrow> FaultRule list \<Rightarrow> bool \<Rightarrow> decider option \<Rightarrow> bool \<Rightarrow> (nat \<Rightarrow> rat) \<Rightarrow> Session" where
  "NewSession service rules onSyscall dec virtualTime draws =
     \<lparr>Service = service, cfgRules = rules, hasOnSyscall = onSyscall, ProbabilityDecider = dec,
      state = StateCreated, rng = draws,
      vclock = (if virtualTime then Some \<lparr>enabled = True, elapsed = 0\<rparr> else None),
      syscallSeq = 0, unresolvedPaths = 0, droppedNotifs = 0, supervisorFailed = False,
      supervisorErr = None, dynamicRules = (\<lambda>_. []), holdRules = (\<lambda>_. []),
      holdQueues = Map.empty, events = []\<rparr>"

definition FiltersSyscall :: "Session \<Rightarrow> string \<Rightarrow> bool" where
  "FiltersSyscall s name = list_ex (\<lambda>r. Syscall r = name \<or> Syscall r = ''open'' \<and> name = ''openat'') (cfgRules s)"

text \<open>\<open>FilteredSyscalls\<close> collects the keys of a map and sorts them, so the map's order is gone.\<close>

definition FilteredSyscalls :: "Session \<Rightarrow> string list" where
  "FilteredSyscalls s = sort (remdups (concat (map (\<lambda>r. if Syscall r = ''open'' then [Syscall r, ''openat'']
     else [Syscall r]) (cfgRules s))))"

definition noteSupervisorExit :: "string \<Rightarrow> Session \<Rightarrow> Session" where
  "noteSupervisorExit cause s =
     (let s1 = s\<lparr>supervisorFailed := True\<rparr>
      in if cause \<noteq> [] then s1\<lparr>supervisorErr := Some cause\<rparr> else s1)"

definition SupervisorFailure :: "Session \<Rightarrow> string option" where
  "SupervisorFailure s =
     (if \<not> supervisorFailed s then None
      else let msg = ''seccomp notification loop stopped while the target was still running; '' @
             ''every intercepted syscall after that point blocks indefinitely''
           in case supervisorErr s of Some p \<Rightarrow> (if p \<noteq> [] then Some (msg @ '': '' @ p) else Some msg)
              | None \<Rightarrow> Some msg)"

section \<open>Dynamic rules\<close>

definition init_counters :: "FaultRule \<Rightarrow> FaultRule" where
  "init_counters r = r\<lparr>counter := Some (MatchCount r),
     probCounter := Some (case probCounter r of None \<Rightarrow> 0 | Some n \<Rightarrow> n)\<rparr>"

definition SetDynamicFaultRules :: "arch \<Rightarrow> FaultRule list \<Rightarrow> Session \<Rightarrow> Session" where
  "SetDynamicFaultRules a rules s =
     s\<lparr>dynamicRules := foldl (\<lambda>m r. let nr = SyscallNumber a (Syscall r) in
         if nr < 0 then m else m(nr := m nr @ [init_counters r])) (\<lambda>_. []) rules\<rparr>"

definition ClearDynamicFaultRules :: "Session \<Rightarrow> Session" where
  "ClearDynamicFaultRules s = s\<lparr>dynamicRules := (\<lambda>_. [])\<rparr>"

definition getDynamicRules :: "Session \<Rightarrow> int \<Rightarrow> FaultRule list" where
  "getDynamicRules s nr = dynamicRules s nr"

record DynamicRuleReport =
  RepSyscall :: string
  RepAction :: string
  RepOp :: string
  RepLabel :: string
  RepMatchCount :: int
  RepPathGlob :: string
  RepUnresolvedPaths :: int

definition DynamicRuleActivity :: "int list \<Rightarrow> Session \<Rightarrow> DynamicRuleReport list" where
  "DynamicRuleActivity ks s = concat (map (\<lambda>k. map (\<lambda>r.
     \<lparr>RepSyscall = Syscall r, RepAction = actionName (Action r), RepOp = Op r, RepLabel = Label r,
      RepMatchCount = MatchCount r, RepPathGlob = PathGlob r, RepUnresolvedPaths = unresolvedPaths s\<rparr>)
     (dynamicRules s k)) ks)"

section \<open>Hold rules\<close>

definition RegisterHoldQueue :: "string \<Rightarrow> Session \<Rightarrow> Session" where
  "RegisterHoldQueue tag s = s\<lparr>holdQueues := (holdQueues s)(tag \<mapsto> NewHoldQueue)\<rparr>"

definition GetHoldQueue :: "Session \<Rightarrow> string \<Rightarrow> HoldQueue option" where
  "GetHoldQueue s tag = holdQueues s tag"

definition AddHoldRules :: "arch \<Rightarrow> string \<Rightarrow> FaultRule list \<Rightarrow> Session \<Rightarrow> Session" where
  "AddHoldRules a tag rules s =
     s\<lparr>holdRules := foldl (\<lambda>m r. let nr = SyscallNumber a (Syscall r) in
         if nr < 0 then m else m(nr := m nr @ [r\<lparr>HoldTag := tag\<rparr>])) (holdRules s) rules\<rparr>"

text \<open>Removing and closing return the sends they make to waiting handlers.\<close>

definition RemoveHoldRules :: "string \<Rightarrow> Session \<Rightarrow> Session \<times> sends" where
  "RemoveHoldRules tag s =
     (let s1 = s\<lparr>holdRules := (\<lambda>nr. filter (\<lambda>r. HoldTag r \<noteq> tag) (holdRules s nr))\<rparr>
      in case holdQueues s tag of None \<Rightarrow> (s1, [])
         | Some q \<Rightarrow> (s1\<lparr>holdQueues := (holdQueues s1)(tag := None)\<rparr>, snd (Close q)))"

text \<open>The order in which \<open>CloseAllHoldQueues\<close> meets the queues is \<open>tags\<close>.\<close>

definition CloseAllHoldQueues :: "string list \<Rightarrow> Session \<Rightarrow> Session \<times> sends" where
  "CloseAllHoldQueues tags s =
     (s\<lparr>holdQueues := Map.empty, holdRules := (\<lambda>_. [])\<rparr>,
      concat (map (\<lambda>t. case holdQueues s t of None \<Rightarrow> [] | Some q \<Rightarrow> snd (Close q)) tags))"

definition getHoldRules :: "Session \<Rightarrow> int \<Rightarrow> FaultRule list" where
  "getHoldRules s nr = holdRules s nr"

section \<open>Random draws and events\<close>

definition randFloat64 :: "Session \<Rightarrow> rat \<times> Session" where
  "randFloat64 s = (rng s 0, s\<lparr>rng := (\<lambda>i. rng s (Suc i))\<rparr>)"

definition emitSyscallEventDest ::
  "string \<Rightarrow> nat \<Rightarrow> Decision \<Rightarrow> string \<Rightarrow> int \<Rightarrow> string \<Rightarrow> int \<Rightarrow> string list \<Rightarrow> Session \<Rightarrow> Session" where
  "emitSyscallEventDest name pid decision path latency destIP destPort extra s =
     (if \<not> hasOnSyscall s then s
      else let n = syscallSeq s + 1 in
        s\<lparr>syscallSeq := n,
          events := events s @ [\<lparr>Seq = n, EvService = Service s, EvSyscall = name, EvPID = pid,
            EvDecision = decision, EvPath = path, Latency = latency,
            EvLabel = (if 0 < length extra then extra ! 0 else []),
            EvOp = (if 1 < length extra then extra ! 1 else []),
            DestIP = destIP, DestPort = destPort\<rparr>]\<rparr>)"

definition emitSyscallEvent ::
  "string \<Rightarrow> nat \<Rightarrow> Decision \<Rightarrow> string \<Rightarrow> int \<Rightarrow> string list \<Rightarrow> Session \<Rightarrow> Session" where
  "emitSyscallEvent name pid decision path latency extra s =
     emitSyscallEventDest name pid decision path latency [] 0 extra s"

section \<open>Resolving the configured rules\<close>

text \<open>The two loops of \<open>launch\<close>: the resolved rules and the syscall numbers for the filter, in the
  order they are appended; \<open>seen\<close> is the set of the numbers already listed.\<close>

fun resolve_first :: "arch \<Rightarrow> FaultRule list \<Rightarrow> (int \<times> FaultRule) list \<Rightarrow> int list \<Rightarrow>
    ((int \<times> FaultRule) list \<times> int list) res" where
  "resolve_first a [] rules nrs = Inr (rules, nrs)"
| "resolve_first a (r # rs) rules nrs =
     (let nr = SyscallNumber a (Syscall r) in
      if nr < 0 then Inl (''unknown syscall '' @ Syscall r)
      else resolve_first a rs (rules @ [(nr, r)]) (if nr \<in> set nrs then nrs else nrs @ [nr]))"

fun resolve_openat :: "arch \<Rightarrow> FaultRule list \<Rightarrow> (int \<times> FaultRule) list \<Rightarrow> int list \<Rightarrow>
    (int \<times> FaultRule) list \<times> int list" where
  "resolve_openat a [] rules nrs = (rules, nrs)"
| "resolve_openat a (r # rs) rules nrs =
     (if Syscall r = ''open'' then
        let nr = SyscallNumber a ''openat'' in
        if 0 \<le> nr \<and> nr \<notin> set nrs then resolve_openat a rs (rules @ [(nr, r)]) (nrs @ [nr])
        else resolve_openat a rs rules nrs
      else resolve_openat a rs rules nrs)"

definition resolve_rules :: "arch \<Rightarrow> FaultRule list \<Rightarrow> ((int \<times> FaultRule) list \<times> int list) res" where
  "resolve_rules a rules = (case resolve_first a rules [] [] of Inl e \<Rightarrow> Inl e
     | Inr (rs, nrs) \<Rightarrow> Inr (resolve_openat a rules rs nrs))"

definition build_ruleMap :: "(int \<times> FaultRule) list \<Rightarrow> int \<Rightarrow> FaultRule list" where
  "build_ruleMap rules nr = map (\<lambda>p. init_counters (snd p)) (filter (\<lambda>p. fst p = nr) rules)"

lemma resolve_first_facts:
  "resolve_first a rs rules nrs = Inr (rules', nrs') \<Longrightarrow> distinct nrs \<Longrightarrow>
   rules' = rules @ map (\<lambda>r. (SyscallNumber a (Syscall r), r)) rs \<and> distinct nrs' \<and>
   set nrs' = set nrs \<union> (\<lambda>r. SyscallNumber a (Syscall r)) ` set rs \<and>
   (\<forall>r \<in> set rs. 0 \<le> SyscallNumber a (Syscall r))"
proof (induction a rs rules nrs rule: resolve_first.induct)
  case (2 a r rs rules nrs)
  let ?nr = "SyscallNumber a (Syscall r)"
  have nn: "\<not> ?nr < 0" using 2(2) by (simp add: Let_def split: if_splits)
  then have "resolve_first a rs (rules @ [(?nr, r)]) (if ?nr \<in> set nrs then nrs else nrs @ [?nr]) = Inr (rules', nrs')"
    using 2(2) by (simp add: Let_def)
  from 2(1) [OF refl nn this] 2(3) nn show ?case by (auto split: if_splits)
qed auto

lemma resolve_openat_facts:
  "resolve_openat a rs rules nrs = (rules', nrs') \<Longrightarrow> distinct nrs \<Longrightarrow>
   distinct nrs' \<and> set nrs' = set nrs \<union>
     (if list_ex (\<lambda>r. Syscall r = ''open'') rs \<and> 0 \<le> SyscallNumber a ''openat''
      then {SyscallNumber a ''openat''} else {})"
proof (induction a rs rules nrs rule: resolve_openat.induct)
  case (2 a r rs rules nrs)
  show ?case
  proof (cases "Syscall r = ''open'' \<and> 0 \<le> SyscallNumber a ''openat'' \<and> SyscallNumber a ''openat'' \<notin> set nrs")
    case True
    then have "resolve_openat a rs (rules @ [(SyscallNumber a ''openat'', r)]) (nrs @ [SyscallNumber a ''openat'']) =
        (rules', nrs')"
      using 2(4) by (simp add: Let_def)
    with True 2(5) 2(1) [OF _ refl] show ?thesis by auto
  next
    case False
    with 2(4) have r: "resolve_openat a rs rules nrs = (rules', nrs')" by (auto simp: Let_def split: if_splits)
    show ?thesis
    proof (cases "Syscall r = ''open''")
      case True
      with False have "\<not> (0 \<le> SyscallNumber a ''openat'' \<and> SyscallNumber a ''openat'' \<notin> set nrs)" by blast
      from 2(2) [OF True refl this r 2(5)] True False show ?thesis by auto
    next
      case other: False
      from 2(3) [OF other r 2(5)] other show ?thesis by simp
    qed
  qed
qed simp

lemma resolve_rules_nrs:
  assumes "resolve_rules a rules = Inr (rs, nrs)"
  shows "distinct nrs"
    and "set nrs = (\<lambda>r. SyscallNumber a (Syscall r)) ` set rules \<union>
      (if list_ex (\<lambda>r. Syscall r = ''open'') rules \<and> 0 \<le> SyscallNumber a ''openat''
       then {SyscallNumber a ''openat''} else {})"
    and "r \<in> set rules \<Longrightarrow> 0 \<le> SyscallNumber a (Syscall r)"
proof -
  from assms obtain rs1 nrs1 where f: "resolve_first a rules [] [] = Inr (rs1, nrs1)"
    and o': "resolve_openat a rules rs1 nrs1 = (rs, nrs)"
    by (auto simp: resolve_rules_def split: sum.splits)
  note F = resolve_first_facts [OF f distinct.simps(1) [THEN iffD2, OF TrueI]]
  note O = resolve_openat_facts [OF o']
  show "distinct nrs" using F O by blast
  show "set nrs = (\<lambda>r. SyscallNumber a (Syscall r)) ` set rules \<union>
      (if list_ex (\<lambda>r. Syscall r = ''open'') rules \<and> 0 \<le> SyscallNumber a ''openat''
       then {SyscallNumber a ''openat''} else {})" using F O by simp
  show "0 \<le> SyscallNumber a (Syscall r)" if "r \<in> set rules" using F that by blast
qed

lemma SyscallNumber_Name:
  assumes "0 \<le> SyscallNumber a n"
  shows "SyscallName a x = n \<longleftrightarrow> x = SyscallNumber a n"
proof
  have mem: "(SyscallNumber a n, n) \<in> set (syscallNames a)" by (rule SyscallNumber_known [OF assms])
  show "SyscallName a x = n" if "x = SyscallNumber a n" using that SyscallName_table [OF mem] by simp
  assume e: "SyscallName a x = n"
  have "list_all (\<lambda>p. \<not> has_prefix (snd p) ''syscall_'') (syscallNames a)"
    by (cases a) (simp_all add: syscallNames_def syscallNames_amd64_def syscallNames_arm64_def has_prefix_def)
  with mem have "\<not> has_prefix n ''syscall_''" by (fastforce simp: list_all_iff)
  with e have "map_of (syscallNames a) x \<noteq> None"
    by (auto simp: SyscallName_def has_prefix_def split: option.splits)
  then have "x \<in> fst ` set (syscallNames a)" by (auto simp: map_of_eq_None_iff)
  moreover have "SyscallNumber a n \<in> fst ` set (syscallNames a)" using mem by (auto intro: rev_image_eqI)
  ultimately show "x = SyscallNumber a n"
    using inj_onD [OF SyscallName_inj [of a]] e SyscallName_table [OF mem] by metis
qed

lemma known_openat: "0 \<le> SyscallNumber a ''openat''"
  by (cases a) (simp_all add: SyscallNumber_def syscallNames_def syscallNames_amd64_def syscallNames_arm64_def)

lemma resolved_iff_filtered:
  assumes "resolve_rules a (cfgRules s) = Inr (rs, nrs)"
  shows "nr \<in> set nrs \<longleftrightarrow> FiltersSyscall s (SyscallName a nr)"
proof -
  note R = resolve_rules_nrs [OF assms]
  have "nr = SyscallNumber a (Syscall r) \<longleftrightarrow> Syscall r = SyscallName a nr" if "r \<in> set (cfgRules s)" for r
    using SyscallNumber_Name [OF R(3) [OF that], of nr] by auto
  then have "nr \<in> (\<lambda>r. SyscallNumber a (Syscall r)) ` set (cfgRules s) \<longleftrightarrow>
      list_ex (\<lambda>r. Syscall r = SyscallName a nr) (cfgRules s)"
    by (auto simp: list_ex_iff image_iff)
  moreover have "nr = SyscallNumber a ''openat'' \<longleftrightarrow> SyscallName a nr = ''openat''"
    using SyscallNumber_Name [OF known_openat] by auto
  ultimately show ?thesis
    unfolding R(2) FiltersSyscall_def by (auto simp: known_openat list_ex_iff)
qed

lemma sint_word_of_known:
  "nr \<in> fst ` set (syscallNames a) \<Longrightarrow> sint (word_of_int nr :: 32 word) = nr"
proof -
  assume "nr \<in> fst ` set (syscallNames a)"
  moreover have "list_all (\<lambda>p. sint (word_of_int (fst p) :: 32 word) = fst p) (syscallNames a)"
    by (cases a) (simp_all add: syscallNames_def syscallNames_amd64_def syscallNames_arm64_def)
  ultimately show ?thesis by (auto simp: list_all_iff)
qed

text \<open>A syscall on a descriptor that the shim keeps for itself.\<close>

definition exempt :: "arch \<Rightarrow> int \<Rightarrow> int \<Rightarrow> seccomp_data \<Rightarrow> bool" where
  "exempt a fdW fdS d \<longleftrightarrow>
     (let name = SyscallName a (sint (Nr d)); fd = (ucast (Args d ! 0) :: 32 word) in
      name \<in> set write_family \<and> 0 \<le> fdW \<and> fd = word_of_int fdW \<or>
      name \<in> set socket_family \<and> 0 \<le> fdS \<and> fd = word_of_int fdS)"

lemma families_disjoint: "n \<in> set write_family \<Longrightarrow> n \<in> set socket_family \<Longrightarrow> False"
  by (auto simp: write_family_def socket_family_def)

text \<open>The installed filter, run on a syscall.\<close>

lemma launch_filter_run:
  assumes "resolve_rules a (cfgRules s) = Inr (rs, nrs)"
  shows "bpf_exec d (buildFilter a (map word_of_int nrs) fdW fdS) 0 =
    Some (if Arch d = nativeArch a \<and> FiltersSyscall s (SyscallName a (sint (Nr d))) \<and> \<not> exempt a fdW fdS d
          then SECCOMP_RET_USER_NOTIF else SECCOMP_RET_ALLOW)"
proof -
  note R = resolve_rules_nrs [OF assms]
  have known: "set nrs \<subseteq> fst ` set (syscallNames a)"
  proof
    fix nr
    assume "nr \<in> set nrs"
    then consider r where "r \<in> set (cfgRules s)" "nr = SyscallNumber a (Syscall r)" | "nr = SyscallNumber a ''openat''"
      unfolding R(2) by (auto split: if_splits)
    then obtain n where "nr = SyscallNumber a n" "0 \<le> SyscallNumber a n"
      using R(3) known_openat by cases auto
    then show "nr \<in> fst ` set (syscallNames a)"
      using SyscallNumber_known [of a n] by (simp add: image_iff) (metis fst_conv)
  qed
  let ?ws = "map word_of_int nrs :: 32 word list"
  have sint_nr: "sint (word_of_int x :: 32 word) = x" if "x \<in> set nrs" for x
    using that known sint_word_of_known by blast
  have "inj_on (word_of_int :: int \<Rightarrow> 32 word) (set nrs)"
    by (rule inj_on_inverseI [where g = sint]) (rule sint_nr)
  with R(1) have d: "distinct ?ws" by (simp add: distinct_map)
  have k: "sint ` set ?ws \<subseteq> fst ` set (syscallNames a)" using known sint_nr by auto
  have "Nr d \<in> set ?ws \<longleftrightarrow> sint (Nr d) \<in> set nrs"
  proof
    assume "Nr d \<in> set ?ws"
    then obtain x where "x \<in> set nrs" "Nr d = word_of_int x" by auto
    then show "sint (Nr d) \<in> set nrs" using sint_nr by simp
  next
    assume "sint (Nr d) \<in> set nrs"
    then show "Nr d \<in> set ?ws" unfolding set_map by (rule rev_image_eqI) simp
  qed
  then have m: "Nr d \<in> set ?ws \<longleftrightarrow> FiltersSyscall s (SyscallName a (sint (Nr d)))"
    using resolved_iff_filtered [OF assms] by simp
  have "length (buildFilter a ?ws fdW fdS) \<le> 258"
    using known_nrs_bounds(1) [OF d k] known_nrs_bounds(2) [OF d k, of fdW fdS]
    by (simp add: buildFilter_shape length_filter_body)
  from buildFilter_correct [OF this, of d] m families_disjoint show ?thesis
    by (auto simp: filter_spec_def writeLike_def socketLike_def exempt_def Let_def simp del: set_map)
qed

text \<open>C7. What the kernel is given agrees with what the session reports. Once the configured rules
  resolve, the installed filter notifies on a syscall of the native architecture exactly when
  \<open>FiltersSyscall\<close> says that the session intercepts it and its descriptor is not exempted, and
  allows everything else.\<close>

theorem launch_filter_agrees:
  assumes "resolve_rules a (cfgRules s) = Inr (rs, nrs)"
  shows "bpf_exec d (buildFilter a (map word_of_int nrs) fdW fdS) 0 =
    Some (if Arch d = nativeArch a \<and> FiltersSyscall s (SyscallName a (sint (Nr d))) \<and> \<not> exempt a fdW fdS d
          then SECCOMP_RET_USER_NOTIF else SECCOMP_RET_ALLOW)"
  by (rule launch_filter_run [OF assms])

definition deny_rule :: "string \<Rightarrow> int \<Rightarrow> string \<Rightarrow> FaultRule" where
  "deny_rule name e pat = \<lparr>Syscall = name, Action = ActionDeny, Errno = e, Delay = 0,
     Probability = Fin 1, PathGlob = pat, Trigger = TriggerAlways, TriggerN = 0, DestAddr = [],
     Label = [], Op = [], HoldTag = [], MaxFires = 0, Mode = [], counter = None, probCounter = None\<rparr>"

definition demo_session :: "FaultRule list \<Rightarrow> Session" where
  "demo_session rules = NewSession ''db'' rules True None False (\<lambda>_. 0)"

lemma amd64_numbers:
  "SyscallNumber Amd64 ''open'' = 2" "SyscallNumber Amd64 ''openat'' = 257"
  "SyscallNumber Amd64 ''write'' = 1" "SyscallNumber Amd64 ''fsync'' = 74"
  by (simp_all add: SyscallNumber_def syscallNames_def syscallNames_amd64_def)

theorem launch_filter_agrees_witness:
  "bpf_exec \<lparr>Nr = 257, Arch = nativeArch Amd64, Args = [3]\<rparr> (buildFilter Amd64 [2, 257] 3 (- 1)) 0 =
     Some SECCOMP_RET_USER_NOTIF"
proof -
  have r: "resolve_rules Amd64 (cfgRules (demo_session [deny_rule ''open'' 2 []])) =
      Inr ([(2, deny_rule ''open'' 2 []), (257, deny_rule ''open'' 2 [])], [2, 257])"
    by (simp add: resolve_rules_def demo_session_def NewSession_def deny_rule_def amd64_numbers)
  have "SyscallName Amd64 257 = ''openat''"
    by (simp add: SyscallName_def syscallNames_def syscallNames_amd64_def)
  then show ?thesis
    using launch_filter_agrees [OF r, of "\<lparr>Nr = 257, Arch = nativeArch Amd64, Args = [3]\<rparr>" 3 "- 1"]
    by (simp add: FiltersSyscall_def demo_session_def NewSession_def deny_rule_def exempt_def write_family_def)
qed

text \<open>Only one \<open>open\<close> rule reaches \<open>openat\<close>. The filter is widened to \<open>openat\<close> when \<open>open\<close> is
  requested, because that is what programs call, but the rule is copied only while \<open>openat\<close> is not
  in the filter: of two rules on \<open>open\<close> the second is never consulted for an \<open>openat\<close>.\<close>

theorem openat_gets_first_open_rule_only:
  "map_sum id (\<lambda>(rs, nrs). (build_ruleMap rs 257, nrs))
     (resolve_rules Amd64 [deny_rule ''open'' 2 ''/a'', deny_rule ''open'' 5 ''/b'']) =
   Inr ([init_counters (deny_rule ''open'' 2 ''/a'')], [2, 257])"
  by (simp add: resolve_rules_def deny_rule_def amd64_numbers build_ruleMap_def)

end
