(* ===== verification/Notification.thy ===== *)
theory Notification
  imports Session
begin

text \<open>
  The seccomp supervisor: \<open>notificationLoop\<close>, \<open>handleNotification\<close>, \<open>handleTimeSyscall\<close> and
  \<open>checkSupervisorExit\<close> of \<open>internal/engine/launch_linux.go\<close>.

  A handler is a function of the session, the table of static rules and one request. It ends either
  with an answer to the kernel or waiting on a hold queue, in which case \<open>finish_hold\<close> is the rest of the
  goroutine once a decision arrives. Reads of the traced process and of \<open>/proc\<close> come from the
  environment record; writes to the traced process and real sleeps are outputs.
\<close>

record Env =
  env_pread :: pread
  env_readlink :: "nat \<Rightarrow> 64 word \<Rightarrow> string res"
  env_write :: "nat \<Rightarrow> 64 word \<Rightarrow> byte list \<Rightarrow> bool"

datatype Outcome = Answered NotifResp | Waiting string HeldNotif

record Handled =
  ses :: Session
  rule_map :: "int \<Rightarrow> FaultRule list"
  outcome :: Outcome
  mem_writes :: "(nat \<times> 64 word \<times> byte list) list"
  slept :: int

section \<open>What a request is about\<close>

definition resolve_path :: "Env \<Rightarrow> string \<Rightarrow> NotifReq \<Rightarrow> Session \<Rightarrow> string \<times> Session" where
  "resolve_path e name req s =
     (if IsFileSyscall name then
        let argIdx = (if name = ''open'' then 0 else 1) in
        (case ReadStringFromProcess (env_pread e) (ReqPid req) (Args (Data req) ! argIdx) 256 of
           Inr p \<Rightarrow> (p, s)
         | Inl _ \<Rightarrow> ([], s\<lparr>unresolvedPaths := unresolvedPaths s + 1\<rparr>))
      else if IsFdSyscall name then
        (case env_readlink e (ReqPid req) (Args (Data req) ! 0) of
           Inl _ \<Rightarrow> ([], s\<lparr>unresolvedPaths := unresolvedPaths s + 1\<rparr>)
         | Inr p \<Rightarrow> (if \<not> IsSystemPath p then (p, s) else ([], s)))
      else ([], s))"

definition read_dest :: "Env \<Rightarrow> string \<Rightarrow> NotifReq \<Rightarrow> string \<times> int" where
  "read_dest e name req =
     (if name = ''connect'' then
        (case ReadSockaddrFromProcess (env_pread e) (ReqPid req) (Args (Data req) ! 1) of
           Inr d \<Rightarrow> d | Inl _ \<Rightarrow> ([], 0))
      else ([], 0))"

definition emit :: "string \<Rightarrow> nat \<Rightarrow> string \<times> int \<Rightarrow> Decision \<Rightarrow> string \<Rightarrow> int \<Rightarrow> string list \<Rightarrow> Session \<Rightarrow> Session" where
  "emit name pid dest decision path latency extra s =
     (if name = ''connect'' then emitSyscallEventDest name pid decision path latency (fst dest) (snd dest) extra s
      else emitSyscallEvent name pid decision path latency extra s)"

section \<open>Virtual time\<close>

definition readTimespec :: "Env \<Rightarrow> nat \<Rightarrow> 64 word \<Rightarrow> int" where
  "readTimespec e pid addr =
     (if addr = 0 then 0
      else case ReadFromProcess (env_pread e) pid addr 16 of Inl _ \<Rightarrow> 0
        | Inr buf \<Rightarrow>
          (if length buf < 16 then 0
           else let sec = sint (get_uint64 (take 8 buf)); nsec = sint (get_uint64 (drop 8 buf))
             in wrap64 (wrap64 (sec * 1000000000) + nsec)))"

definition zero_timespec :: "byte list" where
  "zero_timespec = replicate 16 0"

definition put_timespec :: "int \<times> int \<Rightarrow> byte list" where
  "put_timespec ts = put_uint64 (word_of_int (fst ts)) @ put_uint64 (word_of_int (snd ts))"

definition handleTimeSyscall ::
  "Env \<Rightarrow> NotifReq \<Rightarrow> string \<Rightarrow> VirtualClock \<Rightarrow> Session \<Rightarrow>
   (Session \<times> NotifResp \<times> (nat \<times> 64 word \<times> byte list) list) option" where
  "handleTimeSyscall e req name vc s =
     (let pid = ReqPid req; args = Args (Data req) in
      if name = ''nanosleep'' then
        let dur = readTimespec e pid (args ! 0);
            s1 = s\<lparr>vclock := Some (Advance dur vc)\<rparr>;
            s2 = emitSyscallEvent name pid (DVirtualSleep dur) [] dur [] s1
        in Some (s2, ReturnValueResp (ID req) 0,
             if args ! 1 \<noteq> 0 then [(pid, args ! 1, zero_timespec)] else [])
      else if name = ''clock_nanosleep'' then
        let dur0 = readTimespec e pid (args ! 2);
            dur = (if args ! 1 AND 1 \<noteq> 0 then
                     (if dur0 > elapsed vc then wrap64 (dur0 - elapsed vc) else 0)
                   else dur0);
            s1 = s\<lparr>vclock := Some (Advance dur vc)\<rparr>;
            s2 = emitSyscallEvent name pid (DVirtualSleep dur) [] dur [] s1
        in Some (s2, ReturnValueResp (ID req) 0,
             if args ! 3 \<noteq> 0 then [(pid, args ! 3, zero_timespec)] else [])
      else if name = ''clock_gettime'' then
        let ts = Timespec vc; buf = put_timespec ts in
        if \<not> (args ! 1 \<noteq> 0 \<and> env_write e pid (args ! 1) buf) then Some (s, AllowResp (ID req), [])
        else Some (emitSyscallEvent name pid (DVirtualTime (fst ts) (snd ts)) [] 0 [] s,
               ReturnValueResp (ID req) 0, [(pid, args ! 1, buf)])
      else None)"

section \<open>Hold rules\<close>

definition glob_passes :: "FaultRule \<Rightarrow> string \<Rightarrow> bool" where
  "glob_passes r path \<longleftrightarrow> MatchPath r path \<or> MatchPath r (path_dir path @ ''/'')"

definition hold_applies :: "string \<Rightarrow> string \<Rightarrow> FaultRule \<Rightarrow> bool" where
  "hold_applies name path r \<longleftrightarrow>
     (IsFileSyscall name \<and> path \<noteq> [] \<and> PathGlob r \<noteq> [] \<longrightarrow> glob_passes r path)"

fun find_hold :: "string \<Rightarrow> string \<Rightarrow> (string \<rightharpoonup> HoldQueue) \<Rightarrow> FaultRule list \<Rightarrow> (FaultRule \<times> HoldQueue) option" where
  "find_hold name path qs [] = None"
| "find_hold name path qs (r # rs) =
     (if \<not> hold_applies name path r then find_hold name path qs rs
      else case qs (HoldTag r) of None \<Rightarrow> find_hold name path qs rs | Some q \<Rightarrow> Some (r, q))"

text \<open>The goroutine after the decision has arrived on its channel.\<close>

definition finish_hold :: "string \<times> int \<Rightarrow> HeldNotif \<Rightarrow> HoldDecision \<Rightarrow> Session \<Rightarrow> Session \<times> NotifResp" where
  "finish_hold dest h d s =
     (if Allow d then
        (emit (HeldNotif.SyscallName h) (PID h) dest DReleasedAllow (Path h) 0 [] s, AllowResp (ReqID h))
      else
        (emit (HeldNotif.SyscallName h) (PID h) dest (DReleasedDeny (DErrno d)) (Path h) 0 [] s,
         DenyResp (ReqID h) (DErrno d)))"

definition enter_hold :: "string \<Rightarrow> string \<Rightarrow> string \<times> int \<Rightarrow> int \<Rightarrow> NotifReq \<Rightarrow> FaultRule \<Rightarrow> HoldQueue \<Rightarrow>
    Session \<Rightarrow> Session \<times> Outcome" where
  "enter_hold name path dest fd req r q s =
     (let s1 = emit name (ReqPid req) dest (DHold (HoldTag r)) path 0 [] s;
          h = \<lparr>ReqID = ID req, ListenerFd = fd, SyscallName = name, PID = ReqPid req, Path = path\<rparr>;
          (q', out) = Enqueue h q;
          s2 = s1\<lparr>holdQueues := (holdQueues s1)(HoldTag r \<mapsto> q')\<rparr>
      in case out of [] \<Rightarrow> (s2, Waiting (HoldTag r) h)
         | (h', d) # _ \<Rightarrow> (let (s3, resp) = finish_hold dest h' d s2 in (s3, Answered resp)))"

section \<open>Fault rules\<close>

datatype gate = Skip | SystemBreak | Pass

definition path_gate :: "string \<Rightarrow> string \<Rightarrow> FaultRule \<Rightarrow> gate" where
  "path_gate name path r =
     (if (IsFileSyscall name \<or> IsFdSyscall name) \<and> path \<noteq> [] then
        (if PathGlob r \<noteq> [] then (if glob_passes r path then Pass else Skip)
         else if IsSystemPath path then SystemBreak else Pass)
      else Pass)"

definition dest_passes :: "string \<Rightarrow> string \<times> int \<Rightarrow> FaultRule \<Rightarrow> bool" where
  "dest_passes name dest r \<longleftrightarrow>
     \<not> (DestAddr r \<noteq> [] \<and> name = ''connect'' \<and>
        (fst dest = [] \<or> fst dest @ '':'' @ show_int (snd dest) \<noteq> DestAddr r))"

definition fire_decision :: "decider option \<Rightarrow> (nat \<Rightarrow> rat) \<Rightarrow> FaultRule \<Rightarrow> bool \<times> FaultRule" where
  "fire_decision dec g r =
     (let fire0 = flt (Fin (g 0)) (Probability r) in
      case dec of None \<Rightarrow> (fire0, r)
      | Some f \<Rightarrow>
        (if Mode r \<noteq> ''stochastic'' then
           let (occ, r') = NextProbabilityOccurrence r; (fire, pinned) = f r' occ
           in (if pinned then fire else fire0, r')
         else (fire0, r)))"

datatype verdict = Fires FaultRule | Passes Decision

text \<open>
  The loop over the merged rules: the rules with their counters as the loop leaves them, the
  generator, and either the rule that decides or the decision of the fall-through.
\<close>

fun rule_loop :: "string \<Rightarrow> string \<Rightarrow> string \<times> int \<Rightarrow> decider option \<Rightarrow> FaultRule list \<Rightarrow> (nat \<Rightarrow> rat) \<Rightarrow>
    FaultRule list \<times> (nat \<Rightarrow> rat) \<times> verdict" where
  "rule_loop name path dest dec [] g = ([], g, Passes DAllow)"
| "rule_loop name path dest dec (r # rs) g =
     (case path_gate name path r of
        SystemBreak \<Rightarrow> (r # rs, g, Passes DSystemPath)
      | Skip \<Rightarrow> (let (rs', g', v) = rule_loop name path dest dec rs g in (r # rs', g', v))
      | Pass \<Rightarrow>
        (if \<not> dest_passes name dest r then
           (let (rs', g', v) = rule_loop name path dest dec rs g in (r # rs', g', v))
         else let (should, r1) = ShouldFire r in
           if \<not> should then
             (let (rs', g', v) = rule_loop name path dest dec rs g in (r1 # rs', g', v))
           else let (fire, r2) = fire_decision dec g r1; g1 = (\<lambda>i. g (Suc i)) in
             if fire \<and> Action r2 \<noteq> ActionHold then (r2 # rs, g1, Fires r2)
             else (let (rs', g', v) = rule_loop name path dest dec rs g1 in (r2 # rs', g', v))))"

definition apply_verdict :: "string \<Rightarrow> string \<Rightarrow> string \<times> int \<Rightarrow> NotifReq \<Rightarrow> verdict \<Rightarrow> Session \<Rightarrow>
    Session \<times> NotifResp \<times> int" where
  "apply_verdict name path dest req v s =
     (case v of
        Passes decision \<Rightarrow> (emit name (ReqPid req) dest decision path 0 [] s, AllowResp (ID req), 0)
      | Fires r \<Rightarrow>
        (case Action r of
           ActionDelay \<Rightarrow>
             (let virtual = (case vclock s of Some vc \<Rightarrow> enabled vc | None \<Rightarrow> False);
                  s1 = (if virtual then s\<lparr>vclock := map_option (Advance (Delay r)) (vclock s)\<rparr> else s)
              in (emit name (ReqPid req) dest (DDelay (Delay r)) path (Delay r) [Label r, Op r] s1,
                  AllowResp (ID req), if virtual then 0 else Delay r))
         | ActionDeny \<Rightarrow>
             (emit name (ReqPid req) dest (DDeny (Errno r)) path 0 [Label r, Op r] s,
              DenyResp (ID req) (Errno r), 0)
         | _ \<Rightarrow> (emit name (ReqPid req) dest DTrace path 0 [] s, AllowResp (ID req), 0)))"

section \<open>The handler\<close>

definition handle_rules :: "string \<Rightarrow> string \<Rightarrow> string \<times> int \<Rightarrow> NotifReq \<Rightarrow> (int \<Rightarrow> FaultRule list) \<Rightarrow>
    Session \<Rightarrow> Handled" where
  "handle_rules name path dest req rmap s =
     (let nr = sint (Nr (Data req));
          static = rmap nr;
          dyn = getDynamicRules s nr;
          (all, g, v) = rule_loop name path dest (ProbabilityDecider s) (static @ dyn) (rng s);
          s1 = s\<lparr>rng := g, dynamicRules := (dynamicRules s)(nr := drop (length static) all)\<rparr>;
          (s2, resp, sl) = apply_verdict name path dest req v s1
      in \<lparr>ses = s2, rule_map = rmap(nr := take (length static) all), outcome = Answered resp,
          mem_writes = [], slept = sl\<rparr>)"

definition handleNotification :: "arch \<Rightarrow> Env \<Rightarrow> int \<Rightarrow> NotifReq \<Rightarrow> (int \<Rightarrow> FaultRule list) \<Rightarrow> Session \<Rightarrow> Handled" where
  "handleNotification a e fd req rmap s0 =
     (let nr = sint (Nr (Data req));
          name = SyscallName a nr;
          (path, s) = resolve_path e name req s0;
          dest = read_dest e name req;
          timed = (case vclock s of None \<Rightarrow> None
                   | Some vc \<Rightarrow> (if enabled vc then handleTimeSyscall e req name vc s else None))
      in case timed of
           Some (s1, resp, ws) \<Rightarrow>
             \<lparr>ses = s1, rule_map = rmap, outcome = Answered resp, mem_writes = ws, slept = 0\<rparr>
         | None \<Rightarrow>
           (case find_hold name path (holdQueues s) (getHoldRules s nr) of
              Some (r, q) \<Rightarrow>
                (let (s1, out) = enter_hold name path dest fd req r q s
                 in \<lparr>ses = s1, rule_map = rmap, outcome = out, mem_writes = [], slept = 0\<rparr>)
            | None \<Rightarrow> handle_rules name path dest req rmap s))"

section \<open>The rule loop\<close>

lemma ShouldFire_keeps:
  "ShouldFire r = (b, r') \<Longrightarrow> Action r' = Action r \<and> Errno r' = Errno r \<and> Mode r' = Mode r \<and>
     PathGlob r' = PathGlob r \<and> DestAddr r' = DestAddr r \<and> Probability r' = Probability r"
  by (auto simp: ShouldFire_def Let_def split: FaultTrigger.splits)

lemma fire_decision_keeps:
  "fire_decision dec g r = (b, r') \<Longrightarrow> Action r' = Action r \<and> Errno r' = Errno r \<and> Mode r' = Mode r \<and>
     PathGlob r' = PathGlob r \<and> DestAddr r' = DestAddr r"
  by (auto simp: fire_decision_def NextProbabilityOccurrence_def Let_def
      split: option.splits if_splits prod.splits)

text \<open>One rule of the loop: pass it by (with its new counters) or end the loop with a verdict.\<close>

datatype rule_step = Next FaultRule "nat \<Rightarrow> rat" | Stop FaultRule "nat \<Rightarrow> rat" verdict

definition one_rule :: "string \<Rightarrow> string \<Rightarrow> string \<times> int \<Rightarrow> decider option \<Rightarrow> FaultRule \<Rightarrow> (nat \<Rightarrow> rat) \<Rightarrow> rule_step" where
  "one_rule name path dest dec r g =
     (case path_gate name path r of
        SystemBreak \<Rightarrow> Stop r g (Passes DSystemPath)
      | Skip \<Rightarrow> Next r g
      | Pass \<Rightarrow>
        (if \<not> dest_passes name dest r then Next r g
         else let (should, r1) = ShouldFire r in
           if \<not> should then Next r1 g
           else let (fire, r2) = fire_decision dec g r1; g1 = (\<lambda>i. g (Suc i)) in
             if fire \<and> Action r2 \<noteq> ActionHold then Stop r2 g1 (Fires r2) else Next r2 g1))"

lemma rule_loop_Cons:
  "rule_loop name path dest dec (r # rs) g =
     (case one_rule name path dest dec r g of
        Next r' g' \<Rightarrow> (let (rs', g'', v) = rule_loop name path dest dec rs g' in (r' # rs', g'', v))
      | Stop r' g' v \<Rightarrow> (r' # rs, g', v))"
  by (simp add: one_rule_def Let_def split: gate.splits prod.splits)

lemma Stop_not_DAllow: "one_rule name path dest dec r g = Stop r' g' v \<Longrightarrow> v \<noteq> Passes DAllow"
  by (auto simp: one_rule_def Let_def split: gate.splits prod.splits if_splits)

declare rule_loop.simps(2) [simp del]

lemma rule_loop_length:
  "rule_loop name path dest dec rs g = (rs', g', v) \<Longrightarrow> length rs' = length rs"
  by (induction rs arbitrary: g rs' g' v)
    (auto simp: rule_loop_Cons split: rule_step.splits prod.splits)

text \<open>Rules are consulted in order and the first one that decides wins. Consulting \<open>xs\<close> and then \<open>ys\<close>
  is consulting \<open>xs\<close>, and \<open>ys\<close> only if no rule of \<open>xs\<close> decided; then the rules of \<open>ys\<close>, their counters and
  the random draws are untouched. In particular static rules take precedence over dynamic ones.\<close>

theorem rule_loop_append:
  "rule_loop name path dest dec (xs @ ys) g =
     (let (xs', g', v) = rule_loop name path dest dec xs g in
      if v = Passes DAllow then
        (let (ys', g'', w) = rule_loop name path dest dec ys g' in (xs' @ ys', g'', w))
      else (xs' @ ys, g', v))"
proof (induction xs arbitrary: g)
  case (Cons x xs)
  show ?case
    by (cases "one_rule name path dest dec x g")
      (auto simp: rule_loop_Cons Cons Let_def dest: Stop_not_DAllow split: prod.splits)
qed (simp split: prod.splits)

lemma one_rule_Fires:
  assumes "one_rule name path dest dec r g = Stop r' g' (Fires q)"
  shows "q = r' \<and> path_gate name path r = Pass \<and> dest_passes name dest r \<and> fst (ShouldFire r) \<and>
    Action q = Action r \<and> Errno q = Errno r \<and> Action q \<noteq> ActionHold"
  using assms
  by (auto simp: one_rule_def Let_def split: gate.splits prod.splits if_splits
      dest!: ShouldFire_keeps fire_decision_keeps)

lemma rule_loop_Fires:
  "rule_loop name path dest dec rs g = (rs', g', Fires q) \<Longrightarrow>
   \<exists>r \<in> set rs. path_gate name path r = Pass \<and> dest_passes name dest r \<and> fst (ShouldFire r) \<and>
     Action q = Action r \<and> Errno q = Errno r \<and> Action r \<noteq> ActionHold"
proof (induction rs arbitrary: g rs')
  case (Cons r rs)
  show ?case
  proof (cases "one_rule name path dest dec r g")
    case (Next r1 g1)
    with Cons.prems obtain rs1 where "rule_loop name path dest dec rs g1 = (rs1, g', Fires q)"
      by (auto simp: rule_loop_Cons split: prod.splits)
    from Cons.IH [OF this] show ?thesis by auto
  next
    case (Stop r1 g1 v)
    with Cons.prems have "one_rule name path dest dec r g = Stop r1 g1 (Fires q)"
      by (simp add: rule_loop_Cons)
    from one_rule_Fires [OF this] show ?thesis by auto
  qed
qed simp

section \<open>Pinned decisions\<close>

definition forget_draws :: "rule_step \<Rightarrow> FaultRule \<times> verdict option" where
  "forget_draws st = (case st of Next r g \<Rightarrow> (r, None) | Stop r g v \<Rightarrow> (r, Some v))"

lemma one_rule_pinned:
  fixes f :: decider
  assumes "\<And>r n. snd (f r n)" and "Mode r \<noteq> ''stochastic''"
  shows "forget_draws (one_rule name path dest (Some f) r g) = forget_draws (one_rule name path dest (Some f) r h)"
proof -
  have "Mode r1 \<noteq> ''stochastic'' \<Longrightarrow> fire_decision (Some f) g r1 = fire_decision (Some f) h r1" for r1
    using assms(1) by (simp add: fire_decision_def Let_def split: prod.splits) (metis snd_conv)
  moreover have "ShouldFire r = (b, r1) \<Longrightarrow> Mode r1 \<noteq> ''stochastic''" for b r1
    using ShouldFire_keeps assms(2) by metis
  ultimately show ?thesis
    by (auto simp: one_rule_def forget_draws_def Let_def split: gate.splits prod.splits)
qed

text \<open>When the plan pins every occurrence, chance plays no part: with no stochastic rule among them,
  the decision and the counters after the loop are the same whatever the generator draws.\<close>

theorem pinned_loop_deterministic:
  fixes f :: decider
  assumes "\<And>r n. snd (f r n)" and "list_all (\<lambda>r. Mode r \<noteq> ''stochastic'') rs"
  shows "fst (rule_loop name path dest (Some f) rs g) = fst (rule_loop name path dest (Some f) rs h) \<and>
    snd (snd (rule_loop name path dest (Some f) rs g)) = snd (snd (rule_loop name path dest (Some f) rs h))"
  using assms(2)
proof (induction rs arbitrary: g h)
  case (Cons r rs)
  have one: "forget_draws (one_rule name path dest (Some f) r g) = forget_draws (one_rule name path dest (Some f) r h)"
    by (rule one_rule_pinned) (use assms(1) Cons.prems in simp_all)
  show ?case
  proof (cases "one_rule name path dest (Some f) r g")
    case (Next r1 g1)
    with one obtain h1 where "one_rule name path dest (Some f) r h = Next r1 h1"
      by (auto simp: forget_draws_def split: rule_step.splits)
    then show ?thesis
      using Next Cons.IH [of g1 h1] Cons.prems by (simp add: rule_loop_Cons split_beta)
  next
    case (Stop r1 g1 v)
    with one obtain h1 where "one_rule name path dest (Some f) r h = Stop r1 h1 v"
      by (auto simp: forget_draws_def split: rule_step.splits)
    then show ?thesis using Stop by (simp add: rule_loop_Cons)
  qed
qed simp

theorem pinned_loop_deterministic_witness:
  "snd (snd (rule_loop ''write'' [] ([], 0) (Some (\<lambda>r n. (n = 1, True))) [deny_rule ''write'' 5 []] (\<lambda>_. 0))) =
   snd (snd (rule_loop ''write'' [] ([], 0) (Some (\<lambda>r n. (n = 1, True))) [deny_rule ''write'' 5 []] (\<lambda>_. 1 / 2)))"
  using pinned_loop_deterministic [of "\<lambda>r n. (n = 1, True)" "[deny_rule ''write'' 5 []]"]
  by (simp add: deny_rule_def)

section \<open>The handler\<close>

lemma effect_simps [simp]:
  "effect_of (AllowResp i) = Executes"
  "effect_of (ReturnValueResp i v) = Returns v"
  "e \<noteq> 0 \<Longrightarrow> effect_of (DenyResp i e) = Fails e"
  "effect_of (DenyResp i 0) = Returns 0"
  by (simp_all add: effect_of_def AllowResp_def ReturnValueResp_def DenyResp_def
      SECCOMP_USER_NOTIF_FLAG_CONTINUE_def)

lemma effect_Deny: "effect_of (DenyResp i e) = (if e = 0 then Returns 0 else Fails e)"
  by simp

lemma time_never_fails:
  "handleTimeSyscall e req name vc s = Some (s', resp, ws) \<Longrightarrow> effect_of resp \<noteq> Fails err"
  by (auto simp: handleTimeSyscall_def Let_def split: if_splits)

lemma enter_hold_closed_allows:
  "enter_hold name path dest fd req r q s = (s', Answered resp) \<Longrightarrow> effect_of resp = Executes"
  by (auto simp: enter_hold_def Let_def Enqueue_def finish_hold_def allow_decision_def
      split: if_splits prod.splits)

lemma apply_verdict_fails:
  assumes "apply_verdict name path dest req v s = (s', resp, sl)" and "effect_of resp = Fails err"
  shows "\<exists>r. v = Fires r \<and> Action r = ActionDeny \<and> Errno r = err \<and> err \<noteq> 0"
  using assms
  by (auto simp: apply_verdict_def Let_def effect_Deny split: verdict.splits FaultAction.splits if_splits)


definition demo_env :: "byte list res \<Rightarrow> string res \<Rightarrow> Env" where
  "demo_env m l = \<lparr>env_pread = (\<lambda>_ _ _. m), env_readlink = (\<lambda>_ _. l), env_write = (\<lambda>_ _ _. True)\<rparr>"

definition demo_req :: "32 word \<Rightarrow> 64 word list \<Rightarrow> NotifReq" where
  "demo_req nr args = \<lparr>ID = 7, ReqPid = 100, Data = \<lparr>Nr = nr, Arch = nativeArch Amd64, Args = args\<rparr>\<rparr>"

lemma amd64_names:
  "SyscallName Amd64 1 = ''write''" "SyscallName Amd64 257 = ''openat''"
  "SyscallName Amd64 230 = ''clock_nanosleep''" "SyscallName Amd64 228 = ''clock_gettime''"
  "SyscallName Amd64 35 = ''nanosleep''"
  by (simp_all add: SyscallName_def syscallNames_def syscallNames_amd64_def)

lemmas demo_handler = handleNotification_def handle_rules_def resolve_path_def read_dest_def demo_req_def
  demo_env_def demo_session_def NewSession_def getHoldRules_def getDynamicRules_def deny_rule_def
  apply_verdict_def amd64_names IsFileSyscall_def IsFdSyscall_def ReadStringFromProcess_def
  rule_loop.simps(2) path_gate_def dest_passes_def ShouldFire_def fire_decision_def bump_def Let_def


text \<open>Holds come first: when a hold rule with a registered, open queue applies to a request, the handler
  waits on that queue and no fault rule is looked at; the static and dynamic rules keep their counters
  and no random number is drawn.\<close>

theorem hold_has_priority:
  assumes "vclock s = None"
    and "find_hold (SyscallName a (sint (Nr (Data req))))
      (fst (resolve_path e (SyscallName a (sint (Nr (Data req)))) req s)) (holdQueues s)
      (getHoldRules s (sint (Nr (Data req)))) = Some (r, q)"
    and "\<not> closed q"
  shows "\<exists>h. ReqID h = ID req \<and>
    outcome (handleNotification a e fd req rmap s) = Waiting (HoldTag r) h \<and>
    holdQueues (ses (handleNotification a e fd req rmap s)) =
      (holdQueues s)(HoldTag r \<mapsto> q\<lparr>pending := pending q @ [h]\<rparr>) \<and>
    rule_map (handleNotification a e fd req rmap s) = rmap \<and>
    dynamicRules (ses (handleNotification a e fd req rmap s)) = dynamicRules s \<and>
    rng (ses (handleNotification a e fd req rmap s)) = rng s"
proof -
  let ?nr = "sint (Nr (Data req))"
  let ?name = "SyscallName a ?nr"
  obtain path s1 where rp: "resolve_path e ?name req s = (path, s1)" by fastforce
  have keep: "vclock s1 = None" "holdQueues s1 = holdQueues s" "holdRules s1 = holdRules s"
    "dynamicRules s1 = dynamicRules s" "rng s1 = rng s"
    using rp assms(1) by (auto simp: resolve_path_def Let_def split: if_splits sum.splits)
  have f: "find_hold ?name path (holdQueues s1) (getHoldRules s1 ?nr) = Some (r, q)"
    using assms(2) by (simp add: rp keep getHoldRules_def)
  let ?h = "\<lparr>ReqID = ID req, ListenerFd = fd, SyscallName = ?name, PID = ReqPid req, Path = path\<rparr>"
  let ?s2 = "emit ?name (ReqPid req) (read_dest e ?name req) (DHold (HoldTag r)) path 0 [] s1"
  have em: "holdQueues ?s2 = holdQueues s1" "dynamicRules ?s2 = dynamicRules s1" "rng ?s2 = rng s1"
    by (simp_all add: emit_def emitSyscallEvent_def emitSyscallEventDest_def Let_def)
  have "handleNotification a e fd req rmap s =
      \<lparr>ses = ?s2\<lparr>holdQueues := (holdQueues s)(HoldTag r \<mapsto> q\<lparr>pending := pending q @ [?h]\<rparr>)\<rparr>,
       rule_map = rmap, outcome = Waiting (HoldTag r) ?h, mem_writes = [], slept = 0\<rparr>"
    using assms(3) f
    by (simp add: handleNotification_def rp keep Let_def enter_hold_def Enqueue_def em)
  then show ?thesis by (intro exI [of _ ?h]) (simp add: em keep)
qed

definition hold_rule :: "string \<Rightarrow> string \<Rightarrow> FaultRule" where
  "hold_rule name tag = (deny_rule name 0 [])\<lparr>Action := ActionHold, HoldTag := tag\<rparr>"

theorem hold_has_priority_witness:
  "\<exists>h. outcome (handleNotification Amd64 (demo_env (Inl ''e'') (Inr ''/data/x'')) 3 (demo_req 1 [4])
      (\<lambda>nr. [deny_rule ''write'' 5 []])
      (AddHoldRules Amd64 ''b'' [hold_rule ''write'' []] (RegisterHoldQueue ''b'' (demo_session [])))) =
    Waiting ''b'' h"
proof -
  let ?s = "AddHoldRules Amd64 ''b'' [hold_rule ''write'' []] (RegisterHoldQueue ''b'' (demo_session []))"
  let ?r = "(hold_rule ''write'' [])\<lparr>HoldTag := ''b''\<rparr>"
  have v: "vclock ?s = None"
    by (simp add: AddHoldRules_def RegisterHoldQueue_def demo_session_def NewSession_def)
  have f: "find_hold (SyscallName Amd64 (sint (Nr (Data (demo_req 1 [4]))))) p (holdQueues ?s)
      (getHoldRules ?s (sint (Nr (Data (demo_req 1 [4]))))) = Some (?r, NewHoldQueue)" for p
    by (simp add: AddHoldRules_def RegisterHoldQueue_def demo_session_def NewSession_def getHoldRules_def
        demo_req_def hold_rule_def deny_rule_def amd64_numbers amd64_names hold_applies_def IsFileSyscall_def)
  have "HoldTag ?r = ''b''" "\<not> closed NewHoldQueue" by (simp_all add: NewHoldQueue_def)
  then show ?thesis
    using hold_has_priority [OF v f, where e = "demo_env (Inl ''e'') (Inr ''/data/x'')" and fd = 3
        and rmap = "\<lambda>nr. [deny_rule ''write'' 5 []]"] by auto
qed

text \<open>A path filter is skipped when the path is not known. The path is left empty when it cannot be
  read and also when a descriptor refers to a system path, and an empty path passes every filter:
  a rule limited to \<open>/data/*\<close> denies a write to \<open>/dev/null\<close>, and an \<open>openat\<close> whose path argument could not
  be read.\<close>

theorem path_filter_skipped_without_path:
  "outcome (handleNotification Amd64 (demo_env m (Inr ''/dev/null'')) fd (demo_req 1 [4])
     (\<lambda>nr. [deny_rule ''write'' 5 ''/data/*'']) (demo_session [])) = Answered (DenyResp 7 5) \<and>
   outcome (handleNotification Amd64 (demo_env (Inl err) l) fd (demo_req 257 [4, 64])
     (\<lambda>nr. [deny_rule ''openat'' 5 ''/data/*'']) (demo_session [])) = Answered (DenyResp 7 5)"
proof -
  have sys: "IsSystemPath ''/dev/null''"
    by (simp add: IsSystemPath_def SystemPathPrefixes_def has_prefix_def)
  show ?thesis by (simp add: demo_handler sys)
qed

section \<open>Virtual time\<close>

lemma sint_word64: "- (2 ^ 63) \<le> x \<Longrightarrow> x < 2 ^ 63 \<Longrightarrow> sint (word_of_int x :: 64 word) = x"
  by (simp add: signed_of_int signed_take_bit_int_eq_self)

lemma go_div_bound:
  assumes "- (2 ^ 63) \<le> x" and "x < 2 ^ 63" and "1 < b"
  shows "- (2 ^ 63) \<le> go_div x b * b \<and> go_div x b * b < 2 ^ 63"
    and "- (2 ^ 63) \<le> go_div x b \<and> go_div x b < 2 ^ 63"
    and "- b < go_rem x b \<and> go_rem x b < b"
proof -
  define y where "y = \<bar>x\<bar>"
  have y0: "0 \<le> y" by (simp add: y_def)
  have m: "0 \<le> y mod b" "y mod b < b" using assms(3) by simp_all
  have e: "y div b * b = y - y mod b" by (simp add: minus_mod_eq_div_mult)
  have d0: "0 \<le> y div b" using y0 assms(3) by (simp add: pos_imp_zdiv_nonneg_iff)
  have dy: "y div b \<le> y" using y0 assms(3) by (simp add: zdiv_mono2 [of y 1 b, simplified])
  have dby: "0 \<le> y div b * b" "y div b * b \<le> y"
    subgoal using d0 assms(3) by simp
    subgoal using e m(1) by linarith
    done
  have xs: "go_div x b = (if x < 0 then - (y div b) else y div b)"
    "go_rem x b = (if x < 0 then - (y mod b) else y mod b)"
    using assms(3) by (auto simp: go_div_pos go_rem_pos y_def)
  show "- (2 ^ 63) \<le> go_div x b * b \<and> go_div x b * b < 2 ^ 63"
    using dby assms(1,2) by (auto simp: xs y_def)
  show "- (2 ^ 63) \<le> go_div x b \<and> go_div x b < 2 ^ 63"
    using d0 dy assms(1,2) by (auto simp: xs y_def)
  have "- b < - (y mod b)" "- (y mod b) < b" "- b < y mod b" using m assms(3) by linarith+
  with m(2) show "- b < go_rem x b \<and> go_rem x b < b" by (simp add: xs del: minus_mod_self2)
qed

text \<open>What the target reads from the clock is the virtual time: the sixteen bytes that
  \<open>clock_gettime\<close> stores are a \<open>timespec\<close> from which the elapsed time is read back exactly.\<close>

theorem virtual_time_roundtrip:
  assumes "- (2 ^ 63) \<le> elapsed vc" and "elapsed vc < 2 ^ 63" and "addr \<noteq> 0"
    and "env_pread e pid addr 16 = Inr (put_timespec (Timespec vc))"
  shows "readTimespec e pid addr = elapsed vc"
proof -
  let ?b = "1000000000 :: int"
  let ?s = "go_div (elapsed vc) ?b" and ?n = "go_rem (elapsed vc) ?b"
  note B = go_div_bound [OF assms(1,2), of ?b, simplified]
  have s: "sint (word_of_int ?s :: 64 word) = ?s" by (rule sint_word64) (use B(2) in simp_all)
  have n: "sint (word_of_int ?n :: 64 word) = ?n" by (rule sint_word64) (use B(3) in simp_all)
  have "wrap64 (?s * ?b) = ?s * ?b" by (rule wrap64_id) (use B(1) in simp_all)
  moreover have "wrap64 (?s * ?b + ?n) = elapsed vc"
    using assms(1,2) by (simp add: go_div_rem wrap64_id)
  moreover have "get_uint64 (put_uint64 w) = w" for w using get_put_uint64 [of w "[]"] by simp
  ultimately show ?thesis
    using assms(3,4) s n
    by (simp add: readTimespec_def ReadFromProcess_def put_timespec_def Timespec_def Let_def)
qed

theorem virtual_time_roundtrip_witness:
  "readTimespec (demo_env (Inr (put_timespec (Timespec \<lparr>enabled = True, elapsed = 1500000000\<rparr>))) (Inl [])) 100 64
     = 1500000000"
  using virtual_time_roundtrip [of "\<lparr>enabled = True, elapsed = 1500000000\<rparr>" 64
      "demo_env (Inr (put_timespec (Timespec \<lparr>enabled = True, elapsed = 1500000000\<rparr>))) (Inl [])" 100]
  by (simp add: demo_env_def)

text \<open>An absolute sleep ends at the requested time and never moves the clock backwards: afterwards
  the virtual time is the later of the time before and the time asked for.\<close>

theorem absolute_sleep:
  assumes "Args (Data req) ! 1 AND 1 \<noteq> 0" and "0 \<le> elapsed vc" and "elapsed vc < 2 ^ 63"
    and "readTimespec e (ReqPid req) (Args (Data req) ! 2) < 2 ^ 63"
  shows "\<exists>s' ws. handleTimeSyscall e req ''clock_nanosleep'' vc s = Some (s', ReturnValueResp (ID req) 0, ws) \<and>
    map_option elapsed (vclock s') = Some (max (elapsed vc) (readTimespec e (ReqPid req) (Args (Data req) ! 2)))"
proof -
  let ?t = "readTimespec e (ReqPid req) (Args (Data req) ! 2)"
  have keep: "vclock (emitSyscallEvent n p d pa la ex z) = vclock z" for n p d pa la ex z
    by (simp add: emitSyscallEvent_def emitSyscallEventDest_def Let_def)
  have "wrap64 (elapsed vc + (if ?t > elapsed vc then wrap64 (?t - elapsed vc) else 0)) = max (elapsed vc) ?t"
    using assms(2-4) by (auto simp: wrap64_id max_def)
  moreover have "Args (Data req) ! Suc 0 AND 1 \<noteq> 0" using assms(1) by simp
  ultimately show ?thesis
    by (cases "?t > elapsed vc") (simp_all add: handleTimeSyscall_def Let_def keep Advance_def)
qed

theorem absolute_sleep_witness:
  "\<exists>s' ws. handleTimeSyscall (demo_env (Inr (put_timespec (2, 500))) (Inl [])) (demo_req 230 [0, 1, 64, 0])
      ''clock_nanosleep'' \<lparr>enabled = True, elapsed = 7\<rparr> (demo_session []) = Some (s', ReturnValueResp 7 0, ws) \<and>
    map_option elapsed (vclock s') = Some 2000000500"
proof -
  let ?vc = "\<lparr>enabled = True, elapsed = 7\<rparr>" and ?e = "demo_env (Inr (put_timespec (2, 500))) (Inl [])"
  have "Timespec \<lparr>enabled = True, elapsed = 2000000500\<rparr> = (2, 500)"
    by (simp add: Timespec_def go_div_pos go_rem_pos)
  then have t: "readTimespec ?e 100 64 = 2000000500"
    by (simp add: readTimespec_def ReadFromProcess_def demo_env_def put_timespec_def
        get_put_uint64 [of _ "[]", simplified] wrap64_def)
  then show ?thesis
    using absolute_sleep [of "demo_req 230 [0, 1, 64, 0]" ?vc ?e "demo_session []"] by (simp add: demo_req_def)
qed

text \<open>A relative sleep trusts the target: a negative duration, which the kernel would reject, moves
  the virtual clock backwards.\<close>

theorem negative_sleep_rewinds_clock:
  "\<exists>s' ws. handleTimeSyscall (demo_env (Inr (put_timespec (- 3, 0))) l) (demo_req 35 [64, 0]) ''nanosleep''
      \<lparr>enabled = True, elapsed = 5000000000\<rparr> (demo_session []) = Some (s', ReturnValueResp 7 0, ws) \<and>
    map_option elapsed (vclock s') = Some 2000000000"
proof -
  have t: "readTimespec (demo_env (Inr (put_timespec (- 3, 0))) l) 100 64 = - 3000000000"
    by (simp add: readTimespec_def ReadFromProcess_def demo_env_def put_timespec_def
        get_put_uint64 [of _ "[]", simplified] wrap64_def)
  then show ?thesis
    by (simp add: handleTimeSyscall_def demo_req_def Let_def Advance_def wrap64_def emitSyscallEvent_def
        emitSyscallEventDest_def)
qed

end
