(* ===== verification/Supervisor.thy ===== *)
theory Supervisor
  imports Notification
begin

text \<open>
  The supervisor around the handlers: \<open>notificationLoop\<close> and \<open>checkSupervisorExit\<close> of
  \<open>internal/engine/launch_linux.go\<close> as functions of what the kernel and the teardown signals deliver, and
  the concurrent system of handlers, test code and teardown as a step relation.

  A step of the system is one atomic action of one goroutine: a notification is received and handled
  up to its answer or to its wait on a hold queue; test code releases held notifications, installs or
  removes rules; a waiting handler sees its context cancelled. The invariants say that no notification
  is answered twice, that none is forgotten, and when teardown leaves none waiting.
\<close>

section \<open>The notification loop\<close>

datatype loop_signal = NoSignal | CtxDone go_error | StopAsked

record Round =
  rsignal :: loop_signal
  rpoll :: "go_error + bool"
  rrecv :: "go_error + NotifReq"

text \<open>The requests handed to handlers, the count of dropped notifications, and how the loop ended:
  \<open>None\<close> while it is still running when the rounds are used up.\<close>

fun notificationLoop :: "Round list \<Rightarrow> NotifReq list \<times> nat \<times> go_error option option" where
  "notificationLoop [] = ([], 0, None)"
| "notificationLoop (r # rs) =
     (case rsignal r of
        CtxDone e \<Rightarrow> ([], 0, Some (Some e))
      | StopAsked \<Rightarrow> ([], 0, Some None)
      | NoSignal \<Rightarrow>
        (case rpoll r of
           Inl e \<Rightarrow> ([], 0, Some (if isClosedFdErr (Some e) then None else Some (wrap_err ''poll listener'' e)))
         | Inr ready \<Rightarrow>
           (if \<not> ready then notificationLoop rs
            else case rrecv r of
              Inl e \<Rightarrow>
                (if isDroppedNotifErr (Some e) then
                   (let (reqs, n, x) = notificationLoop rs in (reqs, Suc n, x))
                 else ([], 0, Some (if isClosedFdErr (Some e) then None
                                    else Some (wrap_err ''receive notification'' e))))
            | Inr req \<Rightarrow> (let (reqs, n, x) = notificationLoop rs in (req # reqs, n, x)))))"

text \<open>The declarative account: the rounds before the first one that ends the loop.\<close>

definition round_ends :: "Round \<Rightarrow> bool" where
  "round_ends r \<longleftrightarrow> rsignal r \<noteq> NoSignal \<or> (\<exists>e. rpoll r = Inl e) \<or>
     (rpoll r = Inr True \<and> (\<exists>e. rrecv r = Inl e \<and> ErrnoErr ENOENT \<notin> set e))"

definition round_req :: "Round \<Rightarrow> NotifReq list" where
  "round_req r = (case rpoll r of Inr True \<Rightarrow> (case rrecv r of Inr q \<Rightarrow> [q] | _ \<Rightarrow> []) | _ \<Rightarrow> [])"

definition round_drops :: "Round \<Rightarrow> bool" where
  "round_drops r \<longleftrightarrow> rpoll r = Inr True \<and> (\<exists>e. rrecv r = Inl e)"

text \<open>The notification loop hands every request it receives to exactly one handler, in order, and a
  notification that the kernel has already dropped is counted and survived: until a round that brings a
  teardown signal, a poll error or a receive error other than \<open>ENOENT\<close>, the loop runs on; from that round
  on it handles nothing.\<close>

theorem notificationLoop_account:
  "fst (notificationLoop rs) = concat (map round_req (takeWhile (\<lambda>r. \<not> round_ends r) rs)) \<and>
   fst (snd (notificationLoop rs)) = length (filter round_drops (takeWhile (\<lambda>r. \<not> round_ends r) rs)) \<and>
   (snd (snd (notificationLoop rs)) = None) = (list_ex round_ends rs = False)"
proof (induction rs)
  case (Cons r rs)
  then show ?case
    by (auto simp: round_ends_def round_req_def round_drops_def isDroppedNotifErr_def Let_def
        split: loop_signal.splits sum.splits prod.splits if_splits)
qed simp

section \<open>A loop that ends too early\<close>

record GracePoll =
  galive :: bool
  gteardown :: bool

definition checkSupervisorExit :: "bool \<Rightarrow> go_error option \<Rightarrow> (go_error \<Rightarrow> string) \<Rightarrow> GracePoll list \<Rightarrow> Session \<Rightarrow> Session" where
  "checkSupervisorExit teardown loopErr text polls s =
     (if teardown then s
      else if list_ex (\<lambda>p. \<not> galive p \<or> gteardown p) polls then s
      else noteSupervisorExit
        (case loopErr of None \<Rightarrow> ''loop returned without an error'' | Some e \<Rightarrow> text e) s)"

text \<open>A stranded target is always reported: the supervisor's failure is recorded exactly when nobody asked
  the loop to stop and through the whole grace period the target stayed alive without a teardown
  starting, and then the session's result carries an error.\<close>

theorem stranded_target_reported:
  assumes "\<not> supervisorFailed s"
  shows "(SupervisorFailure (checkSupervisorExit teardown loopErr text polls s) \<noteq> None) =
    (teardown = False \<and> list_all (\<lambda>p. galive p \<and> gteardown p = False) polls)"
  using assms
  by (auto simp: checkSupervisorExit_def noteSupervisorExit_def SupervisorFailure_def Let_def list_ex_iff
      list_all_iff split: option.splits if_splits)

theorem stranded_target_reported_witness:
  "SupervisorFailure (checkSupervisorExit False None (\<lambda>_. []) [\<lparr>galive = True, gteardown = False\<rparr>]
     (demo_session [])) \<noteq> None"
  using stranded_target_reported [of "demo_session []" False None "\<lambda>_. []" "[\<lparr>galive = True, gteardown = False\<rparr>]"]
  by (simp add: demo_session_def NewSession_def)

section \<open>The system of handlers\<close>

record Sup =
  sses :: Session
  smap :: "int \<Rightarrow> FaultRule list"
  swaiting :: "(HeldNotif \<times> (string \<times> int)) list"
  sanswers :: "(nat \<times> NotifResp) list"
  sreceived :: "nat list"

definition notify :: "arch \<Rightarrow> Env \<Rightarrow> int \<Rightarrow> NotifReq \<Rightarrow> Sup \<Rightarrow> Sup" where
  "notify a e fd req S =
     (let r = handleNotification a e fd req (smap S) (sses S);
          dest = read_dest e (SyscallName a (sint (Nr (Data req)))) req;
          S1 = S\<lparr>sses := ses r, smap := rule_map r, sreceived := sreceived S @ [ID req]\<rparr>
      in case outcome r of
           Answered resp \<Rightarrow> S1\<lparr>sanswers := sanswers S @ [(ID req, resp)]\<rparr>
         | Waiting tag h \<Rightarrow> S1\<lparr>swaiting := swaiting S @ [(h, dest)]\<rparr>)"

text \<open>Decisions sent on release channels wake the handlers that still wait for them; a decision for a
  handler that has left by its context stays in the channel's buffer.\<close>

fun resume :: "sends \<Rightarrow> Sup \<Rightarrow> Sup" where
  "resume [] S = S"
| "resume ((h, d) # out) S =
     (case map_of (swaiting S) h of
        None \<Rightarrow> resume out S
      | Some dest \<Rightarrow>
        (let (s', resp) = finish_hold dest h d (sses S)
         in resume out (S\<lparr>sses := s', swaiting := filter (\<lambda>w. fst w \<noteq> h) (swaiting S),
              sanswers := sanswers S @ [(ReqID h, resp)]\<rparr>)))"

inductive sup_step :: "arch \<Rightarrow> int \<Rightarrow> bool \<Rightarrow> Sup \<Rightarrow> Sup \<Rightarrow> bool" for a fd strict where
  receive: "ID req \<notin> set (sreceived S) \<Longrightarrow> sup_step a fd strict S (notify a e fd req S)"
| release: "holdQueues (sses S) tag = Some q \<Longrightarrow> hq_arrives op = [] \<Longrightarrow> hq_step op q = (q', out) \<Longrightarrow>
    sup_step a fd strict S (resume out (S\<lparr>sses := (sses S)\<lparr>holdQueues := (holdQueues (sses S))(tag \<mapsto> q')\<rparr>\<rparr>))"
| register: "(strict \<Longrightarrow> holdQueues (sses S) tag = None) \<Longrightarrow>
    sup_step a fd strict S (S\<lparr>sses := RegisterHoldQueue tag (sses S)\<rparr>)"
| add_hold: "sup_step a fd strict S (S\<lparr>sses := AddHoldRules a tag rules (sses S)\<rparr>)"
| remove_hold: "RemoveHoldRules tag (sses S) = (s', out) \<Longrightarrow> sup_step a fd strict S (resume out (S\<lparr>sses := s'\<rparr>))"
| close_all: "set tags = dom (holdQueues (sses S)) \<Longrightarrow> distinct tags \<Longrightarrow>
    CloseAllHoldQueues tags (sses S) = (s', out) \<Longrightarrow> sup_step a fd strict S (resume out (S\<lparr>sses := s'\<rparr>))"
| set_rules: "sup_step a fd strict S (S\<lparr>sses := SetDynamicFaultRules a rules (sses S)\<rparr>)"
| clear_rules: "sup_step a fd strict S (S\<lparr>sses := ClearDynamicFaultRules (sses S)\<rparr>)"
| cancelled: "(h, dest) \<in> set (swaiting S) \<Longrightarrow>
    sup_step a fd strict S (S\<lparr>swaiting := filter (\<lambda>w. fst w \<noteq> h) (swaiting S),
      sanswers := sanswers S @ [(ReqID h, AllowResp (ReqID h))]\<rparr>)"

inductive sup_reach :: "arch \<Rightarrow> int \<Rightarrow> bool \<Rightarrow> Sup \<Rightarrow> bool" for a fd strict where
  sup_init: "swaiting S = [] \<Longrightarrow> sanswers S = [] \<Longrightarrow> sreceived S = [] \<Longrightarrow>
    holdQueues (sses S) = Map.empty \<Longrightarrow> sup_reach a fd strict S"
| sup_more: "sup_reach a fd strict S \<Longrightarrow> sup_step a fd strict S S' \<Longrightarrow> sup_reach a fd strict S'"

section \<open>Accounting\<close>

definition sup_inv :: "Sup \<Rightarrow> bool" where
  "sup_inv S \<longleftrightarrow> distinct (sreceived S) \<and>
     mset (map fst (sanswers S)) + mset (map (ReqID \<circ> fst) (swaiting S)) = mset (sreceived S)"

lemma sup_inv_distinct:
  assumes "sup_inv S"
  shows "distinct (map (ReqID \<circ> fst) (swaiting S))" and "distinct (map fst (sanswers S))"
proof -
  have "mset (map fst (sanswers S) @ map (ReqID \<circ> fst) (swaiting S)) = mset (sreceived S)"
    using assms by (simp add: sup_inv_def)
  then have "distinct (map fst (sanswers S) @ map (ReqID \<circ> fst) (swaiting S))"
    using assms mset_eq_imp_distinct_iff unfolding sup_inv_def by blast
  then show "distinct (map (ReqID \<circ> fst) (swaiting S))" "distinct (map fst (sanswers S))" by simp_all
qed

lemma remove_waiting:
  assumes "distinct (map (ReqID \<circ> fst) ws)" and "h \<in> fst ` set ws"
  shows "add_mset (ReqID h) (mset (map (ReqID \<circ> fst) (filter (\<lambda>w. fst w \<noteq> h) ws))) = mset (map (ReqID \<circ> fst) ws)"
  using assms
proof (induction ws)
  case (Cons w ws)
  show ?case
  proof (cases "fst w = h")
    case True
    with Cons.prems(1) have "\<forall>x \<in> set ws. fst x \<noteq> h" by (auto simp: image_iff)
    then have "filter (\<lambda>w. fst w \<noteq> h) ws = ws" by (simp add: filter_id_conv)
    with True show ?thesis by simp
  next
    case False
    with Cons show ?thesis by auto
  qed
qed simp

lemma sup_inv_leave:
  assumes "sup_inv S" and "h \<in> fst ` set (swaiting S)"
  shows "sup_inv (S\<lparr>sses := s', swaiting := filter (\<lambda>w. fst w \<noteq> h) (swaiting S),
    sanswers := sanswers S @ [(ReqID h, resp)]\<rparr>)"
proof -
  note d = sup_inv_distinct(1) [OF assms(1)]
  have "mset (sreceived S) = mset (map fst (sanswers S)) + mset (map (ReqID \<circ> fst) (swaiting S))"
    using assms(1) by (simp add: sup_inv_def)
  with assms(1) remove_waiting [OF d assms(2)] show ?thesis by (simp add: sup_inv_def)
qed

lemma sup_inv_ses: "sup_inv (S\<lparr>sses := s'\<rparr>) = sup_inv S"
  by (simp add: sup_inv_def)

lemma sup_inv_resume: "sup_inv S \<Longrightarrow> sup_inv (resume out S)"
proof (induction out S rule: resume.induct)
  case (2 h d out S)
  show ?case
  proof (cases "map_of (swaiting S) h")
    case None
    with 2 show ?thesis by simp
  next
    case (Some dest)
    obtain s' resp where f: "finish_hold dest h d (sses S) = (s', resp)" by fastforce
    have "h \<in> fst ` set (swaiting S)" using map_of_SomeD [OF Some] by (auto intro: rev_image_eqI)
    from sup_inv_leave [OF 2(3) this] 2(2) [OF Some f [symmetric] refl] Some f show ?thesis by simp
  qed
qed simp

lemma Waiting_ReqID:
  assumes "outcome (handleNotification a e fd req rm s) = Waiting tag h"
  shows "ReqID h = ID req"
  using assms
  by (auto simp: handleNotification_def handle_rules_def enter_hold_def Enqueue_def Let_def
      split: option.splits prod.splits if_splits)

lemma sup_inv_notify:
  assumes "sup_inv S" and "ID req \<notin> set (sreceived S)"
  shows "sup_inv (notify a e fd req S)"
proof (cases "outcome (handleNotification a e fd req (smap S) (sses S))")
  case (Answered resp)
  with assms show ?thesis by (simp add: notify_def sup_inv_def Let_def)
next
  case (Waiting tag h)
  with assms Waiting_ReqID [OF Waiting] show ?thesis by (simp add: notify_def sup_inv_def Let_def)
qed

lemma sup_inv_step: "sup_step a fd strict S S' \<Longrightarrow> sup_inv S \<Longrightarrow> sup_inv S'"
proof (induction rule: sup_step.induct)
  case (cancelled h dest S)
  then have "h \<in> fst ` set (swaiting S)" by (auto intro: rev_image_eqI)
  from sup_inv_leave [OF cancelled(2) this, of "AllowResp (ReqID h)" "sses S"] show ?case by simp
qed (simp_all add: sup_inv_ses sup_inv_resume sup_inv_notify)

lemma sup_inv_reach: "sup_reach a fd strict S \<Longrightarrow> sup_inv S"
proof (induction rule: sup_reach.induct)
  case (sup_init S)
  then show ?case by (simp add: sup_inv_def)
qed (rule sup_inv_step)


section \<open>Teardown\<close>

text \<open>With fresh tags, every waiting handler is in the queue of some registered tag.\<close>

definition held_inv :: "Sup \<Rightarrow> bool" where
  "held_inv S \<longleftrightarrow> fst ` set (swaiting S) \<subseteq> \<Union> (set ` pending ` ran (holdQueues (sses S)))"

lemma emit_keeps [simp]:
  "holdQueues (emit n p d de pa la ex s) = holdQueues s"
  by (simp add: emit_def emitSyscallEvent_def emitSyscallEventDest_def Let_def)

lemma finish_hold_keeps: "finish_hold dest h d s = (s', resp) \<Longrightarrow> holdQueues s' = holdQueues s"
  by (auto simp: finish_hold_def split: if_splits)

lemma resume_effect:
  "swaiting (resume out S) = filter (\<lambda>w. fst w \<notin> fst ` set out) (swaiting S) \<and>
   holdQueues (sses (resume out S)) = holdQueues (sses S)"
proof (induction out S rule: resume.induct)
  case (2 h d out S)
  show ?case
  proof (cases "map_of (swaiting S) h")
    case None
    then have "h \<notin> fst ` set (swaiting S)" by (simp add: map_of_eq_None_iff)
    then have "filter (\<lambda>w. fst w \<notin> fst ` set ((h, d) # out)) (swaiting S) =
        filter (\<lambda>w. fst w \<notin> fst ` set out) (swaiting S)"
      by (auto intro!: filter_cong)
    with None 2(1) show ?thesis by simp
  next
    case (Some dest)
    obtain s' resp where f: "finish_hold dest h d (sses S) = (s', resp)" by fastforce
    from 2(2) [OF Some f [symmetric] refl] Some f finish_hold_keeps [OF f] show ?thesis
      by (simp add: filter_filter conj_commute)
  qed
qed simp

lemmas resume_waiting [simp] = resume_effect [THEN conjunct1]
  and resume_queues [simp] = resume_effect [THEN conjunct2]

lemma held_invI:
  "(\<And>h. h \<in> fst ` set (swaiting S) \<Longrightarrow> \<exists>t q. holdQueues (sses S) t = Some q \<and> h \<in> set (pending q)) \<Longrightarrow> held_inv S"
  by (fastforce simp: held_inv_def ran_def)

lemma held_invD:
  "held_inv S \<Longrightarrow> h \<in> fst ` set (swaiting S) \<Longrightarrow> \<exists>t q. holdQueues (sses S) t = Some q \<and> h \<in> set (pending q)"
  by (fastforce simp: held_inv_def ran_def)

lemma held_inv_resume:
  assumes "held_inv S" and "holdQueues (sses S) tag = Some q"
    and "set (pending q) \<subseteq> fst ` set out \<union> set (pending q')"
  shows "held_inv (resume out (S\<lparr>sses := (sses S)\<lparr>holdQueues := (holdQueues (sses S))(tag \<mapsto> q')\<rparr>\<rparr>))"
proof (rule held_invI)
  let ?S = "resume out (S\<lparr>sses := (sses S)\<lparr>holdQueues := (holdQueues (sses S))(tag \<mapsto> q')\<rparr>\<rparr>)"
  fix h
  assume "h \<in> fst ` set (swaiting ?S)"
  then have "h \<in> fst ` set (swaiting S)" and nout: "h \<notin> fst ` set out" by auto
  from held_invD [OF assms(1) this(1)] obtain t p
    where tp: "holdQueues (sses S) t = Some p" "h \<in> set (pending p)" by blast
  show "\<exists>t q. holdQueues (sses ?S) t = Some q \<and> h \<in> set (pending q)"
  proof (cases "t = tag")
    case True
    with tp assms(2,3) nout have "h \<in> set (pending q')" by auto
    then show ?thesis by auto
  next
    case False
    with tp show ?thesis by auto
  qed
qed

lemma hq_step_covers:
  assumes "hq_step op q = (q', out)"
  shows "set (pending q) \<subseteq> fst ` set out \<union> set (pending q')"
  using arg_cong [OF hq_step_conserve [OF assms], of set_mset] by auto

lemma held_inv_remove:
  assumes "held_inv S" and "RemoveHoldRules tag (sses S) = (s', out)"
    and "\<And>t q. holdQueues (sses S) t = Some q \<Longrightarrow> closed q \<Longrightarrow> pending q = []"
  shows "held_inv (resume out (S\<lparr>sses := s'\<rparr>))"
proof (rule held_invI)
  fix h
  assume "h \<in> fst ` set (swaiting (resume out (S\<lparr>sses := s'\<rparr>)))"
  then have "h \<in> fst ` set (swaiting S)" and nout: "h \<notin> fst ` set out" by auto
  from held_invD [OF assms(1) this(1)] obtain t p
    where tp: "holdQueues (sses S) t = Some p" "h \<in> set (pending p)" by blast
  have "t \<noteq> tag"
  proof
    assume "t = tag"
    with tp assms(2) have "out = snd (Close p)" by (auto simp: RemoveHoldRules_def Let_def)
    with tp nout assms(3) [OF tp(1)] show False
      by (auto simp: Close_def image_iff split: if_splits)
  qed
  with tp assms(2) show "\<exists>t q. holdQueues (sses (resume out (S\<lparr>sses := s'\<rparr>))) t = Some q \<and> h \<in> set (pending q)"
    by (intro exI [of _ t] exI [of _ p]) (auto simp: RemoveHoldRules_def Let_def split: option.splits)
qed

text \<open>Registered queues are empty once closed.\<close>

definition queues_inv :: "Session \<Rightarrow> bool" where
  "queues_inv s \<longleftrightarrow> (\<forall>t q. holdQueues s t = Some q \<longrightarrow> closed q \<longrightarrow> pending q = [])"

lemma resolve_path_queues: "resolve_path e name req s = (p, s') \<Longrightarrow> holdQueues s' = holdQueues s"
  by (auto simp: resolve_path_def Let_def split: if_splits sum.splits)

lemma time_queues: "handleTimeSyscall e req name vc s = Some (s', resp, ws) \<Longrightarrow> holdQueues s' = holdQueues s"
  by (auto simp: handleTimeSyscall_def Let_def emitSyscallEvent_def emitSyscallEventDest_def split: if_splits)

lemma rules_queues: "holdQueues (ses (handle_rules name path dest req rm s)) = holdQueues s"
  by (auto simp: handle_rules_def apply_verdict_def Let_def
      split: prod.splits verdict.splits FaultAction.splits)

lemma find_hold_queue: "find_hold name path qs rs = Some (r, q) \<Longrightarrow> qs (HoldTag r) = Some q"
  by (induction rs) (auto split: if_splits option.splits)

lemma enter_hold_queues:
  assumes "enter_hold name path dest fd req r q s = (s', out)" and "holdQueues s (HoldTag r) = Some q"
  shows "holdQueues s' = holdQueues s \<and> closed q \<or>
    (\<exists>h. \<not> closed q \<and> out = Waiting (HoldTag r) h \<and>
       holdQueues s' = (holdQueues s)(HoldTag r \<mapsto> q\<lparr>pending := pending q @ [h]\<rparr>))"
proof (cases "closed q")
  case True
  with assms have "holdQueues s' = (holdQueues s)(HoldTag r \<mapsto> q)"
    by (auto simp: enter_hold_def Enqueue_def Let_def split: prod.splits dest!: finish_hold_keeps)
  with assms(2) True show ?thesis by (simp add: map_upd_triv)
next
  case False
  with assms show ?thesis by (auto simp: enter_hold_def Enqueue_def Let_def)
qed

lemma handle_queues:
  "holdQueues (ses (handleNotification a e fd req rm s)) = holdQueues s \<and>
     (\<exists>resp. outcome (handleNotification a e fd req rm s) = Answered resp) \<or>
   (\<exists>tag q h. holdQueues s tag = Some q \<and> \<not> closed q \<and>
      outcome (handleNotification a e fd req rm s) = Waiting tag h \<and>
      holdQueues (ses (handleNotification a e fd req rm s)) =
        (holdQueues s)(tag \<mapsto> q\<lparr>pending := pending q @ [h]\<rparr>))"
proof -
  let ?nr = "sint (Nr (Data req))"
  let ?name = "SyscallName a ?nr"
  let ?dest = "read_dest e ?name req"
  obtain path s1 where rp: "resolve_path e ?name req s = (path, s1)" by fastforce
  note q1 = resolve_path_queues [OF rp]
  define timed where "timed = (case vclock s1 of None \<Rightarrow> None
    | Some vc \<Rightarrow> if enabled vc then handleTimeSyscall e req ?name vc s1 else None)"
  show ?thesis
  proof (cases timed)
    case (Some t)
    obtain s2 resp ws where t: "t = (s2, resp, ws)" by (cases t)
    have h: "handleNotification a e fd req rm s =
        \<lparr>ses = s2, rule_map = rm, outcome = Answered resp, mem_writes = ws, slept = 0\<rparr>"
      using Some t unfolding timed_def by (simp add: handleNotification_def rp Let_def)
    have "holdQueues s2 = holdQueues s1"
      using Some t unfolding timed_def by (auto split: option.splits if_splits dest!: time_queues)
    with h q1 show ?thesis by simp
  next
    case None
    show ?thesis
    proof (cases "find_hold ?name path (holdQueues s1) (getHoldRules s1 ?nr)")
      case f: None
      have "handleNotification a e fd req rm s = handle_rules ?name path ?dest req rm s1"
        using None f unfolding timed_def by (simp add: handleNotification_def rp Let_def)
      then show ?thesis
        using rules_queues [of ?name path ?dest req rm s1] q1
        by (auto simp: handle_rules_def Let_def split: prod.splits)
    next
      case f: (Some rq)
      obtain r q where rq: "rq = (r, q)" by (cases rq)
      obtain s2 out where eh: "enter_hold ?name path ?dest fd req r q s1 = (s2, out)" by fastforce
      have h: "handleNotification a e fd req rm s =
          \<lparr>ses = s2, rule_map = rm, outcome = out, mem_writes = [], slept = 0\<rparr>"
        using None f rq eh unfolding timed_def by (simp add: handleNotification_def rp Let_def)
      have hq: "holdQueues s1 (HoldTag r) = Some q" using find_hold_queue f rq by blast
      have "closed q \<Longrightarrow> \<exists>resp. out = Answered resp"
        using eh by (auto simp: enter_hold_def Enqueue_def Let_def split: prod.splits)
      with enter_hold_queues [OF eh hq] h hq q1 show ?thesis by auto
    qed
  qed
qed

lemma queues_inv_step: "sup_step a fd strict S S' \<Longrightarrow> queues_inv (sses S) \<Longrightarrow> queues_inv (sses S')"
proof (induction rule: sup_step.induct)
  case (receive req S e)
  have "sses (notify a e fd req S) = ses (handleNotification a e fd req (smap S) (sses S))"
    by (simp add: notify_def Let_def split: Outcome.splits)
  then show ?case
    using handle_queues [of a e fd req "smap S" "sses S"] receive
    by (auto simp: queues_inv_def split: if_splits)
next
  case (release S tag q op q' out)
  then have "closed (fst (hq_step op q)) \<longrightarrow> pending (fst (hq_step op q)) = []"
    by (intro hq_step_closed_empty) (auto simp: queues_inv_def)
  with release show ?case by (auto simp: queues_inv_def)
next
  case (remove_hold tag S s' out)
  then show ?case by (auto simp: queues_inv_def RemoveHoldRules_def Let_def split: option.splits if_splits)
next
  case (close_all tags S s' out)
  then show ?case by (auto simp: queues_inv_def CloseAllHoldQueues_def)
qed (auto simp: queues_inv_def RegisterHoldQueue_def NewHoldQueue_def AddHoldRules_def
    SetDynamicFaultRules_def ClearDynamicFaultRules_def)

lemma close_all_drains:
  assumes "held_inv S" and "queues_inv (sses S)" and "set tags = dom (holdQueues (sses S))"
    and "CloseAllHoldQueues tags (sses S) = (s', out)"
  shows "swaiting (resume out (S\<lparr>sses := s'\<rparr>)) = []"
proof -
  have "fst w \<in> fst ` set out" if "w \<in> set (swaiting S)" for w
  proof -
    from held_invD [OF assms(1)] that obtain t q
      where tq: "holdQueues (sses S) t = Some q" "fst w \<in> set (pending q)" by blast
    then have "\<not> closed q" using assms(2) by (auto simp: queues_inv_def)
    with tq have "fst w \<in> fst ` set (snd (Close q))" by (auto simp: Close_def image_iff)
    moreover have "t \<in> set tags" using tq assms(3) by auto
    ultimately show ?thesis
      using assms(4) tq(1) by (force simp: CloseAllHoldQueues_def)
  qed
  then show ?thesis by (simp add: filter_empty_conv)
qed

lemma held_inv_notify: "held_inv S \<Longrightarrow> held_inv (notify a e fd req S)"
proof (rule held_invI)
  fix h
  assume inv: "held_inv S" and h: "h \<in> fst ` set (swaiting (notify a e fd req S))"
  let ?r = "handleNotification a e fd req (smap S) (sses S)"
  have ses: "sses (notify a e fd req S) = ses ?r"
    by (simp add: notify_def Let_def split: Outcome.splits)
  from handle_queues [of a e fd req "smap S" "sses S"]
  show "\<exists>t q. holdQueues (sses (notify a e fd req S)) t = Some q \<and> h \<in> set (pending q)"
  proof (elim disjE exE conjE)
    fix resp
    assume k: "holdQueues (ses ?r) = holdQueues (sses S)" "outcome ?r = Answered resp"
    then have "h \<in> fst ` set (swaiting S)" using h by (simp add: notify_def Let_def)
    from held_invD [OF inv this] k show ?thesis by (simp add: ses)
  next
    fix tag q h'
    assume k: "holdQueues (sses S) tag = Some q" "outcome ?r = Waiting tag h'"
      "holdQueues (ses ?r) = (holdQueues (sses S))(tag \<mapsto> q\<lparr>pending := pending q @ [h']\<rparr>)"
    then have "h \<in> fst ` set (swaiting S) \<or> h = h'" using h by (auto simp: notify_def Let_def)
    then show ?thesis
    proof
      assume "h \<in> fst ` set (swaiting S)"
      from held_invD [OF inv this] obtain t p where "holdQueues (sses S) t = Some p" "h \<in> set (pending p)" by blast
      with k show ?thesis by (cases "t = tag") (auto simp: ses)
    qed (use k in \<open>auto simp: ses\<close>)
  qed
qed

lemma held_inv_step:
  "sup_step a fd strict S S' \<Longrightarrow> strict \<Longrightarrow> queues_inv (sses S) \<Longrightarrow> held_inv S \<Longrightarrow> held_inv S'"
proof (induction rule: sup_step.induct)
  case (receive req S e)
  then show ?case by (simp add: held_inv_notify)
next
  case (release S tag q op q' out)
  from held_inv_resume [OF release(6) release(1) hq_step_covers [OF release(3)]] show ?case .
next
  case (register S tag)
  then have n: "holdQueues (sses S) tag = None" by simp
  show ?case
  proof (rule held_invI)
    fix h
    assume "h \<in> fst ` set (swaiting (S\<lparr>sses := RegisterHoldQueue tag (sses S)\<rparr>))"
    then have "h \<in> fst ` set (swaiting S)" by simp
    from held_invD [OF register(4) this] obtain t q
      where tq: "holdQueues (sses S) t = Some q" "h \<in> set (pending q)" by blast
    with n have "t \<noteq> tag" by auto
    with tq show "\<exists>t q. holdQueues (sses (S\<lparr>sses := RegisterHoldQueue tag (sses S)\<rparr>)) t = Some q \<and>
        h \<in> set (pending q)"
      by (auto simp: RegisterHoldQueue_def)
  qed
next
  case (remove_hold tag S s' out)
  then show ?case by (intro held_inv_remove) (auto simp: queues_inv_def)
next
  case (close_all tags S s' out)
  have "swaiting (resume out (S\<lparr>sses := s'\<rparr>)) = []"
    by (rule close_all_drains) (use close_all in auto)
  then show ?case by (simp add: held_inv_def del: resume_waiting)
next
  case (cancelled h dest S)
  then show ?case by (auto simp: held_inv_def)
qed (auto simp: held_inv_def AddHoldRules_def SetDynamicFaultRules_def ClearDynamicFaultRules_def)

lemma sup_reach_invs:
  "sup_reach a fd strict S \<Longrightarrow> queues_inv (sses S) \<and> (strict \<longrightarrow> held_inv S)"
proof (induction rule: sup_reach.induct)
  case (sup_init S)
  then show ?case by (simp add: queues_inv_def held_inv_def)
next
  case (sup_more S S')
  then show ?case using queues_inv_step held_inv_step by blast
qed

text \<open>C14. Teardown leaves nobody waiting. As long as a hold queue is only registered under a tag that is
  not in use, closing all hold queues answers every notification that was still held: afterwards
  each received notification has been answered, exactly once.\<close>

theorem teardown_answers_all:
  assumes "sup_reach a fd True S" and "set tags = dom (holdQueues (sses S))" and "distinct tags"
    and "CloseAllHoldQueues tags (sses S) = (s', out)"
  shows "swaiting (resume out (S\<lparr>sses := s'\<rparr>)) = [] \<and>
    mset (map fst (sanswers (resume out (S\<lparr>sses := s'\<rparr>)))) = mset (sreceived (resume out (S\<lparr>sses := s'\<rparr>)))"
proof -
  from sup_reach_invs [OF assms(1)] have "held_inv S" "queues_inv (sses S)" by simp_all
  from close_all_drains [OF this assms(2,4)] have w: "swaiting (resume out (S\<lparr>sses := s'\<rparr>)) = []" .
  have "sup_reach a fd True (resume out (S\<lparr>sses := s'\<rparr>))"
    by (rule sup_more [OF assms(1)], rule sup_step.close_all [OF assms(2,3,4)])
  from sup_inv_reach [OF this] w show ?thesis by (simp add: sup_inv_def del: resume_waiting)
qed

definition demo_sup :: Sup where
  "demo_sup = \<lparr>sses = demo_session [], smap = (\<lambda>_. []), swaiting = [], sanswers = [], sreceived = []\<rparr>"

text \<open>A write held under the tag \<open>b\<close>.\<close>

definition demo_held :: Sup where
  "demo_held = notify Amd64 (demo_env (Inl []) (Inr ''/data/x'')) 3 (demo_req 1 [4])
     (demo_sup\<lparr>sses := AddHoldRules Amd64 ''b'' [hold_rule ''write'' []] (RegisterHoldQueue ''b'' (sses demo_sup))\<rparr>)"

lemma demo_held_reach: "sup_reach Amd64 3 strict demo_held"
proof -
  have 0: "sup_reach Amd64 3 strict demo_sup"
    by (rule sup_init) (simp_all add: demo_sup_def demo_session_def NewSession_def)
  have "strict \<Longrightarrow> holdQueues (sses demo_sup) ''b'' = None"
    by (simp add: demo_sup_def demo_session_def NewSession_def)
  from sup_more [OF 0 sup_step.register [OF this]]
  have 1: "sup_reach Amd64 3 strict (demo_sup\<lparr>sses := RegisterHoldQueue ''b'' (sses demo_sup)\<rparr>)" by simp
  from sup_more [OF 1 sup_step.add_hold [of _ _ _ _ "''b''" "[hold_rule ''write'' []]"]]
  have 2: "sup_reach Amd64 3 strict
      (demo_sup\<lparr>sses := AddHoldRules Amd64 ''b'' [hold_rule ''write'' []] (RegisterHoldQueue ''b'' (sses demo_sup))\<rparr>)"
    by simp
  show ?thesis
    unfolding demo_held_def by (rule sup_more [OF 2], rule sup_step.receive) (simp add: demo_sup_def)
qed

definition demo_h :: HeldNotif where
  "demo_h = \<lparr>ReqID = 7, ListenerFd = 3, SyscallName = ''write'', PID = 100, Path = ''/data/x''\<rparr>"

lemma demo_held_state:
  "swaiting demo_held = [(demo_h, ([], 0))]" "sreceived demo_held = [7]" "sanswers demo_held = []"
  "holdQueues (sses demo_held) = [''b'' \<mapsto> \<lparr>pending = [demo_h], closed = False\<rparr>]"
proof -
  have sys: "\<not> IsSystemPath ''/data/x''"
    by (simp add: IsSystemPath_def SystemPathPrefixes_def has_prefix_def)
  show "swaiting demo_held = [(demo_h, ([], 0))]" "sreceived demo_held = [7]" "sanswers demo_held = []"
    "holdQueues (sses demo_held) = [''b'' \<mapsto> \<lparr>pending = [demo_h], closed = False\<rparr>]"
    by (simp_all add: demo_held_def notify_def demo_handler sys demo_sup_def AddHoldRules_def RegisterHoldQueue_def
        hold_rule_def amd64_numbers hold_applies_def enter_hold_def Enqueue_def NewHoldQueue_def demo_h_def)
qed


theorem teardown_answers_all_witness:
  "\<exists>s' out. CloseAllHoldQueues [''b''] (sses demo_held) = (s', out) \<and>
     swaiting (resume out (demo_held\<lparr>sses := s'\<rparr>)) = []"
proof -
  obtain s' out where c: "CloseAllHoldQueues [''b''] (sses demo_held) = (s', out)" by fastforce
  have "set [''b''] = dom (holdQueues (sses demo_held))" "distinct [''b'']" by (simp_all add: demo_held_state)
  from teardown_answers_all [OF demo_held_reach this c] c show ?thesis by blast
qed


end
