(* ===== verification/Lehmer.thy ===== *)
theory Lehmer
  imports Go_Prelude
begin

text \<open>
  Permutations by number: the factorial number system that both the engine's scheduler and the plan
  walker decode. \<open>lehmer xs k\<close> picks the \<open>k\<close>-th arrangement of \<open>xs\<close>, \<open>rank\<close> recovers \<open>k\<close>; together they are
  a bijection between \<open>{0..<n!}\<close> and the arrangements, in lexicographic order when \<open>xs\<close> is sorted.
\<close>

function lehmer :: "'a list \<Rightarrow> nat \<Rightarrow> 'a list" where
  "lehmer [] k = []"
| "lehmer (x # xs) k =
     (let f = fact (length xs); d = k div f
      in if d \<le> length xs then (x # xs) ! d # lehmer (remove_at d (x # xs)) (k mod f) else [])"
  by pat_completeness auto
termination
  by (relation "measure (\<lambda>(xs, k). length xs)") (auto simp: length_remove_at)

fun index_of :: "'a list \<Rightarrow> 'a \<Rightarrow> nat" where
  "index_of [] y = 0"
| "index_of (x # xs) y = (if x = y then 0 else Suc (index_of xs y))"

fun rank :: "'a list \<Rightarrow> 'a list \<Rightarrow> nat" where
  "rank xs [] = 0"
| "rank xs (y # ys) = index_of xs y * fact (length xs - 1) + rank (remove_at (index_of xs y) xs) ys"

lemma index_of_less: "y \<in> set xs \<Longrightarrow> index_of xs y < length xs"
  by (induction xs) auto

lemma nth_index_of [simp]: "y \<in> set xs \<Longrightarrow> xs ! index_of xs y = y"
  by (induction xs) auto

lemma index_of_nth: "distinct xs \<Longrightarrow> i < length xs \<Longrightarrow> index_of xs (xs ! i) = i"
  by (induction xs arbitrary: i) (auto simp: nth_Cons split: nat.splits)

lemma fact_digit_less:
  assumes "k < fact (Suc n)"
  shows "k div fact n < Suc n"
  using assms by (simp add: less_mult_imp_div_less)

lemma mset_lehmer: "k < fact (length xs) \<Longrightarrow> mset (lehmer xs k) = mset xs"
proof (induction xs k rule: lehmer.induct)
  case (2 x xs k)
  let ?f = "fact (length xs) :: nat" and ?d = "k div fact (length xs)"
  have d: "?d < Suc (length xs)" using fact_digit_less [of k "length xs"] 2(2) by simp
  then have "mset (lehmer (remove_at ?d (x # xs)) (k mod ?f)) = mset (remove_at ?d (x # xs))"
    by (intro 2(1)) (auto simp: length_remove_at)
  with d mset_remove_at [of ?d "x # xs"] show ?case by (simp add: Let_def)
qed simp

lemma lehmer_Cons:
  assumes "k < fact (Suc (length xs))"
  shows "lehmer (x # xs) k =
    (x # xs) ! (k div fact (length xs)) #
      lehmer (remove_at (k div fact (length xs)) (x # xs)) (k mod fact (length xs))"
  using fact_digit_less [OF assms] by (simp add: Let_def)

declare lehmer.simps(2) [simp del]

lemma rank_lehmer: "distinct xs \<Longrightarrow> k < fact (length xs) \<Longrightarrow> rank xs (lehmer xs k) = k"
proof (induction xs k rule: lehmer.induct)
  case (2 x xs k)
  let ?f = "fact (length xs) :: nat" and ?d = "k div fact (length xs)"
  have d: "?d < Suc (length xs)" using fact_digit_less [of k "length xs"] 2(3) by simp
  have "rank (remove_at ?d (x # xs)) (lehmer (remove_at ?d (x # xs)) (k mod ?f)) = k mod ?f"
  proof (rule 2(1))
    show "distinct (remove_at ?d (x # xs))" using 2(2) by (rule distinct_remove_at)
  qed (use d in \<open>auto simp: length_remove_at\<close>)
  moreover have "index_of (x # xs) ((x # xs) ! ?d) = ?d"
    using index_of_nth [OF 2(2), of ?d] d by simp
  moreover have "lehmer (x # xs) k = (x # xs) ! ?d # lehmer (remove_at ?d (x # xs)) (k mod ?f)"
    using 2(3) by (simp add: lehmer_Cons)
  ultimately show ?case by simp
qed simp

lemma rank_less: "mset ys = mset xs \<Longrightarrow> rank xs ys < fact (length xs)"
proof (induction ys arbitrary: xs)
  case (Cons y ys)
  have y: "y \<in> set xs" using Cons.prems by (metis list.set_intros(1) mset_eq_setD)
  let ?i = "index_of xs y"
  have i: "?i < length xs" by (rule index_of_less [OF y])
  have "mset ys = mset (remove_at ?i xs)"
    using Cons.prems mset_remove_at [OF i] y by simp
  from Cons.IH [OF this] have r: "rank (remove_at ?i xs) ys < fact (length xs - 1)"
    using i by (simp add: length_remove_at)
  obtain n where n: "length xs = Suc n" using i by (cases "length xs") auto
  have "?i * fact n + rank (remove_at ?i xs) ys < (?i + 1) * fact n" using r n by simp
  also have "\<dots> \<le> Suc n * fact n" using i n by (intro mult_right_mono) simp_all
  finally show ?case by (simp add: n)
qed simp

lemma lehmer_rank: "mset ys = mset xs \<Longrightarrow> lehmer xs (rank xs ys) = ys"
proof (induction ys arbitrary: xs)
  case (Cons y ys)
  have y: "y \<in> set xs" using Cons.prems by (metis list.set_intros(1) mset_eq_setD)
  let ?i = "index_of xs y"
  have i: "?i < length xs" by (rule index_of_less [OF y])
  have m: "mset ys = mset (remove_at ?i xs)"
    using Cons.prems mset_remove_at [OF i] y by simp
  obtain x zs where xs: "xs = x # zs" using i by (cases xs) auto
  let ?r = "rank (remove_at ?i xs) ys"
  have r: "?r < fact (length zs)"
    using rank_less [OF m] i xs by (simp add: length_remove_at)
  have k: "rank xs (y # ys) = ?i * fact (length zs) + ?r" by (simp add: xs)
  have dm: "rank xs (y # ys) div fact (length zs) = ?i" "rank xs (y # ys) mod fact (length zs) = ?r"
    using r unfolding k by simp_all
  have "rank xs (y # ys) < fact (Suc (length zs))" using rank_less [OF Cons.prems] xs by simp
  from lehmer_Cons [OF this, of x] have "lehmer xs (rank xs (y # ys)) = xs ! ?i # lehmer (remove_at ?i xs) ?r"
    unfolding dm by (simp only: xs [symmetric])
  with Cons.IH [OF m] y show ?case by simp
qed simp

lemma lehmer_bij:
  assumes "distinct xs"
  shows "bij_betw (lehmer xs) {0..<fact (length xs)} {ys. mset ys = mset xs}"
proof (rule bij_betw_byWitness [where f' = "rank xs"])
  show "\<forall>k \<in> {0..<fact (length xs)}. rank xs (lehmer xs k) = k" using rank_lehmer [OF assms] by simp
  show "\<forall>ys \<in> {ys. mset ys = mset xs}. lehmer xs (rank xs ys) = ys" using lehmer_rank by blast
  show "lehmer xs ` {0..<fact (length xs)} \<subseteq> {ys. mset ys = mset xs}" using mset_lehmer by fastforce
  show "rank xs ` {ys. mset ys = mset xs} \<subseteq> {0..<fact (length xs)}" using rank_less by fastforce
qed

lemma sorted_remove_at:
  assumes "sorted_wrt (<) xs"
  shows "sorted_wrt (<) (remove_at i (xs :: nat list))"
proof (cases "i < length xs")
  case True
  have "xs = take i xs @ xs ! i # drop (Suc i) xs" using True by (rule id_take_nth_drop)
  then show ?thesis
    using assms unfolding remove_at_def by (metis sorted_wrt.simps(2) sorted_wrt_append Un_iff list.set_intros(2))
next
  case False
  then show ?thesis using assms by (simp add: remove_at_def)
qed

text \<open>Smaller numbers give lexicographically smaller arrangements.\<close>

lemma lehmer_lex:
  fixes xs :: "nat list"
  shows "sorted_wrt (<) xs \<Longrightarrow> j < k \<Longrightarrow> k < fact (length xs) \<Longrightarrow> (lehmer xs j, lehmer xs k) \<in> lexord {(a, b). a < b}"
proof (induction "length xs" arbitrary: xs j k)
  case (Suc n)
  obtain x zs where xs: "xs = x # zs" and n: "length zs = n" using Suc(2) by (cases xs) auto
  let ?f = "fact n :: nat"
  have J: "lehmer xs j = xs ! (j div ?f) # lehmer (remove_at (j div ?f) xs) (j mod ?f)"
    and K: "lehmer xs k = xs ! (k div ?f) # lehmer (remove_at (k div ?f) xs) (k mod ?f)"
    using Suc(4,5) xs n by (simp_all add: lehmer_Cons)
  have kl: "k div ?f < length xs" using fact_digit_less [of k n] Suc(5) xs n by simp
  have le: "j div ?f \<le> k div ?f" using Suc(4) by (intro div_le_mono) simp
  show ?case
  proof (cases "j div ?f = k div ?f")
    case True
    have lt: "j mod ?f < k mod ?f"
      using Suc(4) True by (metis div_mult_mod_eq nat_add_left_cancel_less)
    have len: "n = length (remove_at (k div ?f) xs)" using kl xs n by (simp add: length_remove_at)
    have "k mod ?f < fact (length (remove_at (k div ?f) xs))" unfolding len [symmetric] by simp
    from Suc(1) [OF len sorted_remove_at [OF Suc(3)] lt this] show ?thesis
      unfolding J K True by simp
  next
    case False
    then have "xs ! (j div ?f) < xs ! (k div ?f)"
      using le kl Suc(3) by (simp add: sorted_wrt_nth_less)
    then show ?thesis unfolding J K by simp
  qed
qed simp

end
