(* ===== verification/Schedule.thy ===== *)
theory Schedule
  imports Lehmer Hold_Queue
begin

text \<open>
  Exploring interleavings: \<open>internal/engine/permutation.go\<close> and \<open>internal/engine/scheduler.go\<close>.
  A permutation is decoded from an index in the factorial number system and the held notifications
  are released in its order, by their positions in a queue that shrinks as they leave. An access out of
  range, which panics in Go, is \<open>None\<close>.
\<close>

fun fact_loop :: "nat \<Rightarrow> int" where
  "fact_loop 0 = 1"
| "fact_loop (Suc i) = fact_loop i * int (Suc i)"

definition Factorial :: "int \<Rightarrow> int" where
  "Factorial n = (if n \<le> 1 then 1 else fact_loop (nat (if n > 12 then 12 else n)))"

function perm_loop :: "nat list \<Rightarrow> int \<Rightarrow> nat list option" where
  "perm_loop [] index = Some []"
| "perm_loop (x # xs) index =
     (let f = Factorial (int (length xs)); digit = go_div index f in
      if digit < 0 \<or> digit > int (length xs) then None
      else map_option ((#) ((x # xs) ! nat digit)) (perm_loop (remove_at (nat digit) (x # xs)) (go_rem index f)))"
  by pat_completeness auto
termination
  by (relation "measure (\<lambda>(xs, k). length xs)") (auto simp: length_remove_at)

definition PermutationFromIndex :: "int \<Rightarrow> int \<Rightarrow> nat list option" where
  "PermutationFromIndex n index =
     (if n \<le> 0 then Some [] else perm_loop [0..<nat n] (go_rem index (Factorial n)))"

fun release_loop :: "nat list \<Rightarrow> nat list \<Rightarrow> HoldQueue \<Rightarrow> string option \<times> HoldQueue \<times> sends" where
  "release_loop [] prev q = (None, q, [])"
| "release_loop (target # rest) prev q =
     (let currentIdx = int target - int (length (filter (\<lambda>p. p < target) prev));
          (ok, q1, out1) = ReleaseByIndex currentIdx allow_decision q
      in if \<not> ok then (Some ''scheduler: failed to release'', q1, out1)
         else let (e, q2, out2) = release_loop rest (prev @ [target]) q1 in (e, q2, out1 @ out2))"

text \<open>\<open>wait\<close> is the result of \<open>Wait\<close>: its error, if any.\<close>

definition ReleaseInOrder :: "int \<Rightarrow> string option \<Rightarrow> int \<Rightarrow> HoldQueue \<Rightarrow>
    (nat list option \<times> string option \<times> HoldQueue \<times> sends) option" where
  "ReleaseInOrder permIndex wait n q =
     (case wait of Some e \<Rightarrow> Some (None, Some (''scheduler wait: '' @ e), q, [])
      | None \<Rightarrow>
        (case PermutationFromIndex n permIndex of None \<Rightarrow> None
         | Some perm \<Rightarrow> (let (e, q', out) = release_loop perm [] q in Some (Some perm, e, q', out))))"

section \<open>Decoding an index\<close>

lemma fact_loop_fact: "fact_loop n = int (fact n)"
  by (induction n) (simp_all add: algebra_simps)

lemma Factorial_fact: "Factorial (int n) = int (fact (min n 12))"
proof (cases "n \<le> 1")
  case True
  then have "n = 0 \<or> n = 1" by auto
  then show ?thesis by (auto simp: Factorial_def)
next
  case False
  then show ?thesis by (auto simp: Factorial_def fact_loop_fact min_def)
qed

definition capped :: "nat \<Rightarrow> nat" where
  "capped n = fact (min n 12)"

lemma capped_pos: "0 < capped n"
  by (simp add: capped_def)

lemma capped_digit: "k < capped (Suc n) \<Longrightarrow> k div capped n \<le> n"
proof (cases "n < 12")
  case True
  assume "k < capped (Suc n)"
  with True have "k < fact (Suc n)" by (simp add: capped_def)
  from fact_digit_less [OF this] True show ?thesis by (simp add: capped_def)
next
  case False
  assume "k < capped (Suc n)"
  with False have "k < capped n" by (simp add: capped_def)
  then show ?thesis by simp
qed

lemma perm_loop_Cons:
  assumes "k < capped (Suc (length xs))"
  shows "perm_loop (x # xs) (int k) =
    map_option ((#) ((x # xs) ! (k div capped (length xs))))
      (perm_loop (remove_at (k div capped (length xs)) (x # xs)) (int (k mod capped (length xs))))"
  using capped_digit [OF assms]
  by (simp add: Factorial_fact capped_def [symmetric] go_div_nat go_rem_nat Let_def)

declare perm_loop.simps(2) [simp del]

lemma perm_loop_total:
  "k < capped (length xs) \<Longrightarrow> \<exists>p. perm_loop xs (int k) = Some p \<and> mset p = mset xs"
proof (induction "length xs" arbitrary: xs k)
  case (Suc n)
  obtain x zs where xs: "xs = x # zs" and n: "length zs = n" using Suc(2) by (cases xs) auto
  let ?d = "k div capped n"
  have d: "?d < length xs" using capped_digit [of k n] Suc(2,3) by simp
  have l: "n = length (remove_at ?d xs)" using d Suc(2) by (simp add: length_remove_at)
  have m: "k mod capped n < capped (length (remove_at ?d xs))" by (simp add: l [symmetric] capped_pos)
  from Suc(1) [OF l m] obtain p
    where p: "perm_loop (remove_at ?d xs) (int (k mod capped n)) = Some p" "mset p = mset (remove_at ?d xs)" by blast
  have "k < capped (Suc (length zs))" using Suc(3) by (simp add: xs)
  from perm_loop_Cons [OF this, of x] p(1) have "perm_loop xs (int k) = Some (xs ! ?d # p)"
    unfolding xs n by simp
  with p(2) mset_remove_at [OF d] show ?case by simp
qed simp

lemma perm_loop_lehmer:
  "length xs \<le> 12 \<Longrightarrow> k < fact (length xs) \<Longrightarrow> perm_loop xs (int k) = Some (lehmer xs k)"
proof (induction "length xs" arbitrary: xs k)
  case (Suc n)
  obtain x zs where xs: "xs = x # zs" and n: "length zs = n" using Suc(2) by (cases xs) auto
  let ?d = "k div fact n"
  have cap: "capped n = fact n" "capped (Suc n) = fact (Suc n)" using Suc(2,3) by (simp_all add: capped_def)
  have d: "?d < length xs" using fact_digit_less [of k n] Suc(2,4) by simp
  have l: "n = length (remove_at ?d xs)" using d Suc(2) by (simp add: length_remove_at)
  have "perm_loop (remove_at ?d xs) (int (k mod fact n)) = Some (lehmer (remove_at ?d xs) (k mod fact n))"
    by (rule Suc(1) [OF l]) (use Suc(2,3) l in simp_all)
  moreover have k: "k < fact (Suc (length zs))" using Suc(4) unfolding xs by (simp only: length_Cons)
  moreover have "perm_loop xs (int k) = map_option ((#) (xs ! ?d)) (perm_loop (remove_at ?d xs) (int (k mod fact n)))"
    using perm_loop_Cons [of k zs x] k unfolding xs n cap by blast
  moreover have "lehmer xs k = xs ! ?d # lehmer (remove_at ?d xs) (k mod fact n)"
    using lehmer_Cons [OF k, of x] unfolding xs n .
  ultimately show ?case by (simp only: option.map)
qed simp

lemma PermutationFromIndex_total:
  "\<exists>p. PermutationFromIndex (int n) (int k) = Some p \<and> mset p = mset [0..<n]"
proof (cases "n = 0")
  case False
  then have "k mod capped n < capped (length [0..<n])" by (simp add: capped_pos)
  from perm_loop_total [OF this] False show ?thesis
    by (simp add: PermutationFromIndex_def Factorial_fact capped_def [symmetric] go_rem_nat)
qed (simp add: PermutationFromIndex_def)

text \<open>C12. Up to twelve held syscalls the exploration is exhaustive: running the index from \<open>0\<close> to \<open>n! - 1\<close>
  decodes every release order of \<open>n\<close> syscalls exactly once.\<close>

theorem exploration_exhaustive:
  assumes "n \<le> 12"
  shows "bij_betw (\<lambda>k. the (PermutationFromIndex (int n) (int k))) {0..<fact n} {p. mset p = mset [0..<n]}"
proof -
  have "the (PermutationFromIndex (int n) (int k)) = lehmer [0..<n] k" if "k \<in> {0..<fact n}" for k
    using that assms perm_loop_lehmer [of "[0..<n]" k]
    by (cases "n = 0")
      (simp_all add: PermutationFromIndex_def Factorial_fact min_absorb1 go_rem_nat del: of_nat_fact)
  moreover have "bij_betw (lehmer [0..<n]) {0..<fact n} {p. mset p = mset [0..<n]}"
    using lehmer_bij [of "[0..<n]"] by simp
  ultimately show ?thesis by (subst bij_betw_cong [where g = "lehmer [0..<n]"])
qed

theorem exploration_exhaustive_witness:
  "(\<lambda>k. the (PermutationFromIndex (int 3) (int k))) ` {0..<6} = {p. mset p = mset [0..<3]}"
  using exploration_exhaustive [of 3] by (simp add: bij_betw_def fact_numeral)

text \<open>With thirteen or more held syscalls it is not: the factorial is capped at \<open>12!\<close>, so every index
  decodes to an order in which the first syscall in the queue is released first.\<close>

theorem exploration_capped:
  "map_option hd (PermutationFromIndex (int n + 13) (int k)) = Some 0"
proof -
  let ?j = "k mod capped (n + 13)"
  have c: "capped (n + 13) = fact 12" "capped (n + 12) = fact 12" by (simp_all add: capped_def)
  obtain xs where xs: "[0..<n + 13] = 0 # xs" and l: "length xs = n + 12"
    by (simp add: upt_conv_Cons)
  have j: "?j < capped (Suc (length xs))" using l by (simp add: capped_def)
  have "?j div capped (length xs) = 0" using l c by simp
  with perm_loop_Cons [OF j, of 0] obtain f where "perm_loop [0..<n + 13] (int ?j) = map_option ((#) 0) f"
    by (auto simp: xs)
  moreover have e: "int n + 13 = int (n + 13)" by simp
  have P: "PermutationFromIndex (int n + 13) (int k) = perm_loop [0..<n + 13] (int ?j)"
  proof -
    have "Factorial (int (n + 13)) = int (capped (n + 13))" by (simp only: Factorial_fact capped_def)
    then show ?thesis
      unfolding e PermutationFromIndex_def by (simp only: go_rem_nat nat_int) simp
  qed
  ultimately show ?thesis
    using PermutationFromIndex_total [of "n + 13" k] unfolding e [symmetric] by auto
qed

section \<open>Releasing in order\<close>

text \<open>What is left of the first \<open>m\<close> positions when those in \<open>R\<close> have gone.\<close>

definition kept :: "nat \<Rightarrow> nat set \<Rightarrow> nat list" where
  "kept m R = filter (\<lambda>i. i \<notin> R) [0..<m]"

lemma upt_split: "t < m \<Longrightarrow> [0..<m] = [0..<t] @ t # [Suc t..<m]"
  by (metis upt_add_eq_append upt_conv_Cons less_imp_add_positive le0)

lemma kept_split:
  assumes "t < m" and "t \<notin> R"
  shows "kept m R = kept t R @ t # filter (\<lambda>i. i \<notin> R) [Suc t..<m]"
  using assms by (simp add: kept_def upt_split [OF assms(1)])

lemma kept_remove:
  assumes "t < m" and "t \<notin> R"
  shows "remove_at (length (kept t R)) (kept m R) = kept m (insert t R)" and "kept m R ! length (kept t R) = t"
    and "length (kept t R) < length (kept m R)"
proof -
  have "filter (\<lambda>i. i \<notin> insert t R) [0..<t] = filter (\<lambda>i. i \<notin> R) [0..<t]"
    "filter (\<lambda>i. i \<notin> insert t R) [Suc t..<m] = filter (\<lambda>i. i \<notin> R) [Suc t..<m]"
    by (auto intro!: filter_cong)
  then show "remove_at (length (kept t R)) (kept m R) = kept m (insert t R)"
    unfolding kept_split [OF assms] by (simp add: remove_at_def kept_def upt_split [OF assms(1)])
  show "kept m R ! length (kept t R) = t" "length (kept t R) < length (kept m R)"
    unfolding kept_split [OF assms] by simp_all
qed

lemma current_index:
  assumes "distinct prev"
  shows "int t - int (length (filter (\<lambda>p. p < t) prev)) = int (length (kept t (set prev)))"
proof -
  have "length (filter (\<lambda>p. p < t) prev) = card (set (filter (\<lambda>p. p < t) prev))"
    using distinct_card [OF distinct_filter [OF assms]] by simp
  also have "set (filter (\<lambda>p. p < t) prev) = {0..<t} \<inter> set prev" by auto
  finally have a: "length (filter (\<lambda>p. p < t) prev) = card ({0..<t} \<inter> set prev)" .
  have "length (kept t (set prev)) = card (set (kept t (set prev)))"
    by (simp add: kept_def distinct_card [symmetric])
  also have "set (kept t (set prev)) = {0..<t} - set prev" by (auto simp: kept_def)
  finally have b: "length (kept t (set prev)) = card ({0..<t} - set prev)" .
  have "card ({0..<t} \<inter> set prev) + card ({0..<t} - set prev) = t"
    using card_Int_Diff [of "{0..<t}" "set prev"] by simp
  then show ?thesis unfolding a b by linarith
qed

lemma map_remove_at: "map f (remove_at i xs) = remove_at i (map f xs)"
  by (simp add: remove_at_def take_map drop_map)

lemma release_loop_order:
  assumes "pending q = map ((!) orig) (kept (length orig) (set prev))"
    and "distinct (prev @ ts)" and "set ts \<subseteq> {0..<length orig}"
  shows "release_loop ts prev q =
    (None, q\<lparr>pending := map ((!) orig) (kept (length orig) (set prev \<union> set ts))\<rparr>,
     map (\<lambda>i. (orig ! i, allow_decision)) ts)"
  using assms
proof (induction ts arbitrary: prev q)
  case Nil
  then show ?case by (cases q) simp
next
  case (Cons t ts)
  let ?m = "length orig" and ?R = "set prev"
  let ?p = "length (kept t ?R)"
  have t: "t < ?m" "t \<notin> ?R" using Cons.prems by auto
  note K = kept_remove [OF t]
  have lp: "?p < length (pending q)" using K(3) Cons.prems(1) by simp
  have rel: "ReleaseByIndex (int ?p) allow_decision q =
      (True, q\<lparr>pending := map ((!) orig) (kept ?m (insert t ?R))\<rparr>, [(orig ! t, allow_decision)])"
    using lp K Cons.prems(1) by (simp add: ReleaseByIndex_def map_remove_at [symmetric])
  let ?q1 = "q\<lparr>pending := map ((!) orig) (kept ?m (insert t ?R))\<rparr>"
  have "release_loop ts (prev @ [t]) ?q1 =
      (None, ?q1\<lparr>pending := map ((!) orig) (kept ?m (set (prev @ [t]) \<union> set ts))\<rparr>,
       map (\<lambda>i. (orig ! i, allow_decision)) ts)"
    by (rule Cons.IH) (use Cons.prems in auto)
  moreover have "int t - int (length (filter (\<lambda>p. p < t) prev)) = int ?p"
    by (rule current_index) (use Cons.prems(2) in simp)
  ultimately show ?case using rel by (simp add: Let_def Un_commute)
qed



end
