(* ===== verification/Plan_Leaf.thy ===== *)
theory Plan_Leaf
  imports Lehmer
begin

text \<open>
  Leaves of the plan tree: \<open>internal/star/leaf.go\<close>, \<open>nondet.go\<close>, \<open>interleavings.go\<close>, \<open>choose.go\<close> and the
  counting part of \<open>chooseaxes.go\<close>.

  A test fans out over three kinds of axes: named choices, per-occurrence outcomes of probabilistic
  faults, and orderings of parallel branches. The locale \<open>choice_axis\<close> is the Go interface
  \<open>NonDeterministicChoice\<close> with the laws its comment states; the mixed-radix enumeration is
  verified against it once and interpreted on the three kinds. Starlark values are a type variable:
  the code only stores and returns them. Go's \<open>int\<close> wraps at 64 bits where a factorial, a power or a
  product of cardinalities is computed; a panic is \<open>None\<close>.
\<close>

section \<open>Data\<close>

record 'v ChoiceVal =
  CName :: string
  Options :: "'v list"

record ProbFaultSite =
  PKey :: string
  PMaxFires :: int
  Prob :: float64

record InterleavingPolicy =
  Kind :: string
  PolicyN :: int

record ParallelSite =
  SKey :: string
  Branches :: int
  Policy :: InterleavingPolicy

record PlanLeaf =
  Index :: int
  Choices :: "string \<rightharpoonup> int"
  ProbabilityOutcomes :: "string \<rightharpoonup> bool list"
  IsDiscovery :: bool
  InterleavingIDs :: "string \<rightharpoonup> int"

definition optionIndex :: "PlanLeaf option \<Rightarrow> string \<Rightarrow> int option" where
  "optionIndex l name = (case l of None \<Rightarrow> None | Some leaf \<Rightarrow> if name = [] then None else Choices leaf name)"

definition InterleavingIndex :: "PlanLeaf option \<Rightarrow> string \<Rightarrow> int option" where
  "InterleavingIndex l key =
     (case l of None \<Rightarrow> None | Some leaf \<Rightarrow> if key = [] then None else InterleavingIDs leaf key)"

definition ProbabilityFire :: "PlanLeaf option \<Rightarrow> string \<Rightarrow> int \<Rightarrow> bool \<times> bool" where
  "ProbabilityFire l key occurrence =
     (case l of None \<Rightarrow> (False, False)
      | Some leaf \<Rightarrow>
        (if key = [] \<or> occurrence < 0 then (False, False)
         else case ProbabilityOutcomes leaf key of None \<Rightarrow> (False, False)
           | Some vec \<Rightarrow> (if occurrence \<ge> int (length vec) then (False, False)
                          else (vec ! nat occurrence, True))))"

text \<open>\<open>None\<close> stands for Starlark's \<open>None\<close>.\<close>

definition FirstOption :: "'v ChoiceVal \<Rightarrow> 'v option" where
  "FirstOption c = (case Options c of [] \<Rightarrow> None | v # _ \<Rightarrow> Some v)"

definition Selected :: "'v ChoiceVal \<Rightarrow> PlanLeaf option \<Rightarrow> 'v option" where
  "Selected c leaf =
     (case optionIndex leaf (CName c) of None \<Rightarrow> FirstOption c
      | Some idx \<Rightarrow> (if idx < 0 \<or> idx \<ge> int (length (Options c)) then FirstOption c
                      else Some (Options c ! nat idx)))"

section \<open>Orderings of parallel branches\<close>

fun fact_tab :: "nat \<Rightarrow> int" where
  "fact_tab 0 = 1"
| "fact_tab (Suc i) = wrap64 (fact_tab i * int (Suc i))"

function decode_perm :: "nat list \<Rightarrow> int \<Rightarrow> nat list option" where
  "decode_perm [] k = Some []"
| "decode_perm (x # xs) k =
     (let f = fact_tab (length xs) in
      if f = 0 then None
      else let digit0 = go_div k f;
               digit = (if digit0 \<ge> int (Suc (length xs)) then int (length xs) else digit0)
        in if digit < 0 then None
           else map_option ((#) ((x # xs) ! nat digit)) (decode_perm (remove_at (nat digit) (x # xs)) (go_rem k f)))"
  by pat_completeness auto
termination
  by (relation "measure (\<lambda>(xs, k). length xs)") (auto simp: length_remove_at split: if_splits)

definition permutationByIndex :: "int \<Rightarrow> int \<Rightarrow> nat list option" where
  "permutationByIndex n k =
     (if n \<le> 0 then Some [] else decode_perm [0..<nat n] (if k < 0 then 0 else k))"

definition identityOrdering :: "int \<Rightarrow> nat list" where
  "identityOrdering n = [0..<nat n]"

definition factorial_int :: "int \<Rightarrow> int" where
  "factorial_int n = foldl (\<lambda>f i. wrap64 (f * int i)) 1 [2..<Suc (nat n)]"

definition critical_cap :: "int \<Rightarrow> int" where
  "critical_cap n = (let c = 2 * n - 1 in if c > factorial_int n then factorial_int n else c)"

definition interleavingOrdering :: "ParallelSite \<Rightarrow> int \<Rightarrow> nat list option" where
  "interleavingOrdering site idx =
     (let n = Branches site; kind = Kind (Policy site) in
      if kind = ''single'' then Some (identityOrdering n)
      else if kind = ''all'' then permutationByIndex n idx
      else if kind = ''n'' then
        (if 0 \<le> idx \<and> idx < PolicyN (Policy site) then permutationByIndex n idx else Some (identityOrdering n))
      else if kind = ''critical'' then
        (if 0 \<le> idx \<and> idx < critical_cap n then permutationByIndex n idx else Some (identityOrdering n))
      else Some (identityOrdering n))"

definition interleavingCardinality :: "ParallelSite \<Rightarrow> int" where
  "interleavingCardinality site =
     (let n = Branches site; kind = Kind (Policy site) in
      if n < 2 then 0
      else if kind = ''single'' then 0
      else if kind = ''all'' then factorial_int n
      else if kind = ''n'' then
        (if PolicyN (Policy site) < factorial_int n then PolicyN (Policy site) else factorial_int n)
      else if kind = ''critical'' then critical_cap n
      else 0)"

datatype starlark_arg = SInt int | SString string | SOther string

definition parseInterleavingsKwarg :: "string \<Rightarrow> (string \<times> starlark_arg) list \<Rightarrow> InterleavingPolicy res" where
  "parseInterleavingsKwarg builtinName kwargs =
     (case map_of kwargs ''interleavings'' of
        None \<Rightarrow> Inr \<lparr>Kind = ''single'', PolicyN = 0\<rparr>
      | Some (SInt n) \<Rightarrow>
          (if \<not> (- (2 ^ 63) \<le> n \<and> n < 2 ^ 63) \<or> n \<le> 0
           then Inl (builtinName @ ''(): interleavings= must be a positive integer'')
           else if n = 1 then Inr \<lparr>Kind = ''single'', PolicyN = 0\<rparr>
           else Inr \<lparr>Kind = ''n'', PolicyN = n\<rparr>)
      | Some (SString s) \<Rightarrow>
          (if s = ''1'' then Inr \<lparr>Kind = ''single'', PolicyN = 0\<rparr>
           else if s = ''all'' then Inr \<lparr>Kind = ''all'', PolicyN = 0\<rparr>
           else if s = ''critical'' then Inr \<lparr>Kind = ''critical'', PolicyN = 0\<rparr>
           else if s = ''dpor'' then Inl (builtinName @ ''(): reserved for a future Faultbox release'')
           else if s = ''sut-internal'' then Inl (builtinName @ ''(): requires L5'')
           else Inl (builtinName @ ''(): interleavings= must be 1, an integer N, all, or critical''))
      | Some (SOther t) \<Rightarrow> Inl (builtinName @ ''(): interleavings= must be int or string''))"

definition policy_string :: "InterleavingPolicy \<Rightarrow> string" where
  "policy_string p =
     (if Kind p = ''single'' then ''1'' else if Kind p = ''all'' then ''all''
      else if Kind p = ''critical'' then ''critical''
      else if Kind p = ''n'' then show_int (PolicyN p) else Kind p)"

section \<open>Axes\<close>

definition choice_Cardinality :: "'v ChoiceVal \<Rightarrow> int" where
  "choice_Cardinality c = (if CName c = [] \<or> length (Options c) < 2 then 0 else int (length (Options c)))"

definition choice_Apply :: "'v ChoiceVal \<Rightarrow> PlanLeaf \<Rightarrow> int \<Rightarrow> PlanLeaf" where
  "choice_Apply c leaf digit =
     (if CName c = [] then leaf else leaf\<lparr>Choices := (Choices leaf)(CName c \<mapsto> digit)\<rparr>)"

definition prob_Cardinality :: "ProbFaultSite \<Rightarrow> int" where
  "prob_Cardinality p = (if PMaxFires p \<le> 0 then 0 else wrap64 (2 ^ nat (PMaxFires p)))"

definition fire_vector :: "nat \<Rightarrow> int \<Rightarrow> bool list" where
  "fire_vector n digit = map (\<lambda>b. (drop_bit b digit) mod 2 = 1) [0..<n]"

definition prob_Apply :: "ProbFaultSite \<Rightarrow> PlanLeaf \<Rightarrow> int \<Rightarrow> PlanLeaf" where
  "prob_Apply p leaf digit =
     (if PKey p = [] \<or> PMaxFires p \<le> 0 then leaf
      else leaf\<lparr>ProbabilityOutcomes := (ProbabilityOutcomes leaf)(PKey p \<mapsto> fire_vector (nat (PMaxFires p)) digit)\<rparr>)"

definition par_Cardinality :: "ParallelSite \<Rightarrow> int" where
  "par_Cardinality p = interleavingCardinality p"

definition par_Apply :: "ParallelSite \<Rightarrow> PlanLeaf \<Rightarrow> int \<Rightarrow> PlanLeaf" where
  "par_Apply p leaf digit =
     (if SKey p = [] then leaf else leaf\<lparr>InterleavingIDs := (InterleavingIDs leaf)(SKey p \<mapsto> digit)\<rparr>)"

datatype 'v NonDeterministicChoice = ChoiceAxis "'v ChoiceVal" | ProbAxis ProbFaultSite | ParAxis ParallelSite

fun Cardinality :: "'v NonDeterministicChoice \<Rightarrow> int" where
  "Cardinality (ChoiceAxis c) = choice_Cardinality c"
| "Cardinality (ProbAxis p) = prob_Cardinality p"
| "Cardinality (ParAxis p) = par_Cardinality p"

fun Apply :: "'v NonDeterministicChoice \<Rightarrow> PlanLeaf \<Rightarrow> int \<Rightarrow> PlanLeaf" where
  "Apply (ChoiceAxis c) leaf digit = choice_Apply c leaf digit"
| "Apply (ProbAxis p) leaf digit = prob_Apply p leaf digit"
| "Apply (ParAxis p) leaf digit = par_Apply p leaf digit"

definition collectChoices :: "'v ChoiceVal list \<Rightarrow> ProbFaultSite list \<Rightarrow> ParallelSite list \<Rightarrow>
    'v NonDeterministicChoice list" where
  "collectChoices axes probAxes parAxes =
     map ChoiceAxis (filter (\<lambda>a. choice_Cardinality a > 0) axes) @
     map ProbAxis (filter (\<lambda>p. prob_Cardinality p > 0) probAxes) @
     map ParAxis (filter (\<lambda>p. par_Cardinality p > 0) parAxes)"

definition fresh_leaf :: "int \<Rightarrow> PlanLeaf" where
  "fresh_leaf i = \<lparr>Index = i, Choices = Map.empty, ProbabilityOutcomes = Map.empty, IsDiscovery = False,
     InterleavingIDs = Map.empty\<rparr>"

fun stamp :: "'v NonDeterministicChoice list \<Rightarrow> int \<Rightarrow> PlanLeaf \<Rightarrow> PlanLeaf" where
  "stamp [] rem leaf = leaf"
| "stamp (c # cs) rem leaf =
     stamp cs (go_div rem (Cardinality c)) (Apply c leaf (go_rem rem (Cardinality c)))"

definition expandLeaves :: "'v NonDeterministicChoice list \<Rightarrow> PlanLeaf list option" where
  "expandLeaves choices =
     (if choices = [] then Some [fresh_leaf 0]
      else let total = foldl (\<lambda>t c. wrap64 (t * Cardinality c)) 1 choices in
        if total < 0 then None
        else Some (map (\<lambda>i. stamp choices (int i) (fresh_leaf (int i))) [0..<nat total]))"

definition enumerateLeaves :: "'v ChoiceVal list \<Rightarrow> ProbFaultSite list \<Rightarrow> ParallelSite list \<Rightarrow> PlanLeaf list option" where
  "enumerateLeaves axes probAxes parAxes = expandLeaves (collectChoices axes probAxes parAxes)"

section \<open>Recording during the discovery run\<close>

definition add_axis :: "'v ChoiceVal list \<Rightarrow> 'v ChoiceVal \<Rightarrow> 'v ChoiceVal list" where
  "add_axis axes c =
     (if CName c = [] \<or> length (Options c) < 2 then axes
      else if CName c \<in> set (map CName axes) then axes else axes @ [c])"

definition collectNamedAxes :: "'v ChoiceVal list \<Rightarrow> 'v ChoiceVal list" where
  "collectNamedAxes choices = foldl add_axis [] choices"

definition recordProbFault :: "ProbFaultSite \<Rightarrow> ProbFaultSite list \<Rightarrow> ProbFaultSite list" where
  "recordProbFault site sites =
     (if PKey site = [] \<or> PMaxFires site \<le> 0 then sites
      else if list_ex (\<lambda>s. PKey s = PKey site) sites then sites else sites @ [site])"

definition recordParallelSite :: "ParallelSite \<Rightarrow> ParallelSite list \<Rightarrow> ParallelSite list" where
  "recordParallelSite site sites =
     (if SKey site = [] \<or> Branches site < 2 then sites
      else if list_ex (\<lambda>s. SKey s = SKey site) sites then sites else sites @ [site])"

text \<open>The recorded choices with the length of the part recorded while the spec was loaded.\<close>

definition resetBodyChoices :: "nat \<Rightarrow> 'v ChoiceVal list \<Rightarrow> 'v ChoiceVal list" where
  "resetBodyChoices specChoiceCount choices =
     (if specChoiceCount < length choices then take specChoiceCount choices else choices)"

definition bodyChoices :: "nat \<Rightarrow> 'v ChoiceVal list \<Rightarrow> 'v ChoiceVal list" where
  "bodyChoices specChoiceCount choices =
     (if specChoiceCount \<ge> length choices then [] else drop specChoiceCount choices)"

section \<open>Static counting\<close>

record ChooseAxis =
  AName :: string
  AValues :: "string list"
  Known :: bool

definition axis_Cardinality :: "ChooseAxis \<Rightarrow> int" where
  "axis_Cardinality a = (if \<not> Known a \<or> AValues a = [] then 1 else int (length (AValues a)))"

definition ChooseLeafCount :: "ChooseAxis list \<Rightarrow> int" where
  "ChooseLeafCount axes =
     (let n = foldl (\<lambda>n a. wrap64 (n * axis_Cardinality a)) 1 axes in if n < 1 then 1 else n)"

definition ChooseAxesComplete :: "ChooseAxis list \<Rightarrow> bool" where
  "ChooseAxesComplete axes = list_all Known axes"

definition sortedAxisNames :: "ChooseAxis list \<Rightarrow> string list" where
  "sortedAxisNames axes = sort (map AName axes)"

section \<open>The contract of an axis and the mixed-radix walk\<close>

locale choice_axis =
  fixes valid :: "'x \<Rightarrow> bool"
    and card_of :: "'x \<Rightarrow> nat"
    and stamp_of :: "'x \<Rightarrow> 'l \<Rightarrow> nat \<Rightarrow> 'l"
    and digit_of :: "'x \<Rightarrow> 'l \<Rightarrow> nat option"
    and axis_key :: "'x \<Rightarrow> 'k"
  assumes digit_stamp: "valid x \<Longrightarrow> d < card_of x \<Longrightarrow> digit_of x (stamp_of x l d) = Some d"
    and digit_frame: "axis_key x \<noteq> axis_key y \<Longrightarrow> digit_of y (stamp_of x l d) = digit_of y l"
begin

fun walk :: "'x list \<Rightarrow> nat \<Rightarrow> 'l \<Rightarrow> 'l" where
  "walk [] r l = l"
| "walk (x # xs) r l = walk xs (r div card_of x) (stamp_of x l (r mod card_of x))"

definition leaf_total :: "'x list \<Rightarrow> nat" where
  "leaf_total xs = prod_list (map card_of xs)"

fun leaf_code :: "'x list \<Rightarrow> ('x \<Rightarrow> nat) \<Rightarrow> nat" where
  "leaf_code [] f = 0"
| "leaf_code (x # xs) f = f x + card_of x * leaf_code xs f"

lemma leaf_code_less: "\<forall>x \<in> set xs. f x < card_of x \<Longrightarrow> leaf_code xs f < leaf_total xs"
proof (induction xs)
  case (Cons x xs)
  then have IH: "leaf_code xs f + 1 \<le> leaf_total xs" by simp
  have "f x + card_of x * leaf_code xs f < card_of x * (leaf_code xs f + 1)" using Cons.prems by simp
  also have "\<dots> \<le> card_of x * leaf_total xs" by (rule mult_le_mono2 [OF IH])
  finally show ?case by (simp add: leaf_total_def)
qed (simp add: leaf_total_def)

lemma leaf_code_surj:
  "distinct xs \<Longrightarrow> r < leaf_total xs \<Longrightarrow> \<exists>f. (\<forall>x \<in> set xs. f x < card_of x) \<and> leaf_code xs f = r"
proof (induction xs arbitrary: r)
  case (Cons x xs)
  have pos: "0 < card_of x" using Cons.prems(2) by (cases "card_of x") (simp_all add: leaf_total_def)
  have "r div card_of x < leaf_total xs"
    using Cons.prems(2) by (simp add: leaf_total_def less_mult_imp_div_less mult.commute)
  from Cons.IH [OF _ this] Cons.prems(1) obtain f
    where f: "\<forall>x \<in> set xs. f x < card_of x" "leaf_code xs f = r div card_of x" by auto
  let ?g = "f(x := r mod card_of x)"
  have "leaf_code ys ?g = leaf_code ys f" if "x \<notin> set ys" for ys
    using that by (induction ys) auto
  then have "leaf_code (x # xs) ?g = r" using f(2) Cons.prems(1) by simp
  moreover have "\<forall>y \<in> set (x # xs). ?g y < card_of y" using f(1) pos by simp
  ultimately show ?case by blast
qed (simp add: leaf_total_def)

lemma leaf_code_cong: "(\<And>x. x \<in> set xs \<Longrightarrow> f x = g x) \<Longrightarrow> leaf_code xs f = leaf_code xs g"
  by (induction xs) auto

lemma walk_frame: "axis_key y \<notin> axis_key ` set xs \<Longrightarrow> digit_of y (walk xs r l) = digit_of y l"
proof (induction xs arbitrary: r l)
  case (Cons x xs)
  then have "axis_key x \<noteq> axis_key y" by auto
  with Cons show ?case by (simp add: digit_frame)
qed simp

lemma walk_code:
  "distinct (map axis_key xs) \<Longrightarrow> \<forall>x \<in> set xs. valid x \<and> f x < card_of x \<Longrightarrow> x \<in> set xs \<Longrightarrow>
   digit_of x (walk xs (leaf_code xs f) l) = Some (f x)"
proof (induction xs arbitrary: l)
  case (Cons y xs)
  have fy: "f y < card_of y" "valid y" using Cons.prems(2) by auto
  then have w: "walk (y # xs) (leaf_code (y # xs) f) l = walk xs (leaf_code xs f) (stamp_of y l (f y))"
    by simp
  show ?case
  proof (cases "x = y")
    case True
    then have "axis_key x \<notin> axis_key ` set xs" using Cons.prems(1) by auto
    then show ?thesis unfolding w using True fy by (simp add: walk_frame digit_stamp)
  next
    case False
    with Cons show ?thesis unfolding w by simp
  qed
qed simp

lemma one_leaf_per_assignment:
  assumes "distinct (map axis_key xs)" and "\<forall>x \<in> set xs. valid x \<and> f x < card_of x"
  shows "\<exists>!i. i < leaf_total xs \<and> (\<forall>x \<in> set xs. digit_of x (walk xs i (l i)) = Some (f x))"
proof (rule ex1I [of _ "leaf_code xs f"])
  show "leaf_code xs f < leaf_total xs \<and> (\<forall>x \<in> set xs. digit_of x (walk xs (leaf_code xs f) (l (leaf_code xs f))) = Some (f x))"
    using leaf_code_less assms(2) walk_code [OF assms] by blast
next
  fix i
  assume i: "i < leaf_total xs \<and> (\<forall>x \<in> set xs. digit_of x (walk xs i (l i)) = Some (f x))"
  have "distinct xs" using assms(1) by (simp add: distinct_map)
  with i obtain g where g: "\<forall>x \<in> set xs. g x < card_of x" "leaf_code xs g = i" using leaf_code_surj by blast
  have "f x = g x" if "x \<in> set xs" for x
  proof -
    have "digit_of x (walk xs (leaf_code xs g) (l i)) = Some (g x)"
      by (rule walk_code [OF assms(1)]) (use assms(2) g(1) that in auto)
    with i g(2) that show ?thesis by simp
  qed
  then have "leaf_code xs f = leaf_code xs g" by (rule leaf_code_cong)
  with g(2) show "i = leaf_code xs f" by simp
qed

end

text \<open>What the runtime reads back from a leaf for an axis, through the accessors of \<open>PlanLeaf\<close>.\<close>

fun leaf_digit :: "'v NonDeterministicChoice \<Rightarrow> PlanLeaf \<Rightarrow> nat option" where
  "leaf_digit (ChoiceAxis c) l = map_option nat (optionIndex (Some l) (CName c))"
| "leaf_digit (ProbAxis p) l =
     (let fires = map (\<lambda>i. ProbabilityFire (Some l) (PKey p) (int i)) [0..<nat (PMaxFires p)]
      in if list_all snd fires then Some (horner_sum of_bool 2 (map fst fires)) else None)"
| "leaf_digit (ParAxis p) l = map_option nat (InterleavingIndex (Some l) (SKey p))"

fun choice_key :: "'v NonDeterministicChoice \<Rightarrow> nat \<times> string" where
  "choice_key (ChoiceAxis c) = (0, CName c)"
| "choice_key (ProbAxis p) = (1, PKey p)"
| "choice_key (ParAxis p) = (2, SKey p)"

definition valid_choice :: "'v NonDeterministicChoice \<Rightarrow> bool" where
  "valid_choice c \<longleftrightarrow> snd (choice_key c) \<noteq> [] \<and> 0 < Cardinality c"

lemma horner_fire_vector:
  "horner_sum of_bool 2 (fire_vector n (int d)) = take_bit n d"
proof -
  have "(drop_bit b (int d) mod 2 = 1) = bit d b" for b
    by (simp add: bit_iff_odd_drop_bit odd_iff_mod_2_eq_one flip: of_nat_drop_bit) presburger
  then have "fire_vector n (int d) = map (bit d) [0..<n]" by (simp add: fire_vector_def)
  then show ?thesis by (simp add: horner_sum_bit_eq_take_bit)
qed

lemma wrap64_power_pos:
  assumes "0 < wrap64 (2 ^ n)"
  shows "n < 63" and "wrap64 (2 ^ n) = 2 ^ n"
proof -
  show "n < 63"
  proof (rule ccontr)
    assume "\<not> n < 63"
    then obtain m where n: "n = 63 + m" by (metis add.commute le_Suc_ex linorder_not_less)
    show False
    proof (cases m)
      case 0
      with assms n show False by (simp add: wrap64_def)
    next
      case (Suc k)
      with n have "(2 :: int) ^ n = 2 ^ 64 * 2 ^ k" by (simp add: power_add)
      with assms show False by (simp add: wrap64_def)
    qed
  qed
  then have "(2 :: int) ^ n < 2 ^ 63" by (intro power_strict_increasing) simp_all
  moreover have "0 \<le> (2 :: int) ^ n" by simp
  ultimately show "wrap64 (2 ^ n) = 2 ^ n" by (intro wrap64_id) linarith+
qed

lemma prob_fires_stamped:
  assumes "PKey p \<noteq> []" and "0 < PMaxFires p"
  shows "map (\<lambda>i. ProbabilityFire (Some (prob_Apply p l d)) (PKey p) (int i)) [0..<nat (PMaxFires p)] =
    map (\<lambda>b. (b, True)) (fire_vector (nat (PMaxFires p)) d)"
proof (rule nth_equalityI)
  show "length (map (\<lambda>i. ProbabilityFire (Some (prob_Apply p l d)) (PKey p) (int i)) [0..<nat (PMaxFires p)]) =
      length (map (\<lambda>b. (b, True)) (fire_vector (nat (PMaxFires p)) d))"
    by (simp add: fire_vector_def)
qed (use assms in \<open>simp add: ProbabilityFire_def prob_Apply_def fire_vector_def\<close>)

lemma leaf_digit_Apply:
  assumes "valid_choice c" and "d < nat (Cardinality c)"
  shows "leaf_digit c (Apply c l (int d)) = Some d"
proof (cases c)
  case (ChoiceAxis x)
  with assms show ?thesis by (simp add: valid_choice_def choice_Apply_def optionIndex_def)
next
  case (ParAxis x)
  with assms show ?thesis by (simp add: valid_choice_def par_Apply_def InterleavingIndex_def)
next
  case (ProbAxis p)
  with assms have k: "PKey p \<noteq> []" and c: "0 < prob_Cardinality p" by (simp_all add: valid_choice_def)
  then have m: "0 < PMaxFires p" and w: "0 < wrap64 (2 ^ nat (PMaxFires p))"
    by (auto simp: prob_Cardinality_def split: if_splits)
  have "d < nat (2 ^ nat (PMaxFires p))"
    using assms(2) m ProbAxis by (simp add: prob_Cardinality_def wrap64_power_pos(2) [OF w])
  then have "d < 2 ^ nat (PMaxFires p)" by (simp add: nat_power_eq)
  then have "take_bit (nat (PMaxFires p)) d = d" by (simp add: take_bit_nat_eq_self_iff)
  then show ?thesis
    using ProbAxis prob_fires_stamped [OF k m, of l "int d"]
    by (simp add: horner_fire_vector o_def list_all_iff)
qed

lemma ProbabilityFire_frame:
  "choice_key x \<noteq> (1, k) \<Longrightarrow> ProbabilityFire (Some (Apply x l d)) k = ProbabilityFire (Some l) k"
  by (cases x) (auto simp: choice_Apply_def prob_Apply_def par_Apply_def ProbabilityFire_def fun_eq_iff)

lemma leaf_digit_frame:
  assumes "choice_key x \<noteq> choice_key y"
  shows "leaf_digit y (Apply x l d) = leaf_digit y l"
proof (cases y)
  case (ProbAxis p)
  with assms show ?thesis by (simp add: ProbabilityFire_frame)
qed (use assms in \<open>cases x; auto simp: choice_Apply_def prob_Apply_def par_Apply_def optionIndex_def
    InterleavingIndex_def\<close>)+

interpretation leaf_axis: choice_axis valid_choice "\<lambda>c. nat (Cardinality c)" "\<lambda>c l d. Apply c l (int d)"
    leaf_digit choice_key
  by unfold_locales (simp_all add: leaf_digit_Apply leaf_digit_frame)

lemma stamp_walk:
  "\<forall>c \<in> set cs. 0 < Cardinality c \<Longrightarrow> stamp cs (int i) l = leaf_axis.walk cs i l"
proof (induction cs arbitrary: i l)
  case (Cons c cs)
  then have "Cardinality c = int (nat (Cardinality c))" by simp
  then have "go_div (int i) (Cardinality c) = int (i div nat (Cardinality c))"
    "go_rem (int i) (Cardinality c) = int (i mod nat (Cardinality c))"
    by (metis go_div_nat, metis go_rem_nat)
  with Cons show ?case by simp
qed simp

lemma total_no_overflow:
  assumes "\<forall>c \<in> set cs. 0 < Cardinality c" and "0 < t" and "t * prod_list (map Cardinality cs) < 2 ^ 63"
  shows "foldl (\<lambda>t c. wrap64 (t * Cardinality c)) t cs = t * prod_list (map Cardinality cs)"
  using assms
proof (induction cs arbitrary: t)
  case (Cons c cs)
  have p: "1 \<le> prod_list (map Cardinality cs)"
  proof -
    have "0 < prod_list (map Cardinality ds)" if "\<forall>d \<in> set ds. 0 < Cardinality d" for ds
      using that by (induction ds) simp_all
    then show ?thesis using Cons.prems(1) by fastforce
  qed
  have pos: "0 < t * Cardinality c" using Cons.prems by simp
  have "t * Cardinality c * 1 \<le> t * Cardinality c * prod_list (map Cardinality cs)"
    using p pos by (intro mult_left_mono) simp_all
  then have "t * Cardinality c < 2 ^ 63" using Cons.prems(3) by (simp add: mult.assoc)
  then have "wrap64 (t * Cardinality c) = t * Cardinality c" using pos by (intro wrap64_id) simp_all
  with Cons.IH [of "t * Cardinality c"] Cons.prems pos show ?case by (simp add: mult.assoc)
qed simp

lemma nat_prod_list: "\<forall>c \<in> set cs. 0 < Cardinality c \<Longrightarrow>
    nat (prod_list (map Cardinality cs)) = leaf_axis.leaf_total cs"
  by (induction cs) (simp_all add: leaf_axis.leaf_total_def nat_mult_distrib)

lemma expandLeaves_covers:
  assumes "distinct (map choice_key cs)" and "\<forall>c \<in> set cs. valid_choice c"
    and "prod_list (map Cardinality cs) < 2 ^ 63"
  shows "\<exists>leaves. expandLeaves cs = Some leaves \<and> int (length leaves) = prod_list (map Cardinality cs) \<and>
    (\<forall>f. (\<forall>c \<in> set cs. f c < nat (Cardinality c)) \<longrightarrow>
       (\<exists>!i. i < length leaves \<and> (\<forall>c \<in> set cs. leaf_digit c (leaves ! i) = Some (f c))))"
proof (cases "cs = []")
  case True
  then show ?thesis by (simp add: expandLeaves_def)
next
  case False
  let ?P = "prod_list (map Cardinality cs)"
  have pos: "\<forall>c \<in> set cs. 0 < Cardinality c" using assms(2) by (simp add: valid_choice_def)
  have pp: "0 < ?P" using pos by (induction cs) simp_all
  have t: "foldl (\<lambda>t c. wrap64 (t * Cardinality c)) 1 cs = ?P"
    using total_no_overflow [OF pos, of 1] assms(3) by simp
  let ?L = "map (\<lambda>i. leaf_axis.walk cs i (fresh_leaf (int i))) [0..<nat ?P]"
  have e: "expandLeaves cs = Some ?L"
    using False pp by (simp add: expandLeaves_def Let_def t stamp_walk [OF pos])
  have "\<exists>!i. i < length ?L \<and> (\<forall>c \<in> set cs. leaf_digit c (?L ! i) = Some (f c))"
    if "\<forall>c \<in> set cs. f c < nat (Cardinality c)" for f
  proof -
    have "\<exists>!i. i < leaf_axis.leaf_total cs \<and>
        (\<forall>c \<in> set cs. leaf_digit c (leaf_axis.walk cs i (fresh_leaf (int i))) = Some (f c))"
      using leaf_axis.one_leaf_per_assignment [OF assms(1), of f "\<lambda>i. fresh_leaf (int i)"] assms(2) that by blast
    then show ?thesis by (simp add: nat_prod_list [OF pos] cong: conj_cong)
  qed
  with e pp show ?thesis by (intro exI [of _ ?L]) simp
qed

text \<open>The recording functions keep the keys of a discovery run distinct and non-empty.\<close>

lemma collectNamedAxes_names:
  "distinct (map CName (collectNamedAxes cs)) \<and> [] \<notin> set (map CName (collectNamedAxes cs))"
proof -
  let ?ok = "\<lambda>axes. distinct (map CName axes) \<and> [] \<notin> set (map CName axes)"
  have step: "?ok axes \<Longrightarrow> ?ok (add_axis axes c)" for axes and c :: "'a ChoiceVal"
    by (auto simp: add_axis_def)
  have "?ok axes \<Longrightarrow> ?ok (foldl add_axis axes cs)" for axes
  proof (induction cs arbitrary: axes)
    case (Cons c cs)
    show ?case unfolding foldl_Cons by (rule Cons.IH [OF step [OF Cons.prems]])
  qed simp
  from this [of "[]"] show ?thesis by (simp add: collectNamedAxes_def)
qed

lemma recordProbFault_keys:
  "distinct (map PKey ps) \<Longrightarrow> [] \<notin> set (map PKey ps) \<Longrightarrow>
   distinct (map PKey (recordProbFault p ps)) \<and> [] \<notin> set (map PKey (recordProbFault p ps))"
  by (auto simp: recordProbFault_def list_ex_iff)

lemma recordParallelSite_keys:
  "distinct (map SKey ps) \<Longrightarrow> [] \<notin> set (map SKey ps) \<Longrightarrow>
   distinct (map SKey (recordParallelSite p ps)) \<and> [] \<notin> set (map SKey (recordParallelSite p ps))"
  by (auto simp: recordParallelSite_def list_ex_iff)

lemma collectChoices_valid:
  assumes "[] \<notin> set (map PKey ps)" and "[] \<notin> set (map SKey qs)"
  shows "\<forall>c \<in> set (collectChoices axes ps qs). valid_choice c"
  using assms
  by (auto simp: collectChoices_def valid_choice_def choice_Cardinality_def image_iff split: if_splits)

lemma collectChoices_keys:
  assumes "distinct (map CName axes)" and "distinct (map PKey ps)" and "distinct (map SKey qs)"
  shows "distinct (map choice_key (collectChoices axes ps qs))"
proof -
  have "map choice_key (collectChoices axes ps qs) =
      map (Pair 0) (map CName (filter (\<lambda>a. choice_Cardinality a > 0) axes)) @
      map (Pair 1) (map PKey (filter (\<lambda>p. prob_Cardinality p > 0) ps)) @
      map (Pair 2) (map SKey (filter (\<lambda>p. par_Cardinality p > 0) qs))"
    by (simp add: collectChoices_def)
  moreover have "distinct (map CName (filter P axes))" "distinct (map PKey (filter Q ps))"
    "distinct (map SKey (filter R qs))" for P Q R
    using assms by (simp_all add: distinct_map_filter)
  moreover have "distinct xs \<Longrightarrow> distinct (map (Pair (i :: nat)) (xs :: string list))" for i xs
    by (simp add: distinct_map inj_on_def)
  moreover have "set (map (Pair (i :: nat)) xs) \<inter> set (map (Pair j) (ys :: string list)) = {}" if "i \<noteq> j" for i j xs ys
    using that by auto
  ultimately show ?thesis by (simp only: distinct_append) auto
qed

text \<open>C5. The plan tree covers every combination exactly once. Whatever named choices, probabilistic faults and
  parallel calls the discovery run recorded, as long as their number of combinations fits an \<open>int\<close>, the
  enumeration yields exactly that many leaves, and for every way of choosing an option, a vector of
  fault outcomes and an ordering on each axis there is exactly one leaf from which the runtime reads
  that choice.\<close>

theorem plan_covers_every_assignment:
  assumes "distinct (map CName axes)" and "distinct (map PKey ps)" and "distinct (map SKey qs)"
    and "[] \<notin> set (map PKey ps)" and "[] \<notin> set (map SKey qs)"
    and "prod_list (map Cardinality (collectChoices axes ps qs)) < 2 ^ 63"
  shows "\<exists>leaves. enumerateLeaves axes ps qs = Some leaves \<and>
    int (length leaves) = prod_list (map Cardinality (collectChoices axes ps qs)) \<and>
    (\<forall>f. (\<forall>c \<in> set (collectChoices axes ps qs). f c < nat (Cardinality c)) \<longrightarrow>
       (\<exists>!i. i < length leaves \<and>
          (\<forall>c \<in> set (collectChoices axes ps qs). leaf_digit c (leaves ! i) = Some (f c))))"
  unfolding enumerateLeaves_def
  using expandLeaves_covers [OF collectChoices_keys [OF assms(1-3)] collectChoices_valid [OF assms(4,5)] assms(6)]
  by blast

definition demo_axes :: "int ChoiceVal list" where
  "demo_axes = [\<lparr>CName = ''retries'', Options = [0, 1, 3]\<rparr>]"

definition demo_prob :: "ProbFaultSite list" where
  "demo_prob = [\<lparr>PKey = ''db:write'', PMaxFires = 2, Prob = Fin (1 / 2)\<rparr>]"

definition demo_par :: "ParallelSite list" where
  "demo_par = [\<lparr>SKey = ''spec:7'', Branches = 2, Policy = \<lparr>Kind = ''all'', PolicyN = 0\<rparr>\<rparr>]"

theorem plan_covers_every_assignment_witness:
  "\<exists>leaves. enumerateLeaves demo_axes demo_prob demo_par = Some leaves \<and> length leaves = 24 \<and>
    (\<exists>!i. i < 24 \<and> (\<forall>c \<in> set (collectChoices demo_axes demo_prob demo_par). leaf_digit c (leaves ! i) = Some 1))"
proof -
  have c: "collectChoices demo_axes demo_prob demo_par =
      [ChoiceAxis (hd demo_axes), ProbAxis (hd demo_prob), ParAxis (hd demo_par)]"
    and n: "choice_Cardinality (hd demo_axes) = 3" "prob_Cardinality (hd demo_prob) = 4"
      "par_Cardinality (hd demo_par) = 2"
    by (simp_all add: collectChoices_def demo_axes_def demo_prob_def demo_par_def choice_Cardinality_def
        prob_Cardinality_def par_Cardinality_def interleavingCardinality_def factorial_int_def wrap64_def
        Let_def upt_rec)
  have h: "distinct (map CName demo_axes)" "distinct (map PKey demo_prob)" "distinct (map SKey demo_par)"
    "[] \<notin> set (map PKey demo_prob)" "[] \<notin> set (map SKey demo_par)"
    by (simp_all add: demo_axes_def demo_prob_def demo_par_def)
  have p: "prod_list (map Cardinality (collectChoices demo_axes demo_prob demo_par)) = 24" by (simp add: c n)
  then have "prod_list (map Cardinality (collectChoices demo_axes demo_prob demo_par)) < 2 ^ 63" by simp
  from plan_covers_every_assignment [OF h this] obtain leaves where
    L: "enumerateLeaves demo_axes demo_prob demo_par = Some leaves" "int (length leaves) = 24"
    and cov: "\<forall>f. (\<forall>c \<in> set (collectChoices demo_axes demo_prob demo_par). f c < nat (Cardinality c)) \<longrightarrow>
       (\<exists>!i. i < length leaves \<and>
          (\<forall>c \<in> set (collectChoices demo_axes demo_prob demo_par). leaf_digit c (leaves ! i) = Some (f c)))"
    unfolding p by blast
  from L(2) have len: "length leaves = 24" by simp
  have "\<forall>c \<in> set (collectChoices demo_axes demo_prob demo_par). (\<lambda>_. 1) c < nat (Cardinality c)"
    unfolding c by (simp add: n)
  from cov [THEN spec, THEN mp, OF this] L(1) len show ?thesis by auto
qed

section \<open>Orderings\<close>

lemma fact_20: "(fact 20 :: nat) = 2432902008176640000"
  by (simp add: fact_numeral)

lemma fact_tab_fact: "n \<le> 20 \<Longrightarrow> fact_tab n = int (fact n)"
proof (induction n)
  case (Suc n)
  have "(fact (Suc n) :: nat) \<le> fact 20" using Suc.prems by (rule fact_mono)
  then have b: "(fact (Suc n) :: nat) \<le> 2432902008176640000" by (simp only: fact_20)
  define m :: nat where "m = fact (Suc n)"
  have "m \<le> 2432902008176640000" unfolding m_def by (rule b)
  then have "wrap64 (int m) = int m" by (intro wrap64_id) simp_all
  moreover have "int (fact n) * int (Suc n) = int m" by (simp add: m_def algebra_simps)
  ultimately show ?case using Suc by (simp only: fact_tab.simps m_def)
qed simp

lemma factorial_int_tab: "factorial_int (int n) = fact_tab n"
proof (induction n)
  case 0
  then show ?case by (simp add: factorial_int_def)
next
  case (Suc n)
  show ?case
  proof (cases "n = 0")
    case True
    then show ?thesis by (simp add: factorial_int_def wrap64_def)
  next
    case False
    then have "[2..<Suc (Suc n)] = [2..<Suc n] @ [Suc n]" by (intro upt_Suc_append) simp
    with Suc show ?thesis by (simp only: factorial_int_def nat_int foldl_append foldl.simps fact_tab.simps)
  qed
qed

lemma decode_lehmer:
  "length xs \<le> 20 \<Longrightarrow> k < fact (length xs) \<Longrightarrow> decode_perm xs (int k) = Some (lehmer xs k)"
proof (induction "length xs" arbitrary: xs k)
  case (Suc n)
  obtain x zs where xs: "xs = x # zs" and n: "n = length zs" using Suc(2) by (cases xs) auto
  let ?d = "k div fact n"
  have k: "k < fact (Suc (length zs))" using Suc(4) unfolding xs by (simp only: length_Cons)
  have d: "?d \<le> length zs" using fact_digit_less [OF k] n by simp
  have l: "n = length (remove_at ?d xs)" using d n by (simp add: xs length_remove_at)
  have f: "fact_tab (length zs) = int (fact n)" using Suc(2,3) n by (simp add: fact_tab_fact)
  have "decode_perm (remove_at ?d xs) (int (k mod fact n)) = Some (lehmer (remove_at ?d xs) (k mod fact n))"
    by (rule Suc(1) [OF l]) (use Suc(2,3) l in simp_all)
  moreover have "decode_perm xs (int k) =
      map_option ((#) (xs ! ?d)) (decode_perm (remove_at ?d xs) (int (k mod fact n)))"
    unfolding xs decode_perm.simps Let_def f go_div_nat go_rem_nat using d by (simp add: n del: of_nat_fact)
  moreover have "lehmer xs k = xs ! ?d # lehmer (remove_at ?d xs) (k mod fact n)"
    using lehmer_Cons [OF k, of x] unfolding xs n .
  ultimately show ?case by (simp only: option.map)
qed simp

lemma permutationByIndex_lehmer:
  assumes "n \<le> 20" and "k < fact n"
  shows "permutationByIndex (int n) (int k) = Some (lehmer [0..<n] k)"
  using assms decode_lehmer [of "[0..<n]" k] by (cases "n = 0") (simp_all add: permutationByIndex_def)

text \<open>The plan walker and the engine agree on orderings: for up to twenty branches, index \<open>k\<close> stands for
  the \<open>k\<close>-th ordering of the branches in lexicographic order, and every ordering has exactly one index.\<close>

theorem permutationByIndex_enumerates:
  assumes "n \<le> 20"
  shows "bij_betw (\<lambda>k. the (permutationByIndex (int n) (int k))) {0..<fact n} {p. mset p = mset [0..<n]} \<and>
    (\<forall>j k. j < k \<and> k < fact n \<longrightarrow>
      (the (permutationByIndex (int n) (int j)), the (permutationByIndex (int n) (int k))) \<in> lexord {(a, b). a < b})"
proof (intro conjI allI impI)
  have e: "the (permutationByIndex (int n) (int k)) = lehmer [0..<n] k" if "k < fact n" for k
    using permutationByIndex_lehmer [OF assms that] by simp
  have "bij_betw (lehmer [0..<n]) {0..<fact n} {p. mset p = mset [0..<n]}"
    using lehmer_bij [of "[0..<n]"] by simp
  then show "bij_betw (\<lambda>k. the (permutationByIndex (int n) (int k))) {0..<fact n} {p. mset p = mset [0..<n]}"
    by (subst bij_betw_cong [where g = "lehmer [0..<n]"]) (simp_all add: e)
  fix j k :: nat
  assume jk: "j < k \<and> k < fact n"
  then have "(lehmer [0..<n] j, lehmer [0..<n] k) \<in> lexord {(a, b). a < b}"
    by (intro lehmer_lex) (simp_all add: sorted_wrt_upt)
  with jk show "(the (permutationByIndex (int n) (int j)), the (permutationByIndex (int n) (int k))) \<in> lexord {(a, b). a < b}"
    by (simp add: e)
qed

theorem permutationByIndex_enumerates_witness:
  "(the (permutationByIndex (int 3) (int 2)), the (permutationByIndex (int 3) (int 4))) \<in> lexord {(a, b). a < b}"
proof -
  have "2 < (4 :: nat) \<and> 4 < (fact 3 :: nat)" by (simp add: fact_numeral)
  moreover have "(3 :: nat) \<le> 20" by simp
  ultimately show ?thesis using permutationByIndex_enumerates by blast
qed

text \<open>Distinct leaves run distinct orderings: under every policy, the indices that a parallel call
  contributes to the plan stand for pairwise different orderings of all its branches, so no leaf
  repeats another one's schedule.\<close>

theorem interleavings_distinct:
  assumes "2 \<le> Branches site" and "Branches site \<le> 20"
  shows "inj_on (\<lambda>i. interleavingOrdering site (int i)) {0..<nat (interleavingCardinality site)} \<and>
    (\<forall>i \<in> {0..<nat (interleavingCardinality site)}.
       \<exists>p. interleavingOrdering site (int i) = Some p \<and> mset p = mset [0..<nat (Branches site)])"
proof -
  define n where "n = nat (Branches site)"
  have b: "Branches site = int n" and n20: "n \<le> 20" using assms by (simp_all add: n_def)
  have f: "factorial_int (Branches site) = int (fact n)"
    using n20 unfolding b by (simp add: factorial_int_tab fact_tab_fact)
  have o': "interleavingOrdering site (int i) = Some (lehmer [0..<n] i)" and lt: "i < fact n"
    if "i < nat (interleavingCardinality site)" for i
  proof -
    show l: "i < fact n"
      using that assms
      by (auto simp: interleavingCardinality_def critical_cap_def f Let_def simp del: of_nat_fact split: if_splits)
    from that show "interleavingOrdering site (int i) = Some (lehmer [0..<n] i)"
      using assms permutationByIndex_lehmer [OF n20 l]
      by (auto simp: interleavingCardinality_def interleavingOrdering_def b [symmetric] Let_def split: if_splits)
  qed
  have "inj_on (lehmer [0..<n]) {0..<fact n}" using lehmer_bij [of "[0..<n]"] by (simp add: bij_betw_def)
  then have "inj_on (\<lambda>i. interleavingOrdering site (int i)) {0..<nat (interleavingCardinality site)}"
    using o' lt by (auto simp: inj_on_def)
  then show ?thesis using o' lt mset_lehmer [of _ "[0..<n]"] by (simp add: n_def)
qed

theorem interleavings_distinct_witness:
  "interleavingOrdering (hd demo_par) 0 \<noteq> interleavingOrdering (hd demo_par) 1"
proof -
  have "interleavingCardinality (hd demo_par) = 2"
    by (simp add: demo_par_def interleavingCardinality_def factorial_int_def wrap64_def Let_def upt_rec)
  then have "inj_on (\<lambda>i. interleavingOrdering (hd demo_par) (int i)) {0..<2}"
    using interleavings_distinct [of "hd demo_par"] by (simp add: demo_par_def)
  from inj_onD [OF this, of 0 1] show ?thesis by auto
qed

text \<open>Beyond twenty branches the factorial overflows: with twenty-one branches it is negative, so the
  site is taken for one without an axis and the fan-out the author asked for is silently dropped.\<close>

theorem factorial_overflow_drops_axis:
  "enumerateLeaves ([] :: 'v ChoiceVal list) []
     [\<lparr>SKey = key, Branches = 21, Policy = \<lparr>Kind = ''n'', PolicyN = 5\<rparr>\<rparr>] = Some [fresh_leaf 0]"
  by (simp add: enumerateLeaves_def collectChoices_def par_Cardinality_def interleavingCardinality_def
      factorial_int_def wrap64_def Let_def upt_rec expandLeaves_def)

text \<open>The static estimate counts axes that never fan out: an anonymous choice of three options is
  counted as three leaves by \<open>ChooseLeafCount\<close>, while the run, which only fans out over named axes,
  has a single leaf.\<close>

theorem static_count_includes_anonymous:
  "ChooseLeafCount [\<lparr>AName = ''choose#1'', AValues = [a, b, c], Known = True\<rparr>] = 3 \<and>
   map_option length (enumerateLeaves (collectNamedAxes [\<lparr>CName = [], Options = [x, y, z]\<rparr>]) [] []) = Some 1"
  by (simp add: ChooseLeafCount_def axis_Cardinality_def wrap64_def collectNamedAxes_def add_axis_def
      enumerateLeaves_def collectChoices_def expandLeaves_def)

end
