(* ===== verification/Matchers.thy ===== *)
theory Matchers
  imports Go_Prelude
begin

text \<open>Events and the predicates specifications put on them, from
\<^verbatim>\<open>internal/star/events.go\<close>, \<^verbatim>\<open>internal/star/match.go\<close> and the filter helpers of
\<^verbatim>\<open>internal/star/builtins.go\<close>: the event record, the value patterns of \<^verbatim>\<open>matchValue\<close> with the
standard library's \<^verbatim>\<open>filepath.Match\<close> beneath them, keyword filters, the \<^verbatim>\<open>match.*\<close> combinators,
and the assertions that scan the trace.

Field maps are partial functions, reading a missing key gives the empty string as in Go. Starlark
callables are functions that either raise a message or return a truth value. Strings are ASCII,
so that a byte is a rune.\<close>

section \<open>Events\<close>

record Event =
  Seq :: int
  Timestamp :: int
  Type :: string
  EventType :: string
  PartitionKey :: string
  Service :: string
  Fields :: "string \<rightharpoonup> string"
  VectorClock :: "string \<rightharpoonup> int"

abbreviation field :: "Event \<Rightarrow> string \<Rightarrow> string" where
  "field ev k \<equiv> lookup_or [] (Fields ev) k"

section \<open>The standard library's filepath.Match\<close>

text \<open>One possibly escaped character of a character class; it may not be the last of the chunk.\<close>

fun getEsc :: "string \<Rightarrow> (char \<times> string) option" where
  "getEsc [] = None"
| "getEsc (c # cs) =
    (if c = CHR ''-'' \<or> c = CHR '']'' then None
     else if c = CHR 0x5C then
       (case cs of d # e # es \<Rightarrow> Some (d, e # es) | _ \<Rightarrow> None)
     else if cs = [] then None else Some (c, cs))"

lemma getEsc_shorter: "getEsc p = Some (c, r) \<Longrightarrow> length r < length p"
  by (cases p) (auto split: if_splits list.splits)

text \<open>The ranges of a character class after the optional caret: whether \<^term>\<open>r\<close> lies in one of
them and what follows the closing bracket; None for a malformed class.\<close>

function match_class :: "bool \<Rightarrow> char \<Rightarrow> bool \<Rightarrow> string \<Rightarrow> (bool \<times> string) option" where
  "match_class started r acc chunk =
    (if chunk \<noteq> [] \<and> hd chunk = CHR '']'' \<and> started then Some (acc, tl chunk)
     else case getEsc chunk of
       None \<Rightarrow> None
     | Some (lo, rest) \<Rightarrow>
         if rest \<noteq> [] \<and> hd rest = CHR ''-'' then
           (case getEsc (tl rest) of
              None \<Rightarrow> None
            | Some (hi, rest') \<Rightarrow> match_class True r (acc \<or> lo \<le> r \<and> r \<le> hi) rest')
         else match_class True r (acc \<or> lo = r) rest)"
  by pat_completeness auto
termination
proof (relation "measure (\<lambda>(_, _, _, c). length c)", goal_cases)
  case 1
  show ?case by simp
next
  case (2 started r acc chunk x2 lo rest y hi rest')
  then have "length rest < length chunk" "length rest' < length (tl rest)"
    by (auto dest!: getEsc_shorter)
  then show ?case by simp
next
  case (3 started r acc chunk x2 lo rest)
  then show ?case by (auto dest!: getEsc_shorter)
qed

declare match_class.simps [simp del]

lemma match_class_shorter:
  "match_class started r acc p = Some (b, rest) \<Longrightarrow> length rest < length p"
proof (induction started r acc p rule: match_class.induct)
  case (1 started r acc chunk)
  show ?case
  proof (cases "chunk \<noteq> [] \<and> hd chunk = CHR '']'' \<and> started")
    case True
    then have "rest = tl chunk" using "1.prems" by (simp add: match_class.simps [of _ r acc chunk])
    then show ?thesis using True by (cases chunk) auto
  next
    case False
    then obtain lo r1 where e: "getEsc chunk = Some (lo, r1)"
      using "1.prems" by (auto simp: match_class.simps [of started r acc chunk] split: option.splits)
    show ?thesis
    proof (cases "r1 \<noteq> [] \<and> hd r1 = CHR ''-''")
      case True
      then obtain hi r2 where e2: "getEsc (tl r1) = Some (hi, r2)"
        using "1.prems" False e
        by (auto simp: match_class.simps [of started r acc chunk] split: option.splits)
      have "length rest < length r2"
        using "1.IH"(1) [OF False e refl True e2 refl] "1.prems" False e True e2
        by (simp add: match_class.simps [of started r acc chunk])
      then show ?thesis using getEsc_shorter [OF e] getEsc_shorter [OF e2] by simp
    next
      case f2: False
      have "length rest < length r1"
        using "1.IH"(2) [OF False e refl f2] "1.prems" False e f2
        by (auto simp: match_class.simps [of started r acc chunk])
      then show ?thesis using getEsc_shorter [OF e] by simp
    qed
  qed
qed

text \<open>\<^verbatim>\<open>matchChunk\<close>: the chunk against the beginning of \<^term>\<open>s\<close>, giving the rest of \<^term>\<open>s\<close>; None
when it does not match or is malformed.\<close>

function matchChunk :: "string \<Rightarrow> string \<Rightarrow> string option" where
  "matchChunk [] s = Some s"
| "matchChunk (c # p) s =
    (case s of
       [] \<Rightarrow> None
     | d # s' \<Rightarrow>
         if c = CHR ''['' then
           (let negated = (p \<noteq> [] \<and> hd p = CHR ''^'') in
            case match_class False d False (if negated then tl p else p) of
              None \<Rightarrow> None
            | Some (m, rest) \<Rightarrow> if m = negated then None else matchChunk rest s')
         else if c = CHR ''?'' then (if d = CHR ''/'' then None else matchChunk p s')
         else if c = CHR 0x5C then
           (case p of [] \<Rightarrow> None | e # p' \<Rightarrow> if d = e then matchChunk p' s' else None)
         else if d = c then matchChunk p s' else None)"
  by pat_completeness auto
termination
  by (relation "measure (\<lambda>(p, _). length p)")
    (auto dest!: match_class_shorter simp: less_Suc_eq split: if_splits)

text \<open>\<^verbatim>\<open>scanChunk\<close> after the stars: the pattern up to the next star outside brackets.\<close>

fun scanChunk :: "bool \<Rightarrow> string \<Rightarrow> string \<times> string" where
  "scanChunk _ [] = ([], [])"
| "scanChunk inrange (c # cs) =
    (if c = CHR 0x5C then
       (case cs of
          [] \<Rightarrow> ([c], [])
        | d # ds \<Rightarrow> (let (a, b) = scanChunk inrange ds in (c # d # a, b)))
     else if c = CHR ''*'' \<and> \<not> inrange then ([], c # cs)
     else
       let (a, b) = scanChunk (if c = CHR ''['' then True else if c = CHR '']'' then False else inrange) cs
       in (c # a, b))"

lemma scanChunk_append: "scanChunk i p = (a, b) \<Longrightarrow> a @ b = p"
  by (induction i p arbitrary: a b rule: scanChunk.induct)
    (auto split: if_splits list.splits prod.splits)

lemma scanChunk_progress:
  "p \<noteq> [] \<Longrightarrow> hd p \<noteq> CHR ''*'' \<Longrightarrow> scanChunk False p = (a, b) \<Longrightarrow> length b < length p"
proof -
  assume p: "p \<noteq> []" "hd p \<noteq> CHR ''*''" and s: "scanChunk False p = (a, b)"
  have "a \<noteq> []"
    using p s by (cases p) (auto split: if_splits list.splits prod.splits)
  then show ?thesis
    using scanChunk_append [OF s] by auto
qed

text \<open>The loop over the places a star may end: the chunk is tried at each, never past a slash,
and the last chunk of a pattern has to exhaust the name.\<close>

fun star_try :: "string \<Rightarrow> bool \<Rightarrow> string \<Rightarrow> string option" where
  "star_try chunk final name =
    (case matchChunk chunk name of
       Some t \<Rightarrow> if t = [] \<or> \<not> final then Some t
         else (case name of [] \<Rightarrow> None
               | d # ds \<Rightarrow> if d = CHR ''/'' then None else star_try chunk final ds)
     | None \<Rightarrow> (case name of [] \<Rightarrow> None
               | d # ds \<Rightarrow> if d = CHR ''/'' then None else star_try chunk final ds))"

declare star_try.simps [simp del]

text \<open>\<^verbatim>\<open>filepath.Match\<close>, true when it returns a match and no error.\<close>

function filepath_Match :: "string \<Rightarrow> string \<Rightarrow> bool" where
  "filepath_Match pat name =
    (if pat = [] then name = []
     else
       let star = (hd pat = CHR ''*'');
           (chunk, rest) = scanChunk False (dropWhile (\<lambda>c. c = CHR ''*'') pat)
       in if star \<and> chunk = [] then CHR ''/'' \<notin> set name
          else case (if star then star_try chunk (rest = []) name
                     else case matchChunk chunk name of
                            Some t \<Rightarrow> if t = [] \<or> rest \<noteq> [] then Some t else None
                          | None \<Rightarrow> None) of
                 None \<Rightarrow> False
               | Some t \<Rightarrow> filepath_Match rest t)"
  by pat_completeness auto
termination
proof (relation "measure (\<lambda>(p, _). length p)", goal_cases)
  case 1
  show ?case by simp
next
  case (2 pat name star x chunk rest t)
  then have s: "scanChunk False (dropWhile (\<lambda>c. c = CHR ''*'') pat) = (chunk, rest)"
    by auto
  show ?case
  proof (cases "hd pat = CHR ''*''")
    case True
    have "length rest \<le> length (dropWhile (\<lambda>c. c = CHR ''*'') pat)"
      using scanChunk_append [OF s] by (metis length_append le_add2)
    also have "\<dots> < length pat"
      using True 2(1) by (cases pat) (auto simp: length_dropWhile_le le_imp_less_Suc)
    finally show ?thesis by simp
  next
    case False
    then have "dropWhile (\<lambda>c. c = CHR ''*'') pat = pat" using 2(1) by (cases pat) auto
    then show ?thesis using scanChunk_progress [OF 2(1) False] s by simp
  qed
qed

declare filepath_Match.simps [simp del]

section \<open>Value patterns and filters\<close>

definition matchValue :: "string \<Rightarrow> string \<Rightarrow> bool" where
  "matchValue actual pattern =
    (if pattern = [] then True
     else if CHR ''*'' \<in> set pattern then
       (if filepath_Match pattern actual then True
        else if has_suffix pattern ''*'' then has_prefix actual (trim_suffix pattern ''*'')
        else if has_prefix pattern ''*'' then has_suffix actual (trim_prefix pattern ''*'')
        else False)
     else actual = pattern)"

record eventFilter =
  key :: string
  fvalue :: string

definition filter_actual :: "Event \<Rightarrow> string \<Rightarrow> string" where
  "filter_actual ev k =
    (if k = ''service'' then Service ev
     else if k = ''syscall'' then field ev ''syscall''
     else if k = ''path'' then field ev ''path''
     else if k = ''decision'' then field ev ''decision''
     else field ev k)"

fun matchesFilters :: "Event \<Rightarrow> eventFilter list \<Rightarrow> bool" where
  "matchesFilters ev [] = True"
| "matchesFilters ev (f # fs) =
    (if \<not> matchValue (filter_actual ev (key f)) (fvalue f) then False else matchesFilters ev fs)"

text \<open>The keyword criteria of \<^verbatim>\<open>match.event\<close>, in the order the Go map is iterated.\<close>

definition criteria_actual :: "Event \<Rightarrow> string \<Rightarrow> string" where
  "criteria_actual ev k =
    (if k = ''type'' then Type ev else if k = ''service'' then Service ev else field ev k)"

fun matchEventCriteria :: "Event \<Rightarrow> (string \<times> string) list \<Rightarrow> bool" where
  "matchEventCriteria ev [] = True"
| "matchEventCriteria ev ((k, pattern) # cs) =
    (if \<not> matchValue (criteria_actual ev k) pattern then False else matchEventCriteria ev cs)"

lemma matchesFilters_all:
  "matchesFilters ev fs = list_all (\<lambda>f. matchValue (filter_actual ev (key f)) (fvalue f)) fs"
  by (induction fs) auto

lemma matchEventCriteria_all:
  "matchEventCriteria ev cs = list_all (\<lambda>(k, p). matchValue (criteria_actual ev k) p) cs"
  by (induction cs) (auto split: if_splits)

section \<open>Matchers\<close>

record MatcherVal =
  mname :: string
  matchFn :: "(Event \<Rightarrow> bool) option"

definition Matches :: "MatcherVal option \<Rightarrow> Event \<Rightarrow> bool" where
  "Matches m ev =
    (case m of
       None \<Rightarrow> False
     | Some v \<Rightarrow> (case matchFn v of None \<Rightarrow> False | Some f \<Rightarrow> f ev))"

text \<open>The Starlark values these builtins inspect: strings, matchers, callables over an event that
raise or return a truth value, and values of some other type, known by its name.\<close>

datatype StarVal =
    SString string
  | SMatcher MatcherVal
  | SCallable string "Event \<Rightarrow> bool res"
  | SOther string

fun star_type :: "StarVal \<Rightarrow> string" where
  "star_type (SString _) = ''string''"
| "star_type (SMatcher _) = ''matcher''"
| "star_type (SCallable t _) = t"
| "star_type (SOther t) = t"

definition fmtCriteria :: "(string \<times> string) list \<Rightarrow> string" where
  "fmtCriteria m = join '', '' (map (\<lambda>(k, v). k @ ''='' @ v) m)"

fun criteria_of :: "(string \<times> StarVal) list \<Rightarrow> (string \<times> string) list res" where
  "criteria_of [] = Inr []"
| "criteria_of ((k, v) # kvs) =
    (case v of
       SString s \<Rightarrow>
         (case criteria_of kvs of Inl e \<Rightarrow> Inl e | Inr cs \<Rightarrow> Inr ((k, s) # cs))
     | _ \<Rightarrow> Inl (''match.event('' @ k @ ''=...): value must be a string, got '' @ star_type v))"

definition builtinMatchEvent :: "StarVal list \<Rightarrow> (string \<times> StarVal) list \<Rightarrow> MatcherVal res" where
  "builtinMatchEvent args kwargs =
    (if args \<noteq> [] then
       Inl (''match.event() takes only keyword arguments; got '' @ show_nat (length args) @ '' positional'')
     else case criteria_of kwargs of
       Inl e \<Rightarrow> Inl e
     | Inr criteria \<Rightarrow>
         Inr \<lparr>mname = ''event('' @ fmtCriteria criteria @ '')'',
              matchFn = Some (\<lambda>ev. matchEventCriteria ev criteria)\<rparr>)"

fun parseMatcherArgs :: "string \<Rightarrow> StarVal list \<Rightarrow> MatcherVal list res" where
  "parseMatcherArgs name [] = Inr []"
| "parseMatcherArgs name (arg # args) =
    (case arg of
       SMatcher m \<Rightarrow>
         (case parseMatcherArgs name args of Inl e \<Rightarrow> Inl e | Inr ms \<Rightarrow> Inr (m # ms))
     | _ \<Rightarrow> Inl (name @ ''() arguments must be matchers, got '' @ star_type arg))"

fun any_matches :: "MatcherVal list \<Rightarrow> Event \<Rightarrow> bool" where
  "any_matches [] ev = False"
| "any_matches (m # ms) ev = (if Matches (Some m) ev then True else any_matches ms ev)"

fun all_match :: "MatcherVal list \<Rightarrow> Event \<Rightarrow> bool" where
  "all_match [] ev = True"
| "all_match (m # ms) ev = (if \<not> Matches (Some m) ev then False else all_match ms ev)"

definition builtinMatchAny :: "StarVal list \<Rightarrow> (string \<times> StarVal) list \<Rightarrow> MatcherVal res" where
  "builtinMatchAny args kwargs =
    (if kwargs \<noteq> [] then Inl ''match.any() takes only positional arguments''
     else case parseMatcherArgs ''match.any'' args of
       Inl e \<Rightarrow> Inl e
     | Inr ms \<Rightarrow> Inr \<lparr>mname = ''any(...)'', matchFn = Some (any_matches ms)\<rparr>)"

definition builtinMatchAll :: "StarVal list \<Rightarrow> (string \<times> StarVal) list \<Rightarrow> MatcherVal res" where
  "builtinMatchAll args kwargs =
    (if kwargs \<noteq> [] then Inl ''match.all() takes only positional arguments''
     else case parseMatcherArgs ''match.all'' args of
       Inl e \<Rightarrow> Inl e
     | Inr ms \<Rightarrow> Inr \<lparr>mname = ''all(...)'', matchFn = Some (all_match ms)\<rparr>)"

definition builtinMatchNever :: "StarVal list \<Rightarrow> (string \<times> StarVal) list \<Rightarrow> MatcherVal res" where
  "builtinMatchNever args kwargs =
    (if args \<noteq> [] \<or> kwargs \<noteq> [] then Inl ''match.never() takes no arguments''
     else Inr \<lparr>mname = ''never'', matchFn = Some (\<lambda>_. False)\<rparr>)"

definition matcherOrPredFromArg :: "StarVal \<Rightarrow> MatcherVal res" where
  "matcherOrPredFromArg arg =
    (case arg of
       SMatcher v \<Rightarrow> Inr v
     | SCallable _ f \<Rightarrow>
         Inr \<lparr>mname = ''predicate'',
              matchFn = Some (\<lambda>ev. case f ev of Inl _ \<Rightarrow> False | Inr b \<Rightarrow> b)\<rparr>
     | _ \<Rightarrow> Inl (''expected matcher or callable, got '' @ star_type arg))"

section \<open>Assertions over the trace\<close>

text \<open>How an assertion fails.\<close>

datatype AssertError =
    AE_Where string
  | AE_NoMatch "eventFilter list"
  | AE_NoWhereMatch
  | AE_Found int
  | AE_NoFirst "eventFilter list"
  | AE_NoThen "eventFilter list"
  | AE_Order int int

definition assert_queryable :: "string \<Rightarrow> bool" where
  "assert_queryable t = (t = ''syscall'' \<or> t = ''stdout'' \<or> t = ''topic'' \<or> t = ''wal'')"

fun assert_eventually_loop ::
  "(Event \<Rightarrow> bool res) option \<Rightarrow> eventFilter list \<Rightarrow> Event list \<Rightarrow> AssertError + unit" where
  "assert_eventually_loop whereFn filters [] =
    Inl (if whereFn \<noteq> None then AE_NoWhereMatch else AE_NoMatch filters)"
| "assert_eventually_loop whereFn filters (ev # evs) =
    (if \<not> assert_queryable (Type ev) then assert_eventually_loop whereFn filters evs
     else case whereFn of
       Some f \<Rightarrow> (case f ev of
           Inl e \<Rightarrow> Inl (AE_Where e)
         | Inr b \<Rightarrow> if b then Inr () else assert_eventually_loop whereFn filters evs)
     | None \<Rightarrow> if matchesFilters ev filters then Inr ()
               else assert_eventually_loop whereFn filters evs)"

fun assert_never_loop ::
  "(Event \<Rightarrow> bool res) option \<Rightarrow> eventFilter list \<Rightarrow> Event list \<Rightarrow> AssertError + unit" where
  "assert_never_loop whereFn filters [] = Inr ()"
| "assert_never_loop whereFn filters (ev # evs) =
    (if \<not> assert_queryable (Type ev) then assert_never_loop whereFn filters evs
     else case whereFn of
       Some f \<Rightarrow> (case f ev of
           Inl e \<Rightarrow> Inl (AE_Where e)
         | Inr b \<Rightarrow> if b then Inl (AE_Found (Seq ev)) else assert_never_loop whereFn filters evs)
     | None \<Rightarrow> if matchesFilters ev filters then Inl (AE_Found (Seq ev))
               else assert_never_loop whereFn filters evs)"

text \<open>\<^verbatim>\<open>events()\<close>: the dict-filter form has a list of event types, the \<^verbatim>\<open>where=\<close> form has none.\<close>

definition dictFilterQueryable :: "string \<Rightarrow> bool" where
  "dictFilterQueryable t =
    (t \<in> {''syscall'', ''stdout'', ''topic'', ''wal'', ''client_call'', ''client_return'',
          ''contract_violation''})"

fun events_loop ::
  "(Event \<Rightarrow> bool res) option \<Rightarrow> eventFilter list \<Rightarrow> Event list \<Rightarrow> Event list res" where
  "events_loop whereFn filters [] = Inr []"
| "events_loop whereFn filters (ev # evs) =
    (if whereFn = None \<and> \<not> dictFilterQueryable (Type ev) then events_loop whereFn filters evs
     else if filters \<noteq> [] \<and> \<not> matchesFilters ev filters then events_loop whereFn filters evs
     else case whereFn of
       Some f \<Rightarrow> (case f ev of
           Inl e \<Rightarrow> Inl (''events(): where= callback failed: '' @ e)
         | Inr b \<Rightarrow>
             if \<not> b then events_loop whereFn filters evs
             else (case events_loop whereFn filters evs of Inl e \<Rightarrow> Inl e | Inr r \<Rightarrow> Inr (ev # r)))
     | None \<Rightarrow> (case events_loop whereFn filters evs of Inl e \<Rightarrow> Inl e | Inr r \<Rightarrow> Inr (ev # r)))"

text \<open>\<^verbatim>\<open>assert_before\<close>: the loop that finds the first sequence numbers and its verdict.\<close>

fun before_loop ::
  "eventFilter list \<Rightarrow> eventFilter list \<Rightarrow> int \<Rightarrow> int \<Rightarrow> Event list \<Rightarrow> int \<times> int" where
  "before_loop ff tf firstSeq thenSeq [] = (firstSeq, thenSeq)"
| "before_loop ff tf firstSeq thenSeq (ev # evs) =
    (if Type ev \<noteq> ''syscall'' then before_loop ff tf firstSeq thenSeq evs
     else
       let firstSeq' = (if firstSeq < 0 \<and> matchesFilters ev ff then Seq ev else firstSeq);
           thenSeq' = (if thenSeq < 0 \<and> matchesFilters ev tf then Seq ev else thenSeq)
       in if 0 \<le> firstSeq' \<and> 0 \<le> thenSeq' then (firstSeq', thenSeq')
          else before_loop ff tf firstSeq' thenSeq' evs)"

definition assert_before :: "eventFilter list \<Rightarrow> eventFilter list \<Rightarrow> Event list \<Rightarrow> AssertError + unit" where
  "assert_before ff tf evs =
    (let (firstSeq, thenSeq) = before_loop ff tf (-1) (-1) evs in
     if firstSeq < 0 then Inl (AE_NoFirst ff)
     else if thenSeq < 0 then Inl (AE_NoThen tf)
     else if thenSeq \<le> firstSeq then Inl (AE_Order firstSeq thenSeq)
     else Inr ())"

section \<open>What a pattern matches\<close>

text \<open>A pattern is plain when no character of it is special to \<^verbatim>\<open>filepath.Match\<close>.\<close>

definition plain :: "string \<Rightarrow> bool" where
  "plain p = list_all (\<lambda>c. c \<noteq> CHR ''*'' \<and> c \<noteq> CHR ''?'' \<and> c \<noteq> CHR ''['' \<and> c \<noteq> CHR 0x5C) p"

lemma plain_Cons:
  "plain (c # p) = (c \<noteq> CHR ''*'' \<and> c \<noteq> CHR ''?'' \<and> c \<noteq> CHR ''['' \<and> c \<noteq> CHR 0x5C \<and> plain p)"
  by (simp add: plain_def)

lemma plain_no_star: "plain p \<Longrightarrow> CHR ''*'' \<notin> set p"
  by (auto simp: plain_def list_all_iff)

lemma scanChunk_plain: "plain p \<Longrightarrow> scanChunk False p = (p, [])"
  by (induction p) (auto simp: plain_Cons)

lemma scanChunk_plain_star:
  "plain p \<Longrightarrow> scanChunk False (p @ CHR ''*'' # q) = (p, CHR ''*'' # q)"
  by (induction p) (auto simp: plain_Cons)

lemma matchChunk_plain:
  "plain p \<Longrightarrow> matchChunk p s = (if has_prefix s p then Some (drop (length p) s) else None)"
  by (induction p arbitrary: s) (auto simp: plain_Cons has_prefix_def split: list.splits)

lemma has_prefix_drop_Nil: "has_prefix s p \<Longrightarrow> drop (length p) s = [] \<longleftrightarrow> s = p"
  by (auto simp: has_prefix_def)

lemma star_try_plain:
  "plain q \<Longrightarrow>
    star_try q True s = (if \<exists>m. s = m @ q \<and> CHR ''/'' \<notin> set m then Some [] else None)"
proof (induction s)
  case Nil
  then show ?case by (auto simp: star_try.simps matchChunk_plain has_prefix_def)
next
  case (Cons d ds)
  have split: "(\<exists>m. d # ds = m @ q \<and> CHR ''/'' \<notin> set m) \<longleftrightarrow>
      d # ds = q \<or> d \<noteq> CHR ''/'' \<and> (\<exists>m. ds = m @ q \<and> CHR ''/'' \<notin> set m)"
    by (auto simp: Cons_eq_append_conv)
  show ?case
  proof (cases "d # ds = q")
    case True
    then have "matchChunk q (d # ds) = Some []"
      using Cons.prems by (simp add: matchChunk_plain has_prefix_def)
    then have "star_try q True (d # ds) = Some []" by (simp add: star_try.simps)
    then show ?thesis using True split by simp
  next
    case False
    then have "\<And>t. matchChunk q (d # ds) = Some t \<Longrightarrow> t \<noteq> []"
      using Cons.prems has_prefix_drop_Nil [of "d # ds" q]
      by (auto simp: matchChunk_plain split: if_splits)
    then have "star_try q True (d # ds) = (if d = CHR ''/'' then None else star_try q True ds)"
      by (auto simp: star_try.simps [of q True "d # ds"] split: option.split)
    then show ?thesis using Cons.IH [OF Cons.prems] split False by auto
  qed
qed

lemma filepath_Match_star: "filepath_Match ''*'' s = (CHR ''/'' \<notin> set s)"
  by (simp add: filepath_Match.simps)

lemma filepath_Match_suffix:
  assumes "plain q" and "q \<noteq> []"
  shows "filepath_Match (CHR ''*'' # q) s = (\<exists>m. s = m @ q \<and> CHR ''/'' \<notin> set m)"
proof -
  have "dropWhile (\<lambda>c. c = CHR ''*'') q = q"
    using assms by (cases q) (auto simp: plain_Cons)
  then show ?thesis
    using assms
    by (simp add: filepath_Match.simps [of "CHR ''*'' # q"] scanChunk_plain star_try_plain
        filepath_Match.simps [of "[]"])
qed

lemma filepath_Match_prefix:
  assumes "plain p" and "p \<noteq> []"
  shows "filepath_Match (p @ CHR ''*'' # q) s =
    (has_prefix s p \<and> filepath_Match (CHR ''*'' # q) (drop (length p) s))"
proof -
  have h: "hd (p @ CHR ''*'' # q) \<noteq> CHR ''*''"
    using assms by (cases p) (auto simp: plain_Cons)
  then have "dropWhile (\<lambda>c. c = CHR ''*'') (p @ CHR ''*'' # q) = p @ CHR ''*'' # q"
    using assms by (cases p) auto
  then show ?thesis
    using assms h
    by (simp add: filepath_Match.simps [of "p @ CHR ''*'' # q"] scanChunk_plain_star matchChunk_plain)
qed

text \<open>The patterns a specification writes mean what the comment on \<^verbatim>\<open>matchValue\<close> says, for
parts \<^term>\<open>p\<close> and \<^term>\<open>q\<close> without special characters: a pattern with no star is equality, a trailing
star is a prefix test and a leading star a suffix test, both across slashes although
\<^verbatim>\<open>filepath.Match\<close> alone would stop at one, and a star in the middle stands for any run of
characters without a slash.\<close>

theorem matchValue_patterns:
  assumes "plain p" and "plain q" and "p \<noteq> []" and "q \<noteq> []"
  shows "matchValue a p = (a = p) \<and>
    matchValue a (p @ ''*'') = has_prefix a p \<and>
    matchValue a (''*'' @ q) = has_suffix a q \<and>
    matchValue a (p @ ''*'' @ q) = (\<exists>m. a = p @ m @ q \<and> CHR ''/'' \<notin> set m)"
proof (intro conjI)
  show "matchValue a p = (a = p)"
    using assms plain_no_star by (simp add: matchValue_def)
  have "has_suffix (p @ ''*'') ''*''" "trim_suffix (p @ ''*'') ''*'' = p"
    by (simp_all add: has_suffix_def trim_suffix_def)
  then show "matchValue a (p @ ''*'') = has_prefix a p"
    using filepath_Match_prefix [OF assms(1,3), of "[]" a] by (auto simp: matchValue_def)
  have ns: "\<not> has_suffix (x @ q) ''*''" for x
    using assms(2,4) plain_no_star [OF assms(2)]
    by (auto simp: has_suffix_iff append_eq_append_conv2 append_eq_Cons_conv Cons_eq_append_conv)
  have "has_prefix (''*'' @ q) ''*''" "trim_prefix (''*'' @ q) ''*'' = q"
    by (simp_all add: has_prefix_def trim_prefix_def)
  then show "matchValue a (''*'' @ q) = has_suffix a q"
    using filepath_Match_suffix [OF assms(2,4), of a] ns [of "''*''"]
    by (auto simp: matchValue_def has_suffix_iff)
  have np: "\<not> has_prefix (p @ ''*'' @ q) ''*''"
    using assms(1,3) by (cases p) (auto simp: has_prefix_def plain_Cons)
  show "matchValue a (p @ ''*'' @ q) = (\<exists>m. a = p @ m @ q \<and> CHR ''/'' \<notin> set m)"
    using filepath_Match_prefix [OF assms(1,3), of q a] filepath_Match_suffix [OF assms(2,4)]
      ns [of "p @ ''*''"] np
    by (auto simp: matchValue_def has_prefix_iff)
qed

theorem matchValue_patterns_witness:
  "plain ''/data/'' \<and> plain ''.wal'' \<and>
   matchValue ''/data/a/b.wal'' ''/data/*'' \<and> matchValue ''/data/a/b.wal'' ''*.wal'' \<and>
   \<not> matchValue ''/data/a/b.wal'' ''/data/*.wal''"
proof -
  have p: "plain ''/data/''" "plain ''.wal''" "''/data/'' \<noteq> []" "''.wal'' \<noteq> []"
    by (simp_all add: plain_def)
  note m = matchValue_patterns [OF p, of "''/data/a/b.wal''"]
  have "\<not> (\<exists>m. ''/data/a/b.wal'' = ''/data/'' @ m @ ''.wal'' \<and> CHR ''/'' \<notin> set m)"
  proof (rule notI, elim exE conjE)
    fix m
    assume "''/data/a/b.wal'' = ''/data/'' @ m @ ''.wal''" and "CHR ''/'' \<notin> set m"
    then have "''a/b'' @ ''.wal'' = m @ ''.wal''" by simp
    then have "m = ''a/b''" by (simp only: append_same_eq)
    then show False using \<open>CHR ''/'' \<notin> set m\<close> by simp
  qed
  then show ?thesis
    using m p by (simp add: has_prefix_def has_suffix_def)
qed

section \<open>What an assertion decides\<close>

text \<open>With keyword filters \<^verbatim>\<open>assert_eventually\<close> and \<^verbatim>\<open>assert_never\<close> are complementary: one succeeds
exactly when an event of an observed type matches every filter, the other exactly when none does.\<close>

lemma assertions_complementary:
  "assert_eventually_loop None fs evs =
     (if list_ex (\<lambda>ev. assert_queryable (Type ev) \<and> matchesFilters ev fs) evs then Inr ()
      else Inl (AE_NoMatch fs)) \<and>
   (assert_never_loop None fs evs = Inr ()) =
     (\<not> list_ex (\<lambda>ev. assert_queryable (Type ev) \<and> matchesFilters ev fs) evs)"
  by (induction evs) auto

text \<open>With a \<^verbatim>\<open>where=\<close> predicate \<^verbatim>\<open>assert_never\<close> disregards the keyword filters given beside it,
and never shows the predicate an event outside the four observation types. A predicate over, say,
proxy events is therefore satisfied whatever the trace holds, while \<^verbatim>\<open>events()\<close> with the same
predicate returns the offending event.\<close>

theorem assert_never_where_scope:
  "assert_never_loop (Some f) fs evs =
     assert_never_loop (Some f) [] (filter (\<lambda>ev. assert_queryable (Type ev)) evs) \<and>
   assert_never_loop (Some (\<lambda>ev. Inr (Type ev = ''proxy''))) [] [e\<lparr>Type := ''proxy''\<rparr>] = Inr () \<and>
   events_loop (Some (\<lambda>ev. Inr (Type ev = ''proxy''))) [] [e\<lparr>Type := ''proxy''\<rparr>] =
     Inr [e\<lparr>Type := ''proxy''\<rparr>]"
proof (intro conjI)
  show "assert_never_loop (Some f) fs evs =
     assert_never_loop (Some f) [] (filter (\<lambda>ev. assert_queryable (Type ev)) evs)"
    by (induction evs) (auto split: sum.splits)
qed (simp_all add: assert_queryable_def)

text \<open>The loop of \<^verbatim>\<open>assert_before\<close> finds the sequence number of the first syscall event each filter
list matches.\<close>

definition first_seq :: "eventFilter list \<Rightarrow> Event list \<Rightarrow> int" where
  "first_seq fs evs =
    (case find (\<lambda>ev. Type ev = ''syscall'' \<and> matchesFilters ev fs) evs of
       None \<Rightarrow> -1 | Some ev \<Rightarrow> Seq ev)"

lemma before_loop_find:
  "list_all (\<lambda>ev. 0 < Seq ev) evs \<Longrightarrow>
    before_loop ff tf a b evs =
      (if 0 \<le> a \<and> 0 \<le> b \<and> \<not> list_ex (\<lambda>ev. Type ev = ''syscall'') evs then (a, b)
       else (if a < 0 then (if first_seq ff evs < 0 then a else first_seq ff evs) else a,
             if b < 0 then (if first_seq tf evs < 0 then b else first_seq tf evs) else b))"
  by (induction evs arbitrary: a b) (auto simp: first_seq_def Let_def split: option.splits)

lemma first_seq_neg:
  "list_all (\<lambda>ev. 0 < Seq ev) evs \<Longrightarrow>
    first_seq fs evs < 0 \<longleftrightarrow> \<not> list_ex (\<lambda>ev. Type ev = ''syscall'' \<and> matchesFilters ev fs) evs"
  by (induction evs) (auto simp: first_seq_def split: option.splits)

lemma assert_before_first_seq:
  "list_all (\<lambda>ev. 0 < Seq ev) evs \<Longrightarrow>
    assert_before ff tf evs = Inr () \<longleftrightarrow>
      0 \<le> first_seq ff evs \<and> 0 \<le> first_seq tf evs \<and> first_seq ff evs < first_seq tf evs"
  by (auto simp: assert_before_def before_loop_find)

text \<open>The position of the first syscall event a filter list matches.\<close>

definition first_at :: "eventFilter list \<Rightarrow> Event list \<Rightarrow> nat \<Rightarrow> bool" where
  "first_at fs evs i =
    (i < length evs \<and> Type (evs ! i) = ''syscall'' \<and> matchesFilters (evs ! i) fs \<and>
     (\<forall>k < i. \<not> (Type (evs ! k) = ''syscall'' \<and> matchesFilters (evs ! k) fs)))"

lemma first_at_unique: "first_at fs evs i \<Longrightarrow> first_at fs evs j \<Longrightarrow> i = j"
  unfolding first_at_def by (rule linorder_cases [of i j]) auto

lemma first_seq_cases:
  assumes "list_all (\<lambda>ev. 0 < Seq ev) evs"
  obtains (none) "first_seq fs evs = -1" and "\<And>i. \<not> first_at fs evs i"
    | (at) i where "first_at fs evs i" and "first_seq fs evs = Seq (evs ! i)" and "0 < first_seq fs evs"
proof (cases "find (\<lambda>ev. Type ev = ''syscall'' \<and> matchesFilters ev fs) evs")
  case None
  then have "\<not> first_at fs evs i" for i
    by (auto simp: first_at_def find_None_iff)
  then show ?thesis using none None by (simp add: first_seq_def)
next
  case (Some e)
  then obtain i where i: "first_at fs evs i" "e = evs ! i"
    by (auto simp: find_Some_iff first_at_def)
  moreover have "0 < Seq e"
    using assms i by (auto simp: list_all_length first_at_def)
  ultimately show ?thesis
    using at Some by (simp add: first_seq_def)
qed

text \<open>On a trace whose sequence numbers increase, \<^verbatim>\<open>assert_before\<close> succeeds exactly when both
filter lists match a syscall event and the first match of \<^verbatim>\<open>first=\<close> stands strictly before the
first match of \<^verbatim>\<open>then=\<close>; one event that matches both does not count as before itself.\<close>

theorem assert_before_order:
  assumes "sorted_wrt (<) (map Seq evs)" and "list_all (\<lambda>ev. 0 < Seq ev) evs"
  shows "(assert_before ff tf evs = Inr ()) =
    (\<exists>i j. i < j \<and> first_at ff evs i \<and> first_at tf evs j)"
proof -
  have less: "Seq (evs ! i) < Seq (evs ! j)" if "i < j" "j < length evs" for i j
    using assms(1) that by (simp add: sorted_wrt_iff_nth_less)
  have mono: "Seq (evs ! i) < Seq (evs ! j) \<longleftrightarrow> i < j" if "i < length evs" "j < length evs" for i j
    using less [of i j] less [of j i] that by (cases i j rule: linorder_cases) auto
  from assms(2) show ?thesis
  proof (cases rule: first_seq_cases [where fs = ff])
    case none
    then show ?thesis by (simp add: assert_before_first_seq [OF assms(2)])
  next
    case f: (at i)
    from assms(2) show ?thesis
    proof (cases rule: first_seq_cases [where fs = tf])
      case none
      then show ?thesis by (simp add: assert_before_first_seq [OF assms(2)])
    next
      case t: (at j)
      have "i < length evs" "j < length evs" using f(1) t(1) by (simp_all add: first_at_def)
      then have "(assert_before ff tf evs = Inr ()) = (i < j)"
        using f t mono by (simp add: assert_before_first_seq [OF assms(2)])
      then show ?thesis using f(1) t(1) first_at_unique by blast
    qed
  qed
qed

definition demo_event :: "int \<Rightarrow> string \<Rightarrow> Event" where
  "demo_event n sc = \<lparr>Seq = n, Timestamp = 0, Type = ''syscall'', EventType = ''syscall.'' @ sc,
     PartitionKey = ''db'', Service = ''db'', Fields = [''syscall'' \<mapsto> sc], VectorClock = [''db'' \<mapsto> n]\<rparr>"

theorem assert_before_order_witness:
  "assert_before [\<lparr>key = ''syscall'', fvalue = ''write''\<rparr>] [\<lparr>key = ''syscall'', fvalue = ''fsync''\<rparr>]
     [demo_event 1 ''write'', demo_event 2 ''fsync''] = Inr ()"
proof (subst assert_before_order)
  let ?evs = "[demo_event 1 ''write'', demo_event 2 ''fsync'']"
  show "sorted_wrt (<) (map Seq ?evs)" "list_all (\<lambda>ev. 0 < Seq ev) ?evs"
    by (simp_all add: demo_event_def)
  have "first_at [\<lparr>key = ''syscall'', fvalue = ''write''\<rparr>] ?evs 0"
    "first_at [\<lparr>key = ''syscall'', fvalue = ''fsync''\<rparr>] ?evs 1"
    by (simp_all add: first_at_def demo_event_def matchValue_def filter_actual_def)
  then show "\<exists>i j. i < j \<and> first_at [\<lparr>key = ''syscall'', fvalue = ''write''\<rparr>] ?evs i \<and>
      first_at [\<lparr>key = ''syscall'', fvalue = ''fsync''\<rparr>] ?evs j"
    by (intro exI [of _ 0] exI [of _ 1]) simp
qed

text \<open>Composed matchers mean disjunction and conjunction, the empty conjunction everything.\<close>

lemma composed_matchers:
  "builtinMatchAny (map SMatcher ms) [] =
     Inr \<lparr>mname = ''any(...)'', matchFn = Some (\<lambda>ev. list_ex (\<lambda>m. Matches (Some m) ev) ms)\<rparr> \<and>
   builtinMatchAll (map SMatcher ms) [] =
     Inr \<lparr>mname = ''all(...)'', matchFn = Some (\<lambda>ev. list_all (\<lambda>m. Matches (Some m) ev) ms)\<rparr>"
proof -
  have "parseMatcherArgs n (map SMatcher ms) = Inr ms" for n
    by (induction ms) auto
  moreover have "any_matches ms = (\<lambda>ev. list_ex (\<lambda>m. Matches (Some m) ev) ms)"
    by (induction ms) (auto simp: fun_eq_iff)
  moreover have "all_match ms = (\<lambda>ev. list_all (\<lambda>m. Matches (Some m) ev) ms)"
    by (induction ms) (auto simp: fun_eq_iff)
  ultimately show ?thesis
    by (simp add: builtinMatchAny_def builtinMatchAll_def)
qed

end
