(* ===== verification/Event_Log.thy ===== *)
theory Event_Log
  imports Matchers
begin

text \<open>The trace of a test run, \<^verbatim>\<open>internal/star/events.go\<close>: an append-only log of events with
per-service vector clocks, secondary indexes by type and by service, and subscribers that are
called on every emitted event. Locks make each operation atomic, so an operation is a function on
the record of the log. Callbacks are not run by the model: emission returns the subscribers that
are called, in order, and the event they receive.

Shown here: the indexes agree with a scan of the log, sequence numbers are the positions, the
vector clocks count events and order them causally, and subscribers are dispatched in subscription
order.\<close>

section \<open>The log\<close>

record 'cb Subscriber =
  ID :: nat
  Filters :: "eventFilter list"
  OnEvent :: 'cb

record 'cb EventLog =
  events :: "Event list"
  generation :: nat
  lseq :: int
  clocks :: "string \<rightharpoonup> (string \<rightharpoonup> int)"
  byType :: "string \<rightharpoonup> nat list"
  byService :: "string \<rightharpoonup> nat list"
  subscribers :: "'cb Subscriber list"
  nextSubID :: nat

definition NewEventLog :: "'cb EventLog" where
  "NewEventLog = \<lparr>events = [], generation = 0, lseq = 0, clocks = Map.empty, byType = Map.empty,
     byService = Map.empty, subscribers = [], nextSubID = 0\<rparr>"

text \<open>Component \<^term>\<open>k\<close> of the clock of a service, zero when missing.\<close>

definition clk :: "(string \<rightharpoonup> (string \<rightharpoonup> int)) \<Rightarrow> string \<Rightarrow> string \<Rightarrow> int" where
  "clk cs s k = (case cs s of None \<Rightarrow> 0 | Some m \<Rightarrow> lookup_or 0 m k)"

section \<open>Operations\<close>

definition advance_clock ::
  "(string \<rightharpoonup> (string \<rightharpoonup> int)) \<Rightarrow> string \<Rightarrow> (string \<rightharpoonup> (string \<rightharpoonup> int))" where
  "advance_clock cs service =
    (if service \<noteq> [] then
       (let m = (case cs service of None \<Rightarrow> Map.empty | Some m \<Rightarrow> m)
        in cs(service \<mapsto> m(service \<mapsto> lookup_or 0 m service + 1)))
     else cs)"

definition event_type :: "string \<Rightarrow> (string \<rightharpoonup> string) \<Rightarrow> string" where
  "event_type typ flds =
    (case flds ''syscall'' of
       Some syscall \<Rightarrow> typ @ ''.'' @ syscall
     | None \<Rightarrow>
         if typ = ''service_started'' \<or> typ = ''service_ready'' then
           ''lifecycle.'' @ trim_prefix typ ''service_''
         else if typ = ''step_send'' \<or> typ = ''step_recv'' then
           (case flds ''target'' of Some target \<Rightarrow> typ @ ''.'' @ target | None \<Rightarrow> typ)
         else if typ = ''client_call'' \<or> typ = ''client_return'' \<or> typ = ''contract_violation'' then
           (case flds ''target'' of Some target \<Rightarrow> typ @ ''.'' @ target | None \<Rightarrow> typ)
         else typ)"

definition index_add :: "(string \<rightharpoonup> nat list) \<Rightarrow> string \<Rightarrow> nat \<Rightarrow> (string \<rightharpoonup> nat list)" where
  "index_add ix k idx = (if k \<noteq> [] then ix(k \<mapsto> lookup_or [] ix k @ [idx]) else ix)"

definition dispatch_list :: "'cb Subscriber list \<Rightarrow> Event \<Rightarrow> 'cb list" where
  "dispatch_list subs ev = map OnEvent (filter (\<lambda>s. matchesFilters ev (Filters s)) subs)"

text \<open>\<^verbatim>\<open>emit\<close>: the new log, the event, and the callbacks that are called with it.\<close>

definition emit ::
  "int \<Rightarrow> string \<Rightarrow> string \<Rightarrow> (string \<rightharpoonup> string) \<Rightarrow> bool \<Rightarrow> 'cb EventLog \<Rightarrow>
    'cb EventLog \<times> Event \<times> 'cb list" where
  "emit now typ service flds dispatch l =
    (let cs = advance_clock (clocks l) service;
         vc = (if service \<noteq> [] then (case cs service of None \<Rightarrow> Map.empty | Some m \<Rightarrow> m) else Map.empty);
         ev = \<lparr>Seq = lseq l + 1, Timestamp = now, Type = typ, EventType = event_type typ flds,
               PartitionKey = service, Service = service, Fields = flds, VectorClock = vc\<rparr>;
         idx = length (events l);
         l' = l\<lparr>lseq := lseq l + 1, clocks := cs, events := events l @ [ev],
                byType := index_add (byType l) typ idx,
                byService := index_add (byService l) service idx\<rparr>
     in (l', ev, if dispatch then dispatch_list (subscribers l) ev else []))"

definition Emit :: "int \<Rightarrow> string \<Rightarrow> string \<Rightarrow> (string \<rightharpoonup> string) \<Rightarrow> 'cb EventLog \<Rightarrow>
    'cb EventLog \<times> Event \<times> 'cb list" where
  "Emit now typ service flds l = emit now typ service flds True l"

definition recordOnly :: "int \<Rightarrow> string \<Rightarrow> string \<Rightarrow> (string \<rightharpoonup> string) \<Rightarrow> 'cb EventLog \<Rightarrow> 'cb EventLog" where
  "recordOnly now typ service flds l = fst (emit now typ service flds False l)"

text \<open>\<^verbatim>\<open>MergeClock\<close>. The loop over the remote clock raises each component of the local one; the
iteration order plays no part because it visits every key once.\<close>

definition merge_map :: "(string \<rightharpoonup> int) \<Rightarrow> (string \<rightharpoonup> int) \<Rightarrow> (string \<rightharpoonup> int)" where
  "merge_map m r = (\<lambda>k. case r k of
      None \<Rightarrow> m k
    | Some v \<Rightarrow> if lookup_or 0 m k < v then Some v else m k)"

definition MergeClock :: "string \<Rightarrow> string \<Rightarrow> 'cb EventLog \<Rightarrow> 'cb EventLog" where
  "MergeClock local_svc remote l =
    (let cs = (case clocks l local_svc of
                 None \<Rightarrow> (clocks l)(local_svc \<mapsto> Map.empty) | Some _ \<Rightarrow> clocks l)
     in case cs remote of
          None \<Rightarrow> l\<lparr>clocks := cs\<rparr>
        | Some r \<Rightarrow> l\<lparr>clocks := cs(local_svc \<mapsto> merge_map (the (cs local_svc)) r)\<rparr>)"

definition Events :: "'cb EventLog \<Rightarrow> Event list" where
  "Events l = events l"

definition Len :: "'cb EventLog \<Rightarrow> nat" where
  "Len l = length (events l)"

definition Subscribe :: "eventFilter list \<Rightarrow> 'cb \<Rightarrow> 'cb EventLog \<Rightarrow> nat \<times> 'cb EventLog" where
  "Subscribe filters fn l =
    (nextSubID l + 1,
     l\<lparr>nextSubID := nextSubID l + 1,
       subscribers := subscribers l @ [\<lparr>ID = nextSubID l + 1, Filters = filters, OnEvent = fn\<rparr>]\<rparr>)"

fun unsubscribe_loop :: "nat \<Rightarrow> 'cb Subscriber list \<Rightarrow> 'cb Subscriber list" where
  "unsubscribe_loop i [] = []"
| "unsubscribe_loop i (s # ss) = (if ID s = i then ss else s # unsubscribe_loop i ss)"

definition Unsubscribe :: "nat \<Rightarrow> 'cb EventLog \<Rightarrow> 'cb EventLog" where
  "Unsubscribe i l = l\<lparr>subscribers := unsubscribe_loop i (subscribers l)\<rparr>"

definition ClearSubscribers :: "'cb EventLog \<Rightarrow> 'cb EventLog" where
  "ClearSubscribers l = l\<lparr>subscribers := []\<rparr>"

definition Reset :: "'cb EventLog \<Rightarrow> 'cb EventLog" where
  "Reset l = l\<lparr>events := [], generation := generation l + 1, lseq := 0, clocks := Map.empty,
     byType := Map.empty, byService := Map.empty\<rparr>"

section \<open>Queries\<close>

text \<open>The indexed lookups; an index past the end of the log, which Go would answer with a panic, is
None.\<close>

fun gather :: "Event list \<Rightarrow> nat list \<Rightarrow> Event list option" where
  "gather evs [] = Some []"
| "gather evs (i # is) =
    (if i < length evs then
       (case gather evs is of None \<Rightarrow> None | Some es \<Rightarrow> Some (evs ! i # es))
     else None)"

definition EventsByType :: "'cb EventLog \<Rightarrow> string \<Rightarrow> Event list option" where
  "EventsByType l typ = gather (events l) (lookup_or [] (byType l) typ)"

definition EventsByService :: "'cb EventLog \<Rightarrow> string \<Rightarrow> Event list option" where
  "EventsByService l svc = gather (events l) (lookup_or [] (byService l) svc)"

fun matching_loop :: "MatcherVal option \<Rightarrow> Event list \<Rightarrow> Event list" where
  "matching_loop m [] = []"
| "matching_loop m (ev # evs) =
    (if Matches m ev then ev # matching_loop m evs else matching_loop m evs)"

definition MatchingEvents :: "'cb EventLog \<Rightarrow> MatcherVal option \<Rightarrow> Event list" where
  "MatchingEvents l m = matching_loop m (events l)"

fun first_loop :: "MatcherVal option \<Rightarrow> Event list \<Rightarrow> Event option" where
  "first_loop m [] = None"
| "first_loop m (ev # evs) = (if Matches m ev then Some ev else first_loop m evs)"

definition FirstMatching :: "'cb EventLog \<Rightarrow> MatcherVal option \<Rightarrow> Event option" where
  "FirstMatching l m = first_loop m (events l)"

text \<open>The downward loop of \<^verbatim>\<open>LastMatching\<close>; \<^term>\<open>n\<close> is one more than the index.\<close>

fun last_loop :: "MatcherVal option \<Rightarrow> Event list \<Rightarrow> nat \<Rightarrow> Event option" where
  "last_loop m evs 0 = None"
| "last_loop m evs (Suc n) = (if Matches m (evs ! n) then Some (evs ! n) else last_loop m evs n)"

definition LastMatching :: "'cb EventLog \<Rightarrow> MatcherVal option \<Rightarrow> Event option" where
  "LastMatching l m = last_loop m (events l) (length (events l))"

fun count_loop :: "MatcherVal option \<Rightarrow> Event list \<Rightarrow> nat \<Rightarrow> nat" where
  "count_loop m [] n = n"
| "count_loop m (ev # evs) n = count_loop m evs (if Matches m ev then n + 1 else n)"

definition CountMatching :: "'cb EventLog \<Rightarrow> MatcherVal option \<Rightarrow> nat" where
  "CountMatching l m = count_loop m (events l) 0"

section \<open>Indexes and sequence numbers\<close>

text \<open>The logs a run can produce: everything the operations build from a new log.\<close>

inductive log_reach :: "'cb EventLog \<Rightarrow> bool" where
  new: "log_reach NewEventLog"
| emitted: "log_reach l \<Longrightarrow> log_reach (fst (emit now typ service flds dispatch l))"
| merged: "log_reach l \<Longrightarrow> log_reach (MergeClock a b l)"
| subscribed: "log_reach l \<Longrightarrow> log_reach (snd (Subscribe fs fn l))"
| unsubscribed: "log_reach l \<Longrightarrow> log_reach (Unsubscribe i l)"
| cleared: "log_reach l \<Longrightarrow> log_reach (ClearSubscribers l)"
| resetted: "log_reach l \<Longrightarrow> log_reach (Reset l)"

definition index_of :: "(Event \<Rightarrow> string) \<Rightarrow> Event list \<Rightarrow> string \<Rightarrow> nat list" where
  "index_of f evs k = (if k = [] then [] else filter (\<lambda>i. f (evs ! i) = k) [0..<length evs])"

definition log_inv :: "'cb EventLog \<Rightarrow> bool" where
  "log_inv l \<longleftrightarrow>
    lseq l = int (length (events l)) \<and>
    map Seq (events l) = map (\<lambda>i. int i + 1) [0..<length (events l)] \<and>
    lookup_or [] (byType l) = index_of Type (events l) \<and>
    lookup_or [] (byService l) = index_of Service (events l) \<and>
    sorted_wrt (<) (map ID (subscribers l)) \<and>
    list_all (\<lambda>s. ID s \<le> nextSubID l) (subscribers l)"

lemma index_of_snoc:
  "index_of f (evs @ [e]) k =
    index_of f evs k @ (if k \<noteq> [] \<and> f e = k then [length evs] else [])"
proof -
  have "filter (\<lambda>i. f ((evs @ [e]) ! i) = k) [0..<length evs] = filter (\<lambda>i. f (evs ! i) = k) [0..<length evs]"
    by (rule filter_cong) (auto simp: nth_append)
  then show ?thesis by (simp add: index_of_def nth_append)
qed

lemma index_add_snoc:
  "lookup_or [] ix = index_of f evs \<Longrightarrow>
    lookup_or [] (index_add ix (f e) (length evs)) = index_of f (evs @ [e])"
  by (rule ext) (auto simp: index_add_def index_of_snoc)

lemma emit_simps [simp]:
  "events (fst (emit now typ svc flds d l)) = events l @ [fst (snd (emit now typ svc flds d l))]"
  "lseq (fst (emit now typ svc flds d l)) = lseq l + 1"
  "clocks (fst (emit now typ svc flds d l)) = advance_clock (clocks l) svc"
  "byType (fst (emit now typ svc flds d l)) = index_add (byType l) typ (length (events l))"
  "byService (fst (emit now typ svc flds d l)) = index_add (byService l) svc (length (events l))"
  "subscribers (fst (emit now typ svc flds d l)) = subscribers l"
  "nextSubID (fst (emit now typ svc flds d l)) = nextSubID l"
  "Seq (fst (snd (emit now typ svc flds d l))) = lseq l + 1"
  "Type (fst (snd (emit now typ svc flds d l))) = typ"
  "Service (fst (snd (emit now typ svc flds d l))) = svc"
  "EventType (fst (snd (emit now typ svc flds d l))) = event_type typ flds"
  by (simp_all add: emit_def Let_def)

lemma MergeClock_simps [simp]:
  "events (MergeClock a b l) = events l" "lseq (MergeClock a b l) = lseq l"
  "byType (MergeClock a b l) = byType l" "byService (MergeClock a b l) = byService l"
  "subscribers (MergeClock a b l) = subscribers l" "nextSubID (MergeClock a b l) = nextSubID l"
  by (simp_all add: MergeClock_def Let_def split: option.splits)

lemma log_inv_emit: "log_inv l \<Longrightarrow> log_inv (fst (emit now typ svc flds d l))"
  using index_add_snoc [of "byType l" Type "events l" "fst (snd (emit now typ svc flds d l))"]
    index_add_snoc [of "byService l" Service "events l" "fst (snd (emit now typ svc flds d l))"]
  by (simp add: log_inv_def)

lemma unsubscribe_loop_subset: "set (unsubscribe_loop i ss) \<subseteq> set ss"
  by (induction ss) auto

lemma unsubscribe_loop_filter:
  "sorted_wrt (<) (map ID ss) \<Longrightarrow> unsubscribe_loop i ss = filter (\<lambda>s. ID s \<noteq> i) ss"
proof (induction ss)
  case (Cons s ss)
  have "filter (\<lambda>s. ID s \<noteq> i) ss = ss" if "ID s = i"
    using Cons.prems that by (auto simp: filter_id_conv)
  then show ?case using Cons by auto
qed simp

lemma log_inv_unsubscribe: "log_inv l \<Longrightarrow> log_inv (Unsubscribe i l)"
  by (auto simp: log_inv_def Unsubscribe_def unsubscribe_loop_filter list_all_iff
      sorted_wrt_map intro!: sorted_wrt_filter)

lemma log_inv_subscribe: "log_inv l \<Longrightarrow> log_inv (snd (Subscribe fs fn l))"
  by (auto simp: log_inv_def Subscribe_def list_all_iff sorted_wrt_append le_imp_less_Suc)

lemma log_inv_empty: "lookup_or [] Map.empty = index_of f []"
  by (simp add: fun_eq_iff index_of_def)

lemma log_inv_reach: "log_reach l \<Longrightarrow> log_inv l"
proof (induction rule: log_reach.induct)
  case new
  show ?case using log_inv_empty by (simp add: NewEventLog_def log_inv_def)
next
  case (merged l a b)
  then show ?case by (simp add: log_inv_def)
next
  case (cleared l)
  then show ?case by (simp add: ClearSubscribers_def log_inv_def)
next
  case (resetted l)
  then show ?case using log_inv_empty by (simp add: Reset_def log_inv_def)
qed (simp_all add: log_inv_emit log_inv_unsubscribe log_inv_subscribe)

lemma gather_map: "list_all (\<lambda>i. i < length evs) is \<Longrightarrow> gather evs is = Some (map (nth evs) is)"
  by (induction "is") auto

lemma gather_index:
  assumes "k \<noteq> []"
  shows "gather evs (index_of f evs k) = Some (filter (\<lambda>e. f e = k) evs)"
proof -
  have "filter (\<lambda>e. f e = k) evs = filter (\<lambda>e. f e = k) (map (nth evs) [0..<length evs])"
    by (simp only: map_nth)
  then have "map (nth evs) (filter (\<lambda>i. f (evs ! i) = k) [0..<length evs]) = filter (\<lambda>e. f e = k) evs"
    by (simp only: filter_map comp_def)
  then show ?thesis
    using assms gather_map [of evs "filter (\<lambda>i. f (evs ! i) = k) [0..<length evs]"]
    by (auto simp: index_of_def list_all_iff)
qed

text \<open>C40. The secondary indexes agree with the log. In every log a run can produce, looking up a
non-empty type or service through its index gives exactly the events a scan finds, in emission
order, and never reads past the end; and the events carry the sequence numbers 1, 2, 3, and so on.\<close>

theorem event_indexes_agree:
  assumes "log_reach l" and "k \<noteq> []"
  shows "EventsByType l k = Some (filter (\<lambda>e. Type e = k) (Events l)) \<and>
    EventsByService l k = Some (filter (\<lambda>e. Service e = k) (Events l)) \<and>
    map Seq (Events l) = map (\<lambda>i. int i + 1) [0..<Len l]"
  using log_inv_reach [OF assms(1)] gather_index [OF assms(2)]
  by (simp add: EventsByType_def EventsByService_def Events_def Len_def log_inv_def)

definition demo_log :: "string EventLog" where
  "demo_log =
    fst (emit 3 ''step_recv'' ''api'' [''target'' \<mapsto> ''db''] True (MergeClock ''api'' ''db''
      (fst (emit 2 ''syscall'' ''db'' [''syscall'' \<mapsto> ''write''] True
        (fst (emit 1 ''service_ready'' ''db'' Map.empty True NewEventLog))))))"

lemma demo_log_reach: "log_reach demo_log"
  unfolding demo_log_def by (intro log_reach.intros)

lemma demo_log_events:
  "map Service (Events demo_log) = [''db'', ''db'', ''api'']"
  "map EventType (filter (\<lambda>e. Service e = ''db'') (Events demo_log)) =
    [''lifecycle.ready'', ''syscall.write'']"
  by (simp_all add: Events_def demo_log_def NewEventLog_def event_type_def trim_prefix_def has_prefix_def)

theorem event_indexes_agree_witness:
  "log_reach demo_log \<and> ''db'' \<noteq> [] \<and>
   map_option (map EventType) (EventsByService demo_log ''db'') =
     Some [''lifecycle.ready'', ''syscall.write'']"
proof -
  have "EventsByService demo_log ''db'' = Some (filter (\<lambda>e. Service e = ''db'') (Events demo_log))"
    using event_indexes_agree [OF demo_log_reach, of "''db''"] by simp
  then show ?thesis
    using demo_log_reach by (simp add: demo_log_events event_type_def trim_prefix_def has_prefix_def)
qed

section \<open>Vector clocks\<close>

text \<open>Component \<^term>\<open>k\<close> of an event's clock.\<close>

definition vc_at :: "Event \<Rightarrow> string \<Rightarrow> int" where
  "vc_at e k = lookup_or 0 (VectorClock e) k"

text \<open>The operations that build the trace (on a log without subscribers, which emission does not
depend on), and beside them the events each service knows of: its own
as they are emitted, and at a merge everything the other service knows of. Each event gets the set
that its service knows of when it is emitted, itself included.\<close>

datatype log_op = Do_emit int string string "string \<rightharpoonup> string" bool | Do_merge string string

fun log_step :: "log_op \<Rightarrow> 'cb EventLog \<Rightarrow> 'cb EventLog" where
  "log_step (Do_emit now typ svc flds d) l = fst (emit now typ svc flds d l)"
| "log_step (Do_merge a b) l = MergeClock a b l"

fun know_step ::
  "log_op \<Rightarrow> nat \<times> (string \<Rightarrow> nat set) \<times> nat set list \<Rightarrow> nat \<times> (string \<Rightarrow> nat set) \<times> nat set list" where
  "know_step (Do_emit now typ svc flds d) (n, known, hist) =
    (if svc = [] then (n + 1, known, hist @ [{}])
     else (n + 1, known(svc := insert n (known svc)), hist @ [insert n (known svc)]))"
| "know_step (Do_merge a b) (n, known, hist) = (n, known(a := known a \<union> known b), hist)"

definition run_log :: "log_op list \<Rightarrow> unit EventLog" where
  "run_log ops = fold log_step ops NewEventLog"

definition run_know :: "log_op list \<Rightarrow> nat \<times> (string \<Rightarrow> nat set) \<times> nat set list" where
  "run_know ops = fold know_step ops (0, \<lambda>_. {}, [])"

definition causal_past :: "log_op list \<Rightarrow> nat \<Rightarrow> nat set" where
  "causal_past ops i = snd (snd (run_know ops)) ! i"

lemma clk_advance:
  "clk (advance_clock cs s) r k =
    (if s \<noteq> [] \<and> r = s \<and> k = s then clk cs s s + 1 else clk cs r k)"
  by (auto simp: advance_clock_def clk_def Let_def split: option.splits)

lemma vc_at_emit:
  "vc_at (fst (snd (emit now typ svc flds d l))) k =
    (if svc = [] then 0 else clk (advance_clock (clocks l) svc) svc k)"
  by (auto simp: vc_at_def emit_def Let_def clk_def split: option.splits)

lemma clk_merge:
  assumes "\<And>r k. 0 \<le> clk (clocks l) r k"
  shows "clk (clocks (MergeClock a b l)) r k =
    (if r = a then max (clk (clocks l) a k) (clk (clocks l) b k) else clk (clocks l) r k)"
  using assms [of a k] assms [of b k]
  by (auto simp: MergeClock_def Let_def clk_def merge_map_def lookup_or_def split: option.splits)

text \<open>What ties the clocks to the knowledge of the services.\<close>

definition own_clock_max :: "'cb EventLog \<Rightarrow> bool" where
  "own_clock_max l \<longleftrightarrow>
    (\<forall>r k. 0 \<le> clk (clocks l) r k \<and> clk (clocks l) r k \<le> clk (clocks l) k k) \<and>
    (\<forall>e \<in> set (events l). \<forall>k. vc_at e k \<le> clk (clocks l) k k)"

definition knows_by_clock :: "Event list \<Rightarrow> nat set \<Rightarrow> (string \<Rightarrow> int) \<Rightarrow> bool" where
  "knows_by_clock evs K c \<longleftrightarrow>
    (\<forall>j. j \<in> K \<longleftrightarrow> j < length evs \<and> Service (evs ! j) \<noteq> [] \<and>
       vc_at (evs ! j) (Service (evs ! j)) \<le> c (Service (evs ! j))) \<and>
    (\<forall>j \<in> K. \<forall>k. vc_at (evs ! j) k \<le> c k)"

definition know_inv :: "'cb EventLog \<Rightarrow> nat \<times> (string \<Rightarrow> nat set) \<times> nat set list \<Rightarrow> bool" where
  "know_inv l g \<longleftrightarrow>
    (case g of (n, known, hist) \<Rightarrow>
       n = length (events l) \<and> length hist = n \<and> own_clock_max l \<and>
       (\<forall>s. knows_by_clock (events l) (known s) (clk (clocks l) s)) \<and>
       (\<forall>i < n. Service (events l ! i) \<noteq> [] \<longrightarrow>
          knows_by_clock (events l) (hist ! i) (vc_at (events l ! i))))"

lemma own_clock_max_emit:
  assumes "own_clock_max l"
  shows "own_clock_max (fst (emit now typ svc flds d l))"
  using assms unfolding own_clock_max_def
  by (auto simp: clk_advance vc_at_emit intro: add_increasing2)

lemma own_clock_max_merge:
  assumes "own_clock_max l"
  shows "own_clock_max (MergeClock a b l)"
  using assms unfolding own_clock_max_def
  by (auto simp: clk_merge le_max_iff_disj)

text \<open>An event emitted later is unknown to a clock that does not count it.\<close>

lemma knows_by_clock_snoc_other:
  assumes "knows_by_clock evs K c"
    and "Service e = [] \<or> c (Service e) < vc_at e (Service e)"
  shows "knows_by_clock (evs @ [e]) K c"
  using assms unfolding knows_by_clock_def by (auto simp: nth_append less_Suc_eq)

lemma knows_by_clock_snoc_own:
  assumes "knows_by_clock evs K c" and "Service e \<noteq> []" and "vc_at e (Service e) \<le> c' (Service e)"
    and "\<And>k. c k \<le> c' k" and "\<And>k. vc_at e k \<le> c' k" and "\<And>k. k \<noteq> Service e \<Longrightarrow> c' k = c k"
    and "\<And>j. j < length evs \<Longrightarrow> Service (evs ! j) = Service e \<Longrightarrow>
      vc_at (evs ! j) (Service e) \<le> c (Service e)"
  shows "knows_by_clock (evs @ [e]) (insert (length evs) K) c'"
proof -
  have "j \<in> K \<longleftrightarrow> Service (evs ! j) \<noteq> [] \<and>
      vc_at (evs ! j) (Service (evs ! j)) \<le> c' (Service (evs ! j))" if "j < length evs" for j
    using that assms unfolding knows_by_clock_def by (metis order_trans)
  moreover have "j < length evs" if "j \<in> K" for j
    using that assms(1) unfolding knows_by_clock_def by auto
  moreover have "vc_at (evs ! j) k \<le> c' k" if "j \<in> K" for j k
    using that assms(1,4) unfolding knows_by_clock_def by (meson order_trans)
  ultimately show ?thesis
    using assms(2,3,5) unfolding knows_by_clock_def by (auto simp: nth_append less_Suc_eq)
qed

lemma knows_by_clock_union:
  assumes "knows_by_clock evs K c" and "knows_by_clock evs K' c'"
  shows "knows_by_clock evs (K \<union> K') (\<lambda>k. max (c k) (c' k))"
  using assms unfolding knows_by_clock_def by (simp add: le_max_iff_disj) blast

lemma know_inv_step:
  assumes "know_inv l g"
  shows "know_inv (log_step op l) (know_step op g)"
proof (cases op)
  case (Do_merge a b)
  obtain n known hist where g: "g = (n, known, hist)" by (cases g)
  have own: "own_clock_max l" and K: "\<And>s. knows_by_clock (events l) (known s) (clk (clocks l) s)"
    using assms by (auto simp: know_inv_def g)
  have pos: "\<And>r k. 0 \<le> clk (clocks l) r k" using own by (simp add: own_clock_max_def)
  have "clk (clocks (MergeClock a b l)) r =
      (if r = a then (\<lambda>k. max (clk (clocks l) a k) (clk (clocks l) b k)) else clk (clocks l) r)" for r
    by (rule ext) (simp add: clk_merge [OF pos])
  then have "knows_by_clock (events l) ((known(a := known a \<union> known b)) s) (clk (clocks (MergeClock a b l)) s)" for s
    using knows_by_clock_union [OF K K] K by simp
  then show ?thesis
    using assms own_clock_max_merge [OF own] by (simp add: know_inv_def g Do_merge)
next
  case (Do_emit now ty svc flds d)
  obtain n known hist where g: "g = (n, known, hist)" by (cases g)
  define e where "e = fst (snd (emit now ty svc flds d l))"
  define cs where "cs = advance_clock (clocks l) svc"
  have inv: "n = length (events l)" "length hist = n" "own_clock_max l"
    "\<And>s. knows_by_clock (events l) (known s) (clk (clocks l) s)"
    "\<And>i. i < n \<Longrightarrow> Service (events l ! i) \<noteq> [] \<Longrightarrow>
       knows_by_clock (events l) (hist ! i) (vc_at (events l ! i))"
    using assms by (auto simp: know_inv_def g)
  have svc: "Service e = svc" by (simp add: e_def)
  have new: "vc_at e svc = clk (clocks l) svc svc + 1" if "svc \<noteq> []"
    using that by (simp add: e_def vc_at_emit clk_advance)
  have old: "vc_at x svc < vc_at e svc" if "svc \<noteq> []" "x \<in> set (events l)" for x
    using inv(3) that new unfolding own_clock_max_def by (auto intro: zle_add1_eq_le [THEN iffD2])
  have hist: "knows_by_clock (events l @ [e]) (hist ! i) (vc_at (events l ! i))"
    if "i < n" "Service (events l ! i) \<noteq> []" for i
    using inv(1,5) that old svc nth_mem by (intro knows_by_clock_snoc_other) auto
  have other: "knows_by_clock (events l @ [e]) (known s) (clk cs s)" if "svc = [] \<or> s \<noteq> svc" for s
  proof -
    have "clk cs s = clk (clocks l) s"
      using that by (auto simp: cs_def clk_advance fun_eq_iff)
    moreover have "svc = [] \<or> clk (clocks l) s svc < vc_at e svc"
      using inv(3) new unfolding own_clock_max_def by (cases "svc = []") simp_all
    ultimately show ?thesis
      using inv(4) [of s] svc by (intro knows_by_clock_snoc_other) auto
  qed
  have own: "knows_by_clock (events l @ [e]) (insert (length (events l)) (known svc)) (clk cs svc)"
    if "svc \<noteq> []"
  proof (rule knows_by_clock_snoc_own [OF inv(4)])
    show "vc_at (events l ! j) (Service e) \<le> clk (clocks l) svc (Service e)" if "j < length (events l)" for j
      using that svc inv(3) unfolding own_clock_max_def by simp
  qed (use that svc in \<open>auto simp: cs_def clk_advance e_def vc_at_emit\<close>)
  have vce: "vc_at e = clk cs svc" if "svc \<noteq> []"
    using that by (simp add: fun_eq_iff e_def cs_def vc_at_emit)
  show ?thesis
    using inv own_clock_max_emit [OF inv(3), of now ty svc flds d] hist other own vce svc
    by (auto simp: know_inv_def g Do_emit nth_append less_Suc_eq e_def [symmetric] cs_def [symmetric])
qed

lemma know_inv_run: "know_inv (run_log ops) (run_know ops)"
proof (induction ops rule: rev_induct)
  case Nil
  show ?case
    by (simp add: know_inv_def run_log_def run_know_def NewEventLog_def own_clock_max_def
        knows_by_clock_def clk_def)
next
  case (snoc op ops)
  then show ?case
    using know_inv_step by (simp add: run_log_def run_know_def)
qed

text \<open>C18. Vector clocks characterise causality. However emissions and merges follow each other, an
event of a service has clock components that dominate those of another event in every place exactly
when that other event lies in its causal past: emitted by the same service before it, or made known
to that service through merges; comparing the one component of the other event's service decides
the same.\<close>

theorem vector_clocks_characterise_causality:
  assumes "i < length (events (run_log ops))" and "j < length (events (run_log ops))"
    and "Service (events (run_log ops) ! i) \<noteq> []" and "Service (events (run_log ops) ! j) = s" and "s \<noteq> []"
  shows "(j \<in> causal_past ops i) =
      (vc_at (events (run_log ops) ! j) s \<le> vc_at (events (run_log ops) ! i) s) \<and>
    (j \<in> causal_past ops i) =
      (\<forall>k. vc_at (events (run_log ops) ! j) k \<le> vc_at (events (run_log ops) ! i) k)"
proof -
  have "knows_by_clock (events (run_log ops)) (causal_past ops i) (vc_at (events (run_log ops) ! i))"
    using know_inv_run [of ops] assms(1,3)
    by (auto simp: know_inv_def causal_past_def split: prod.splits)
  then show ?thesis using assms(2,4,5) unfolding knows_by_clock_def by auto
qed

definition demo_ops :: "log_op list" where
  "demo_ops = [Do_emit 1 ''syscall'' ''db'' Map.empty True, Do_merge ''api'' ''db'',
     Do_emit 2 ''step_recv'' ''api'' Map.empty True, Do_emit 3 ''syscall'' ''db'' Map.empty True]"

lemma demo_ops_services: "map Service (events (run_log demo_ops)) = [''db'', ''api'', ''db'']"
  by (simp add: run_log_def demo_ops_def NewEventLog_def)

theorem vector_clocks_characterise_causality_witness:
  "vc_at (events (run_log demo_ops) ! 0) ''db'' \<le>
     vc_at (events (run_log demo_ops) ! 1) ''db'' \<and>
   \<not> vc_at (events (run_log demo_ops) ! 2) ''db'' \<le>
     vc_at (events (run_log demo_ops) ! 1) ''db''"
proof -
  let ?evs = "events (run_log demo_ops)"
  have l: "length ?evs = 3"
    using demo_ops_services by (metis length_map length_Cons list.size(3) numeral_3_eq_3)
  have s: "Service (?evs ! 0) = ''db''" "Service (?evs ! 1) = ''api''" "Service (?evs ! 2) = ''db''"
    using demo_ops_services l nth_map [of 0 ?evs Service] nth_map [of 1 ?evs Service]
      nth_map [of 2 ?evs Service] by simp_all
  have "causal_past demo_ops 1 = {0, 1}"
    by (auto simp: causal_past_def run_know_def demo_ops_def)
  then show ?thesis
    using vector_clocks_characterise_causality [of 1 demo_ops 0 "''db''"]
      vector_clocks_characterise_causality [of 1 demo_ops 2 "''db''"] l s by simp
qed

section \<open>Queries and subscribers\<close>

lemma matching_loop_filter: "matching_loop m evs = filter (Matches m) evs"
  by (induction evs) auto

lemma first_loop_find: "first_loop m evs = find (Matches m) evs"
  by (induction evs) auto

lemma last_loop_take:
  "n \<le> length evs \<Longrightarrow>
    last_loop m evs n =
      (if filter (Matches m) (take n evs) = [] then None
       else Some (last (filter (Matches m) (take n evs))))"
  by (induction n) (auto simp: take_Suc_conv_app_nth)

lemma count_loop_length: "count_loop m evs n = n + length (filter (Matches m) evs)"
  by (induction evs arbitrary: n) auto

text \<open>The four queries agree: the first and the last match are the ends of the list of matches, and
the count is its length.\<close>

lemma queries_agree:
  "MatchingEvents l m = filter (Matches m) (Events l)"
  "FirstMatching l m = (case MatchingEvents l m of [] \<Rightarrow> None | e # _ \<Rightarrow> Some e)"
  "LastMatching l m = (if MatchingEvents l m = [] then None else Some (last (MatchingEvents l m)))"
  "CountMatching l m = length (MatchingEvents l m)"
proof -
  show *: "MatchingEvents l m = filter (Matches m) (Events l)"
    by (simp add: MatchingEvents_def Events_def matching_loop_filter)
  have "find P xs = (case filter P xs of [] \<Rightarrow> None | e # _ \<Rightarrow> Some e)" for P and xs :: "Event list"
    by (induction xs) auto
  then show "FirstMatching l m = (case MatchingEvents l m of [] \<Rightarrow> None | e # _ \<Rightarrow> Some e)"
    by (simp add: * FirstMatching_def first_loop_find Events_def)
  show "LastMatching l m = (if MatchingEvents l m = [] then None else Some (last (MatchingEvents l m)))"
    by (simp add: * LastMatching_def last_loop_take Events_def)
  show "CountMatching l m = length (MatchingEvents l m)"
    by (simp add: * CountMatching_def count_loop_length Events_def)
qed

text \<open>A subscriber is called for an emitted event exactly when it is still subscribed and its filters
match, in the order of subscription; after its removal it is not called again.\<close>

lemma dispatch_subscribed:
  assumes "log_reach l"
  shows "snd (snd (Emit now typ svc flds (Unsubscribe i l))) =
    map OnEvent (filter (\<lambda>s. ID s \<noteq> i \<and> matchesFilters (fst (snd (Emit now typ svc flds l))) (Filters s))
      (subscribers l))"
proof -
  have "sorted_wrt (<) (map ID (subscribers l))"
    using log_inv_reach [OF assms] by (simp add: log_inv_def)
  then show ?thesis
    by (simp add: Emit_def emit_def Let_def Unsubscribe_def dispatch_list_def unsubscribe_loop_filter
        conj_commute)
qed

section \<open>The append-only contract\<close>

text \<open>What the evaluation of temporal properties relies on: while the log grows, the first event that
matches stays the first.\<close>

locale growing_log =
  fixes first_match :: "'log \<Rightarrow> 'm \<Rightarrow> 'e option"
    and grows :: "'log \<Rightarrow> 'log \<Rightarrow> bool"
  assumes grows_refl: "grows l l"
    and grows_trans: "grows l l' \<Longrightarrow> grows l' l'' \<Longrightarrow> grows l l''"
    and first_match_stable: "grows l l' \<Longrightarrow> first_match l m = Some e \<Longrightarrow> first_match l' m = Some e"
begin

lemma found_stays: "grows l l' \<Longrightarrow> first_match l m \<noteq> None \<Longrightarrow> first_match l' m = first_match l m"
  using first_match_stable by fastforce

lemma not_found_before: "grows l l' \<Longrightarrow> first_match l' m = None \<Longrightarrow> first_match l m = None"
  by (cases "first_match l m") (simp_all add: first_match_stable)

lemma chain_grows: "list_all2 grows (butlast (l # ls)) ls \<Longrightarrow> l' \<in> set (l # ls) \<Longrightarrow> grows l l'"
proof (induction ls arbitrary: l)
  case Nil
  then show ?case using grows_refl by simp
next
  case (Cons a ls)
  then show ?case using grows_refl grows_trans by fastforce
qed

end

definition log_grows :: "'cb EventLog \<Rightarrow> 'cb EventLog \<Rightarrow> bool" where
  "log_grows l l' \<longleftrightarrow> (\<exists>es. events l' = events l @ es)"

interpretation trace_log: growing_log FirstMatching log_grows
proof
  fix l l' l'' :: "'a EventLog" and m and e :: Event
  show "log_grows l l" by (simp add: log_grows_def)
  show "log_grows l l''" if "log_grows l l'" "log_grows l' l''"
    using that by (auto simp: log_grows_def)
  have "find P (xs @ ys) = Some e" if "find P xs = Some e" for P and xs ys :: "Event list"
    using that by (induction xs) (auto split: if_splits)
  then show "FirstMatching l' m = Some e" if "log_grows l l'" "FirstMatching l m = Some e"
    using that by (auto simp: FirstMatching_def first_loop_find log_grows_def)
qed

lemma log_grows_emit: "log_grows l (fst (emit now typ svc flds d l))"
  by (simp add: log_grows_def)

lemma log_grows_merge: "log_grows l (MergeClock a b l)"
  by (simp add: log_grows_def)

section \<open>The ShiViz rendering\<close>

text \<open>A vector clock as a JSON object; \<^term>\<open>ks\<close> lists the keys in the order the map yields them.\<close>

definition formatVectorClock :: "string list \<Rightarrow> (string \<rightharpoonup> int) \<Rightarrow> string" where
  "formatVectorClock ks vc =
    (if ks = [] then ''{}''
     else ''{'' @ join '', '' (map (\<lambda>k. go_quote k @ '': '' @ show_int (lookup_or 0 vc k)) (sort ks)) @ ''}'')"

definition arrow :: string where
  "arrow = [CHR 0xE2, CHR 0x86, CHR 0x92]"

definition shiviz_desc :: "Event \<Rightarrow> string" where
  "shiviz_desc ev =
    (if Type ev = ''violation'' then
       ''VIOLATION ['' @ field ev ''test'' @ ''] '' @ field ev ''reason''
     else
       EventType ev
       @ (case Fields ev ''decision'' of Some x \<Rightarrow> '' '' @ x | None \<Rightarrow> [])
       @ (if field ev ''label'' \<noteq> [] then '' ['' @ field ev ''label'' @ '']'' else [])
       @ (if field ev ''path'' \<noteq> [] then '' '' @ field ev ''path'' else [])
       @ (if field ev ''latency_ms'' \<noteq> [] \<and> field ev ''latency_ms'' \<noteq> ''0''
          then '' (+'' @ field ev ''latency_ms'' @ ''ms)'' else [])
       @ (case (Fields ev ''target'', Fields ev ''method'') of
            (Some target, Some meth) \<Rightarrow> '' '' @ meth @ arrow @ target
          | _ \<Rightarrow> []))"

definition shiviz_line :: "(Event \<Rightarrow> string list) \<Rightarrow> Event \<Rightarrow> string" where
  "shiviz_line keys ev =
    Service ev @ '' '' @ formatVectorClock (keys ev) (VectorClock ev) @ '' '' @ shiviz_desc ev @ [CHR 0x0A]"

definition shiviz_header :: string where
  "shiviz_header = ''(?<host>'' @ [CHR 0x5C] @ ''S+) (?<clock>'' @ [CHR 0x5C] @ ''{.*?'' @ [CHR 0x5C]
     @ ''}) (?<event>.*)'' @ [CHR 0x0A, CHR 0x0A]"

definition FormatShiViz :: "(Event \<Rightarrow> string list) \<Rightarrow> 'cb EventLog \<Rightarrow> string" where
  "FormatShiViz keys l =
    shiviz_header @ concat (map (\<lambda>ev. if Service ev = [] then [] else shiviz_line keys ev) (events l))"

text \<open>The rendering does not depend on the order in which the runtime yields the keys of a clock.\<close>

lemma FormatShiViz_deterministic:
  assumes "\<And>ev. ev \<in> set (events l) \<Longrightarrow> mset (keys ev) = mset (keys' ev)"
  shows "FormatShiViz keys l = FormatShiViz keys' l"
proof -
  have "formatVectorClock (keys ev) vc = formatVectorClock (keys' ev) vc" if "ev \<in> set (events l)" for ev vc
  proof -
    have "sort (keys ev) = sort (keys' ev)"
      using assms [OF that] by (metis properties_for_sort mset_sort sorted_sort)
    moreover have "keys ev = [] \<longleftrightarrow> keys' ev = []"
      using assms [OF that] by auto
    ultimately show ?thesis by (simp add: formatVectorClock_def)
  qed
  then show ?thesis
    by (auto simp: FormatShiViz_def shiviz_line_def intro!: arg_cong [where f = concat])
qed

end
