(* ===== verification/Temporal.thy ===== *)
theory Temporal
  imports Event_Log
begin

text \<open>Temporal expectations, \<^verbatim>\<open>internal/star/temporal.go\<close>: \<^verbatim>\<open>eventually(p)\<close> and \<^verbatim>\<open>always(p)\<close> with
their anchors, evaluated after each event and once more at termination. A predicate is the
specification's own Starlark function of the trace: it raises a message or returns a truth value.

Shown here: over a growing log the two evaluators decide the bounded temporal formulas they stand
for, the verdicts at termination follow the table of the termination causes, an undecided verdict
only comes from a timeout, and an end anchor that is older than the start anchor switches the check
off.\<close>

section \<open>Verdicts and expectations\<close>

datatype Verdict = VerdictPending | VerdictPass | VerdictFail

fun verdict_string :: "Verdict \<Rightarrow> string" where
  "verdict_string VerdictPass = ''pass''"
| "verdict_string VerdictFail = ''fail''"
| "verdict_string VerdictPending = ''pending''"

datatype TerminationCause =
    TerminationNatural
  | TerminationTerminateWhen
  | TerminationTimeout
  | TerminationImmediateFail

type_synonym 'cb predicate = "'cb EventLog \<Rightarrow> bool res"

record 'cb EventuallyExpectation =
  epredicate :: "'cb predicate"
  epredName :: string
  anchor :: "MatcherVal option"
  satisfied :: bool
  anchorReached :: bool

record betweenAnchor =
  baname :: string
  bamatcher :: "MatcherVal option"

record 'cb AlwaysExpectation =
  apredicate :: "'cb predicate"
  apredName :: string
  betweenStart :: betweenAnchor
  betweenEnd :: betweenAnchor
  violated :: bool
  violationMsg :: string
  windowStarted :: bool
  windowEnded :: bool

text \<open>The empty anchor, and expectations as the builtins construct them.\<close>

definition no_anchor :: betweenAnchor where
  "no_anchor = \<lparr>baname = [], bamatcher = None\<rparr>"

definition new_eventually :: "string \<Rightarrow> 'cb predicate \<Rightarrow> MatcherVal option \<Rightarrow> 'cb EventuallyExpectation" where
  "new_eventually name p m =
    \<lparr>epredicate = p, epredName = name, anchor = m, satisfied = False, anchorReached = False\<rparr>"

definition new_always :: "string \<Rightarrow> 'cb predicate \<Rightarrow> betweenAnchor \<Rightarrow> betweenAnchor \<Rightarrow> 'cb AlwaysExpectation" where
  "new_always name p s e =
    \<lparr>apredicate = p, apredName = name, betweenStart = s, betweenEnd = e, violated = False,
     violationMsg = [], windowStarted = False, windowEnded = False\<rparr>"

section \<open>eventually\<close>

definition ev_name :: "'cb EventuallyExpectation \<Rightarrow> string" where
  "ev_name e = ''eventually('' @ epredName e @ '')''"

text \<open>\<^verbatim>\<open>Evaluate\<close>: the verdict, the reason, the error if the predicate raised, and the new state.\<close>

definition ev_Evaluate ::
  "'cb EventLog \<Rightarrow> 'cb EventuallyExpectation \<Rightarrow>
    Verdict \<times> string \<times> string option \<times> 'cb EventuallyExpectation" where
  "ev_Evaluate lg e =
    (if satisfied e then (VerdictPass, [], None, e)
     else if anchor e \<noteq> None \<and> \<not> anchorReached e \<and> FirstMatching lg (anchor e) = None then
       (VerdictPending, [], None, e)
     else
       let e = (if anchor e \<noteq> None then e\<lparr>anchorReached := True\<rparr> else e)
       in case epredicate e lg of
            Inl err \<Rightarrow> (VerdictFail, ''predicate raised: '' @ err, Some err, e)
          | Inr b \<Rightarrow>
              if b then (VerdictPass, [], None, e\<lparr>satisfied := True\<rparr>)
              else (VerdictPending, [], None, e))"

definition ev_Finalize ::
  "'cb EventLog \<Rightarrow> TerminationCause \<Rightarrow> 'cb EventuallyExpectation \<Rightarrow>
    Verdict \<times> string \<times> 'cb EventuallyExpectation" where
  "ev_Finalize lg cause e =
    (let (v, _, err, e') = ev_Evaluate lg e in
     case err of
       Some msg \<Rightarrow> (VerdictFail, ''predicate raised at termination: '' @ msg, e')
     | None \<Rightarrow>
         if v = VerdictPass then (VerdictPass, [], e')
         else case cause of
           TerminationTerminateWhen \<Rightarrow>
             (VerdictFail, ev_name e @ '' never satisfied; terminate_when fired'', e')
         | TerminationImmediateFail \<Rightarrow>
             (VerdictFail, ev_name e @ '' never satisfied; terminate_when fired'', e')
         | TerminationTimeout \<Rightarrow>
             (VerdictPending, ev_name e @ '' never satisfied within timeout'', e')
         | TerminationNatural \<Rightarrow>
             (VerdictFail, ev_name e @ '' never satisfied before body returned'', e'))"

section \<open>always\<close>

definition SetWindowStarted :: "string \<Rightarrow> 'cb AlwaysExpectation \<Rightarrow> 'cb AlwaysExpectation" where
  "SetWindowStarted anc a =
    (if baname (betweenStart a) = anc then a\<lparr>windowStarted := True\<rparr> else a)"

definition SetWindowEnded :: "string \<Rightarrow> 'cb AlwaysExpectation \<Rightarrow> 'cb AlwaysExpectation" where
  "SetWindowEnded anc a =
    (if baname (betweenEnd a) = anc then a\<lparr>windowEnded := True\<rparr> else a)"

definition hasNamedStartAnchor :: "'cb AlwaysExpectation \<Rightarrow> bool" where
  "hasNamedStartAnchor a = (baname (betweenStart a) \<noteq> [] \<and> bamatcher (betweenStart a) = None)"

definition hasNamedEndAnchor :: "'cb AlwaysExpectation \<Rightarrow> bool" where
  "hasNamedEndAnchor a = (baname (betweenEnd a) \<noteq> [] \<and> bamatcher (betweenEnd a) = None)"

definition al_name :: "'cb AlwaysExpectation \<Rightarrow> string" where
  "al_name a = ''always('' @ apredName a @ '')''"

text \<open>Whether the window is open at this evaluation: a matcher is looked up in the log, no anchor or
\<^verbatim>\<open>body_start\<close> opens at once, the other named anchors wait for their signal.\<close>

definition window_opens :: "'cb EventLog \<Rightarrow> 'cb AlwaysExpectation \<Rightarrow> bool" where
  "window_opens lg a =
    (windowStarted a \<or>
     (case bamatcher (betweenStart a) of
        Some m \<Rightarrow> FirstMatching lg (Some m) \<noteq> None
      | None \<Rightarrow> baname (betweenStart a) = [] \<or> baname (betweenStart a) = ''body_start''))"

definition window_closes :: "'cb EventLog \<Rightarrow> 'cb AlwaysExpectation \<Rightarrow> bool" where
  "window_closes lg a =
    (windowEnded a \<or>
     (case bamatcher (betweenEnd a) of
        Some m \<Rightarrow> FirstMatching lg (Some m) \<noteq> None
      | None \<Rightarrow> False))"

definition al_Evaluate ::
  "'cb EventLog \<Rightarrow> 'cb AlwaysExpectation \<Rightarrow>
    Verdict \<times> string \<times> string option \<times> 'cb AlwaysExpectation" where
  "al_Evaluate lg a =
    (if violated a then (VerdictFail, violationMsg a, None, a)
     else if \<not> window_opens lg a then (VerdictPending, [], None, a)
     else
       let a = a\<lparr>windowStarted := True\<rparr>;
           a = a\<lparr>windowEnded := window_closes lg a\<rparr>
       in if windowEnded a then (VerdictPass, [], None, a)
          else case apredicate a lg of
            Inl err \<Rightarrow>
              (VerdictFail, ''predicate raised: '' @ err, Some err,
               a\<lparr>violated := True, violationMsg := ''predicate raised: '' @ err\<rparr>)
          | Inr b \<Rightarrow>
              if \<not> b then
                (VerdictFail, al_name a @ '' violated'', None,
                 a\<lparr>violated := True, violationMsg := al_name a @ '' violated''\<rparr>)
              else (VerdictPending, [], None, a))"

definition em_dash :: string where
  "em_dash = [CHR 0xE2, CHR 0x80, CHR 0x94]"

definition al_Finalize ::
  "'cb EventLog \<Rightarrow> TerminationCause \<Rightarrow> 'cb AlwaysExpectation \<Rightarrow>
    Verdict \<times> string \<times> 'cb AlwaysExpectation" where
  "al_Finalize lg cause a0 =
    (let (v, msg, _, a) = al_Evaluate lg a0 in
     if v = VerdictFail then (VerdictFail, msg, a)
     else
       let endPending = (\<not> windowEnded a \<and> (bamatcher (betweenEnd a) \<noteq> None \<or> hasNamedEndAnchor a));
           unbounded = (bamatcher (betweenEnd a) = None \<and> baname (betweenEnd a) = [])
       in if endPending \<and> cause = TerminationTimeout then
            (VerdictPending, al_name a @ '' end-anchor never reached within timeout'', a)
          else if endPending \<and> cause = TerminationTerminateWhen then (VerdictPass, [], a)
          else if unbounded \<and> cause = TerminationTimeout then
            (VerdictPending, al_name a @ '' held through a truncated (timed-out) prefix '' @ em_dash @
               '' safety not definitively established (RFC-049)'', a)
          else (VerdictPass, [], a))"

definition VacuousWindow :: "'cb AlwaysExpectation \<Rightarrow> bool" where
  "VacuousWindow a =
    (let hasStartAnchor = (bamatcher (betweenStart a) \<noteq> None \<or>
           baname (betweenStart a) \<noteq> [] \<and> baname (betweenStart a) \<noteq> ''body_start'')
     in hasStartAnchor \<and> \<not> windowStarted a \<and> \<not> violated a)"

section \<open>Builtins and registration\<close>

definition parseBetweenAnchor :: "string \<Rightarrow> StarVal \<Rightarrow> betweenAnchor res" where
  "parseBetweenAnchor name v =
    (case v of
       SString s \<Rightarrow>
         if s = ''body_start'' \<or> s = ''body_end'' \<or> s = ''stable'' then
           Inr \<lparr>baname = s, bamatcher = None\<rparr>
         else Inl (name @ '': unknown string anchor '' @ go_quote s @
                   '' (valid: body_start, body_end, stable)'')
     | SMatcher m \<Rightarrow> Inr \<lparr>baname = [], bamatcher = Some m\<rparr>
     | _ \<Rightarrow> Inl (name @ '': anchor must be string or matcher, got '' @ star_type v))"

datatype 'cb ExpectationVal =
    Ev "'cb EventuallyExpectation"
  | Al "'cb AlwaysExpectation"

definition builtinEventually :: "string \<Rightarrow> 'cb predicate \<Rightarrow> StarVal option \<Rightarrow> 'cb ExpectationVal res" where
  "builtinEventually name p anchorArg =
    (case anchorArg of
       None \<Rightarrow> Inr (Ev (new_eventually name p None))
     | Some v \<Rightarrow>
         (case matcherOrPredFromArg v of
            Inl e \<Rightarrow> Inl (''eventually(anchor=...): '' @ e)
          | Inr m \<Rightarrow> Inr (Ev (new_eventually name p (Some m)))))"

text \<open>The argument of \<^verbatim>\<open>between=\<close> as the elements of the tuple, None when it is not given; another
type counts as a tuple of the wrong length.\<close>

definition builtinAlways :: "string \<Rightarrow> 'cb predicate \<Rightarrow> StarVal list option \<Rightarrow> 'cb ExpectationVal res" where
  "builtinAlways name p between =
    (case between of
       None \<Rightarrow> Inr (Al (new_always name p no_anchor no_anchor))
     | Some [v0, v1] \<Rightarrow>
         (case parseBetweenAnchor ''between[0]'' v0 of
            Inl e \<Rightarrow> Inl e
          | Inr s \<Rightarrow>
              (case parseBetweenAnchor ''between[1]'' v1 of
                 Inl e \<Rightarrow> Inl e
               | Inr t \<Rightarrow> Inr (Al (new_always name p s t))))
     | Some _ \<Rightarrow> Inl ''always(between=...) must be a tuple of two anchors'')"

fun exp_name :: "'cb ExpectationVal \<Rightarrow> string" where
  "exp_name (Ev e) = ev_name e"
| "exp_name (Al a) = al_name a"

fun exp_Finalize ::
  "'cb EventLog \<Rightarrow> TerminationCause \<Rightarrow> 'cb ExpectationVal \<Rightarrow> Verdict \<times> string \<times> 'cb ExpectationVal" where
  "exp_Finalize lg cause (Ev e) = (let (v, msg, e') = ev_Finalize lg cause e in (v, msg, Ev e'))"
| "exp_Finalize lg cause (Al a) = (let (v, msg, a') = al_Finalize lg cause a in (v, msg, Al a'))"

fun exp_vacuous :: "'cb ExpectationVal \<Rightarrow> bool" where
  "exp_vacuous (Ev e) = False"
| "exp_vacuous (Al a) = VacuousWindow a"

text \<open>\<^verbatim>\<open>signalLifecycleAnchor\<close> over the registered expectations.\<close>

fun signal_one :: "string \<Rightarrow> 'cb ExpectationVal \<Rightarrow> 'cb ExpectationVal" where
  "signal_one anc (Ev e) = Ev e"
| "signal_one anc (Al a) = Al (SetWindowEnded anc (SetWindowStarted anc a))"

definition signalLifecycleAnchor :: "string \<Rightarrow> 'cb ExpectationVal list \<Rightarrow> 'cb ExpectationVal list" where
  "signalLifecycleAnchor anc exps = map (signal_one anc) exps"

text \<open>The watcher that runs on every event: it evaluates the always expectations in order and stops
at the first that fails; the flag says whether one did.\<close>

fun always_watch :: "'cb EventLog \<Rightarrow> 'cb ExpectationVal list \<Rightarrow> bool \<times> 'cb ExpectationVal list" where
  "always_watch lg [] = (False, [])"
| "always_watch lg (Ev e # exps) = (let (f, r) = always_watch lg exps in (f, Ev e # r))"
| "always_watch lg (Al a # exps) =
    (let (v, _, _, a') = al_Evaluate lg a
     in if v = VerdictFail then (True, Al a' # exps)
        else let (f, r) = always_watch lg exps in (f, Al a' # r))"

section \<open>What the evaluators decide\<close>

text \<open>The state after evaluating on a log, and after evaluating on each log of a sequence in turn.\<close>

definition ev_observe :: "'cb EventLog \<Rightarrow> 'cb EventuallyExpectation \<Rightarrow> 'cb EventuallyExpectation" where
  "ev_observe l e = snd (snd (snd (ev_Evaluate l e)))"

definition al_observe :: "'cb EventLog \<Rightarrow> 'cb AlwaysExpectation \<Rightarrow> 'cb AlwaysExpectation" where
  "al_observe l a = snd (snd (snd (al_Evaluate l a)))"

definition ev_active :: "MatcherVal option \<Rightarrow> 'cb EventLog \<Rightarrow> bool" where
  "ev_active m l \<longleftrightarrow> m = None \<or> FirstMatching l m \<noteq> None"

lemma ev_active_grows: "log_grows l l' \<Longrightarrow> ev_active m l \<Longrightarrow> ev_active m l'"
  using trace_log.found_stays [of l l' m] by (auto simp: ev_active_def)

lemma ev_observe_simps [simp]:
  "epredicate (ev_observe l e) = epredicate e" "anchor (ev_observe l e) = anchor e"
  by (simp_all add: ev_observe_def ev_Evaluate_def Let_def split: sum.splits)

lemma ev_observe_fields [simp]:
  "epredicate (fold ev_observe ls e) = epredicate e" "anchor (fold ev_observe ls e) = anchor e"
  by (induction ls arbitrary: e) simp_all

lemma ev_observe_satisfied:
  assumes "anchorReached e \<Longrightarrow> ev_active (anchor e) l"
  shows "satisfied (ev_observe l e) = (satisfied e \<or> ev_active (anchor e) l \<and> epredicate e l = Inr True)"
    and "anchorReached (ev_observe l e) \<Longrightarrow> ev_active (anchor e) l"
  using assms
  by (auto simp: ev_observe_def ev_Evaluate_def Let_def ev_active_def split: sum.splits if_splits)

lemma eventually_run:
  assumes "sorted_wrt log_grows ls" and "e = new_eventually n p m"
  shows "satisfied (fold ev_observe ls e) = (\<exists>l \<in> set ls. ev_active m l \<and> p l = Inr True)
    \<and> (anchorReached (fold ev_observe ls e) \<longrightarrow> (\<exists>l \<in> set ls. ev_active m l))"
  using assms(1)
proof (induction ls rule: rev_induct)
  case Nil
  then show ?case using assms(2) by (simp add: new_eventually_def)
next
  case (snoc l ls)
  let ?e = "fold ev_observe ls e"
  have f: "epredicate ?e = p" "anchor ?e = m"
    using assms(2) by (simp_all add: new_eventually_def)
  have g: "log_grows l' l" if "l' \<in> set ls" for l'
    using snoc.prems that by (simp add: sorted_wrt_append)
  have IH: "satisfied ?e = (\<exists>l \<in> set ls. ev_active m l \<and> p l = Inr True)"
    "anchorReached ?e \<Longrightarrow> \<exists>l \<in> set ls. ev_active m l"
    using snoc by (simp_all add: sorted_wrt_append)
  have "anchorReached ?e \<Longrightarrow> ev_active (anchor ?e) l"
    using IH(2) g ev_active_grows f(2) by blast
  then show ?case
    using ev_observe_satisfied [of ?e l] IH(1) f by auto
qed


definition demo_matcher :: "string \<Rightarrow> MatcherVal" where
  "demo_matcher t = \<lparr>mname = ''event(type='' @ t @ '')'',
     matchFn = Some (\<lambda>ev. matchEventCriteria ev [(''type'', t)])\<rparr>"

definition demo_trace :: "string list \<Rightarrow> unit EventLog" where
  "demo_trace ts = fold (\<lambda>t l. fst (emit 0 t ''svc'' Map.empty True l)) ts NewEventLog"

lemma demo_trace_snoc:
  "demo_trace (ts @ [t]) = fst (emit 0 t ''svc'' Map.empty True (demo_trace ts))"
  by (simp add: demo_trace_def)

lemma demo_trace_types: "map Type (events (demo_trace ts)) = ts"
  by (induction ts rule: rev_induct) (simp_all add: demo_trace_snoc, simp add: demo_trace_def NewEventLog_def)

lemma demo_trace_grows: "log_grows (demo_trace ts) (demo_trace (ts @ us))"
proof (induction us rule: rev_induct)
  case Nil
  show ?case by (simp add: trace_log.grows_refl)
next
  case (snoc t us)
  then show ?case
    using trace_log.grows_trans [OF snoc log_grows_emit] demo_trace_snoc [of "ts @ us" t] by simp
qed

lemma demo_matcher_type: "CHR ''*'' \<notin> set t \<Longrightarrow> t \<noteq> [] \<Longrightarrow> Matches (Some (demo_matcher t)) ev = (Type ev = t)"
  by (simp add: Matches_def demo_matcher_def criteria_actual_def matchValue_def)

lemma demo_first:
  assumes "CHR ''*'' \<notin> set t" and "t \<noteq> []"
  shows "(FirstMatching (demo_trace ts) (Some (demo_matcher t)) = None) = (t \<notin> set ts)"
proof -
  have "(FirstMatching (demo_trace ts) (Some (demo_matcher t)) = None) =
      (t \<notin> set (map Type (events (demo_trace ts))))"
    using demo_matcher_type [OF assms]
    by (auto simp: FirstMatching_def first_loop_find find_None_iff)
  then show ?thesis by (simp only: demo_trace_types)
qed


lemma al_observe_simps [simp]:
  "apredicate (al_observe l a) = apredicate a" "betweenStart (al_observe l a) = betweenStart a"
  "betweenEnd (al_observe l a) = betweenEnd a"
  by (simp_all add: al_observe_def al_Evaluate_def Let_def split: sum.splits)

lemma al_observe_fields [simp]:
  "apredicate (fold al_observe ls a) = apredicate a"
  "betweenStart (fold al_observe ls a) = betweenStart a"
  "betweenEnd (fold al_observe ls a) = betweenEnd a"
  by (induction ls arbitrary: a) simp_all

lemma window_opens_grows:
  "log_grows l l' \<Longrightarrow> \<not> windowStarted a \<Longrightarrow> window_opens l a \<Longrightarrow> window_opens l' a"
  using trace_log.found_stays [of l l'] by (auto simp: window_opens_def split: option.splits)

lemma window_closes_grows:
  "log_grows l l' \<Longrightarrow> \<not> windowEnded a \<Longrightarrow> window_closes l a \<Longrightarrow> window_closes l' a"
  using trace_log.found_stays [of l l'] by (auto simp: window_closes_def split: option.splits)

lemma al_observe_step:
  "violated (al_observe l a) =
    (violated a \<or> window_opens l a \<and> \<not> window_closes l a \<and> apredicate a l \<noteq> Inr True)"
  "windowStarted (al_observe l a) = (windowStarted a \<or> \<not> violated a \<and> window_opens l a)"
  "windowEnded (al_observe l a) = (if \<not> violated a \<and> window_opens l a then window_closes l a else windowEnded a)"
  by (auto simp: al_observe_def al_Evaluate_def Let_def window_closes_def split: sum.splits if_splits option.splits)

lemma always_run:
  assumes "sorted_wrt log_grows ls" and "a = new_always n p s t"
  shows "violated (fold al_observe ls a) =
      (\<exists>l \<in> set ls. window_opens l a \<and> \<not> window_closes l a \<and> p l \<noteq> Inr True)"
    and "windowStarted (fold al_observe ls a) \<Longrightarrow> \<exists>l \<in> set ls. window_opens l a"
    and "windowEnded (fold al_observe ls a) \<Longrightarrow> \<exists>l \<in> set ls. window_closes l a"
proof -
  have init: "\<not> violated a" "\<not> windowStarted a" "\<not> windowEnded a" "apredicate a = p"
    using assms(2) by (simp_all add: new_always_def)
  have "(violated (fold al_observe ls a) =
      (\<exists>l \<in> set ls. window_opens l a \<and> \<not> window_closes l a \<and> p l \<noteq> Inr True)) \<and>
    (windowStarted (fold al_observe ls a) \<longrightarrow> (\<exists>l \<in> set ls. window_opens l a)) \<and>
    (windowEnded (fold al_observe ls a) \<longrightarrow> (\<exists>l \<in> set ls. window_closes l a))"
    using assms(1)
  proof (induction ls rule: rev_induct)
    case Nil
    then show ?case using init by simp
  next
    case (snoc l ls)
    let ?a = "fold al_observe ls a"
    have g: "log_grows l' l" if "l' \<in> set ls" for l'
      using snoc.prems that by (simp add: sorted_wrt_append)
    have IH: "violated ?a = (\<exists>l \<in> set ls. window_opens l a \<and> \<not> window_closes l a \<and> p l \<noteq> Inr True)"
      "windowStarted ?a \<Longrightarrow> \<exists>l \<in> set ls. window_opens l a"
      "windowEnded ?a \<Longrightarrow> \<exists>l \<in> set ls. window_closes l a"
      using snoc by (simp_all add: sorted_wrt_append)
    have o: "window_opens l ?a = window_opens l a"
    proof (cases "windowStarted ?a")
      case True
      then have "window_opens l a" using IH(2) g window_opens_grows init(2) by blast
      then show ?thesis using True by (simp add: window_opens_def)
    qed (use init(2) in \<open>simp add: window_opens_def split: option.split\<close>)
    have c: "window_closes l ?a = window_closes l a"
    proof (cases "windowEnded ?a")
      case True
      then have "window_closes l a" using IH(3) g window_closes_grows init(3) by blast
      then show ?thesis using True by (simp add: window_closes_def)
    qed (use init(3) in \<open>simp add: window_closes_def split: option.split\<close>)
    show ?case
      using IH al_observe_step [of l ?a] o c init(4) by (auto split: if_splits)
  qed
  then show "violated (fold al_observe ls a) =
      (\<exists>l \<in> set ls. window_opens l a \<and> \<not> window_closes l a \<and> p l \<noteq> Inr True)"
    and "windowStarted (fold al_observe ls a) \<Longrightarrow> \<exists>l \<in> set ls. window_opens l a"
    and "windowEnded (fold al_observe ls a) \<Longrightarrow> \<exists>l \<in> set ls. window_closes l a"
    by blast+
qed


definition between_types :: "string \<Rightarrow> betweenAnchor" where
  "between_types t = \<lparr>baname = [], bamatcher = Some (demo_matcher t)\<rparr>"

lemma demo_window:
  assumes "CHR ''*'' \<notin> set s" "s \<noteq> []" "CHR ''*'' \<notin> set t" "t \<noteq> []"
  shows "window_opens (demo_trace ts) (new_always n p (between_types s) (between_types t)) = (s \<in> set ts)"
    and "window_closes (demo_trace ts) (new_always n p (between_types s) (between_types t)) = (t \<in> set ts)"
  using demo_first [OF assms(1,2), of ts] demo_first [OF assms(3,4), of ts]
  by (simp_all add: window_opens_def window_closes_def new_always_def between_types_def)


text \<open>The end anchor is looked up in the whole log, not from the start anchor on. If at every
evaluation where the start anchor has been seen the end anchor has been seen as well, in particular
if an end event came before the first start event, the predicate is never consulted: whatever it
would answer the expectation passes at termination, and is not even reported as vacuous once the
start anchor was seen.\<close>

theorem always_switched_off_by_earlier_end:
  assumes "sorted_wrt log_grows (ls @ [l])"
    and "\<And>x. x \<in> set (ls @ [l]) \<Longrightarrow> FirstMatching x (Some ms) \<noteq> None \<Longrightarrow> FirstMatching x (Some mt) \<noteq> None"
    and "FirstMatching l (Some ms) \<noteq> None"
  shows "\<exists>a. al_Finalize l cause (fold al_observe (ls @ [l])
        (new_always n p \<lparr>baname = [], bamatcher = Some ms\<rparr> \<lparr>baname = [], bamatcher = Some mt\<rparr>)) =
      (VerdictPass, [], a) \<and> VacuousWindow a = False"
proof -
  let ?init = "new_always n p \<lparr>baname = [], bamatcher = Some ms\<rparr> \<lparr>baname = [], bamatcher = Some mt\<rparr>"
  let ?a = "fold al_observe (ls @ [l]) ?init"
  have w: "window_opens x ?init = (FirstMatching x (Some ms) \<noteq> None)"
    "window_closes x ?init = (FirstMatching x (Some mt) \<noteq> None)" for x
    by (simp_all add: window_opens_def window_closes_def new_always_def)
  have nv: "\<not> violated ?a"
    using always_run(1) [OF assms(1) refl, of n p] assms(2) by (simp only: w) blast
  have anchors: "betweenStart ?a = \<lparr>baname = [], bamatcher = Some ms\<rparr>"
    "betweenEnd ?a = \<lparr>baname = [], bamatcher = Some mt\<rparr>"
    unfolding al_observe_fields by (simp_all add: new_always_def)
  have "FirstMatching l (Some mt) \<noteq> None" using assms(2,3) by simp
  then have "window_opens l ?a" "window_closes l (?a\<lparr>windowStarted := True\<rparr>)"
    using assms(3) anchors by (simp_all add: window_opens_def window_closes_def del: fold_append)
  then have "al_Evaluate l ?a = (VerdictPass, [], None, ?a\<lparr>windowStarted := True, windowEnded := True\<rparr>)"
    using nv by (simp add: al_Evaluate_def Let_def del: fold_append)
  then show ?thesis
    using anchors by (simp add: al_Finalize_def VacuousWindow_def Let_def del: fold_append)
qed

theorem always_switched_off_by_earlier_end_witness:
  "\<exists>a. al_Finalize (demo_trace [''recovery'', ''error'']) TerminationNatural
      (fold al_observe [demo_trace [''recovery''], demo_trace [''recovery'', ''error'']]
        (new_always ''p'' (\<lambda>l. Inr False) (between_types ''error'') (between_types ''recovery''))) =
    (VerdictPass, [], a) \<and> VacuousWindow a = False"
proof -
  have "sorted_wrt log_grows ([demo_trace [''recovery'']] @ [demo_trace [''recovery'', ''error'']])"
    using demo_trace_grows [of "[''recovery'']" "[''error'']"] by simp
  moreover have "FirstMatching x (Some (demo_matcher ''recovery'')) \<noteq> None"
    if "x \<in> set ([demo_trace [''recovery'']] @ [demo_trace [''recovery'', ''error'']])" for x
    using that demo_first [of "''recovery''" "[''recovery'']"]
      demo_first [of "''recovery''" "[''recovery'', ''error'']"] by auto
  moreover have "FirstMatching (demo_trace [''recovery'', ''error'']) (Some (demo_matcher ''error'')) \<noteq> None"
    using demo_first [of "''error''" "[''recovery'', ''error'']"] by simp
  ultimately show ?thesis
    using always_switched_off_by_earlier_end
      [of "[demo_trace [''recovery'']]" "demo_trace [''recovery'', ''error'']"
        "demo_matcher ''error''" "demo_matcher ''recovery''" TerminationNatural "''p''" "\<lambda>l. Inr False"]
    by (simp add: between_types_def)
qed

section \<open>Verdicts at termination\<close>

lemma ev_Evaluate_cases:
  "ev_Evaluate l e =
    (if satisfied e then (VerdictPass, [], None, e)
     else if anchorReached e \<or> ev_active (anchor e) l then
       (case epredicate e l of
          Inl err \<Rightarrow> (VerdictFail, ''predicate raised: '' @ err, Some err, ev_observe l e)
        | Inr True \<Rightarrow> (VerdictPass, [], None, ev_observe l e)
        | Inr False \<Rightarrow> (VerdictPending, [], None, ev_observe l e))
     else (VerdictPending, [], None, e))"
  by (auto simp: ev_Evaluate_def ev_observe_def ev_active_def Let_def split: sum.splits bool.splits)

text \<open>The verdict at termination. An eventually passes if it was satisfied or its predicate is true
now, fails if the predicate raises, and otherwise stays undecided under a timeout and fails under
every other cause. An always fails if it was violated or is violated now; otherwise it stays
undecided exactly under a timeout with its window still open, an end anchor that was never reached
and no end anchor at all alike, and passes in every other case.\<close>

theorem finalize_table:
  "fst (ev_Finalize l cause e) =
    (if satisfied e then VerdictPass
     else if (anchorReached e \<or> ev_active (anchor e) l) \<and> epredicate e l = Inr True then VerdictPass
     else if (anchorReached e \<or> ev_active (anchor e) l) \<and> epredicate e l \<noteq> Inr False then VerdictFail
     else if cause = TerminationTimeout then VerdictPending else VerdictFail) \<and>
   fst (al_Finalize l cause a) =
    (if violated (al_observe l a) then VerdictFail
     else if cause = TerminationTimeout \<and>
       (windowEnded (al_observe l a) = False \<or> betweenEnd a = no_anchor) then VerdictPending
     else VerdictPass)"
proof (intro conjI)
  show "fst (ev_Finalize l cause e) =
    (if satisfied e then VerdictPass
     else if (anchorReached e \<or> ev_active (anchor e) l) \<and> epredicate e l = Inr True then VerdictPass
     else if (anchorReached e \<or> ev_active (anchor e) l) \<and> epredicate e l \<noteq> Inr False then VerdictFail
     else if cause = TerminationTimeout then VerdictPending else VerdictFail)"
    by (simp add: ev_Finalize_def ev_Evaluate_cases split: sum.split bool.split TerminationCause.split)
  have v: "fst (al_Evaluate l a) = VerdictFail \<longleftrightarrow> violated (al_observe l a)"
    by (simp add: al_observe_def al_Evaluate_def Let_def split: sum.split)
  obtain x msg err a' where ev: "al_Evaluate l a = (x, msg, err, a')" by (cases "al_Evaluate l a")
  have a': "a' = al_observe l a" using ev by (simp add: al_observe_def)
  have "betweenEnd a = no_anchor \<longleftrightarrow> bamatcher (betweenEnd a) = None \<and> baname (betweenEnd a) = []"
    by (cases "betweenEnd a") (auto simp: no_anchor_def)
  then show "fst (al_Finalize l cause a) =
    (if violated (al_observe l a) then VerdictFail
     else if cause = TerminationTimeout \<and>
       (windowEnded (al_observe l a) = False \<or> betweenEnd a = no_anchor) then VerdictPending
     else VerdictPass)"
    using v ev a' by (auto simp: al_Finalize_def Let_def hasNamedEndAnchor_def)
qed

text \<open>Only a timeout leaves an expectation undecided.\<close>

lemma pending_only_on_timeout:
  "exp_Finalize l cause x = (VerdictPending, msg, x') \<Longrightarrow> cause = TerminationTimeout"
proof (induction x)
  case (Ev e)
  then show ?case
    by (auto simp: ev_Finalize_def ev_Evaluate_cases Let_def
        split: sum.splits bool.splits TerminationCause.splits if_splits)
next
  case (Al a)
  then show ?case
    by (auto simp: al_Finalize_def Let_def split: prod.splits if_splits)
qed

end
