(* ===== verification/Proxy_Manager.thy ===== *)
theory Proxy_Manager
  imports Matchers
begin

text \<open>The registry of protocol proxies, \<^verbatim>\<open>internal/proxy/proxy.go\<close>: the fault rules a proxy consults
and how a rule selects requests, and the manager that keeps one running proxy per service
interface. The protocol plugins themselves are not part of the model: starting one is a function
that either fails or gives the address it listens on, and what every plugin shares, its list of
rules, is kept here.

Shown here: the selection of requests, that the list of supported protocols agrees with the
constructor, that rules and addresses of different interfaces do not interfere as long as service
names contain no colon, and that addresses are read back.\<close>

section \<open>Rules\<close>

datatype Action = ActionRespond | ActionError | ActionDelay | ActionDrop | ActionDuplicate

record Rule =
  RMethod :: string
  RPath :: string
  RQuery :: string
  RKey :: string
  RTopic :: string
  RCommand :: string
  RAction :: Action
  Status :: int
  Body :: string
  RError :: string
  RDelay :: int
  Prob :: float64

text \<open>\<^verbatim>\<open>strings.EqualFold\<close> on ASCII text.\<close>

definition equal_fold :: "string \<Rightarrow> string \<Rightarrow> bool" where
  "equal_fold a b = (to_lower a = to_lower b)"

definition matchGlob :: "string \<Rightarrow> string \<Rightarrow> bool" where
  "matchGlob actual pattern =
    (if pattern = [] then True
     else if CHR ''*'' \<in> set pattern then
       (if filepath_Match pattern actual then True
        else if has_suffix pattern ''*'' then has_prefix actual (trim_suffix pattern ''*'')
        else if has_prefix pattern ''*'' then has_suffix actual (trim_prefix pattern ''*'')
        else False)
     else equal_fold actual pattern)"

definition MatchRequest ::
  "Rule \<Rightarrow> string \<Rightarrow> string \<Rightarrow> string \<Rightarrow> string \<Rightarrow> string \<Rightarrow> string \<Rightarrow> bool" where
  "MatchRequest r meth path query k topic command =
    (if RMethod r \<noteq> [] \<and> \<not> matchGlob meth (RMethod r) then False
     else if RPath r \<noteq> [] \<and> \<not> matchGlob path (RPath r) then False
     else if RQuery r \<noteq> [] \<and> \<not> matchGlob query (RQuery r) then False
     else if RKey r \<noteq> [] \<and> \<not> matchGlob k (RKey r) then False
     else if RTopic r \<noteq> [] \<and> \<not> matchGlob topic (RTopic r) then False
     else if RCommand r \<noteq> [] \<and> \<not> matchGlob command (RCommand r) then False
     else True)"

section \<open>The manager\<close>

record runningProxy =
  rp_protocol :: "string option" \<comment> \<open>None for an address registered without a proxy\<close>
  rules :: "Rule list"
  tls :: bool
  listenAddr :: string
  target :: string

record Manager =
  proxies :: "string \<rightharpoonup> runningProxy"

definition NewManager :: Manager where
  "NewManager = \<lparr>proxies = Map.empty\<rparr>"

definition proxy_key :: "string \<Rightarrow> string \<Rightarrow> string" where
  "proxy_key svc iface = svc @ '':'' @ iface"

definition supported_protocols :: "string list" where
  "supported_protocols = [''tcp'', ''http'', ''http2'', ''redis'', ''postgres'', ''mysql'', ''grpc'',
     ''kafka'', ''mongodb'', ''amqp'', ''nats'', ''memcached'', ''udp'', ''cassandra'', ''clickhouse'']"

definition SupportsProxy :: "string \<Rightarrow> bool" where
  "SupportsProxy protocol = (protocol \<in> set supported_protocols)"

text \<open>The plugin \<^verbatim>\<open>newProxy\<close> constructs, by name, and which plugins accept TLS material.\<close>

datatype Plugin =
    TCPProxy | HTTPProxy | HTTP2Proxy | RedisProxy | PostgresProxy | MySQLProxy | GRPCProxy | KafkaProxy
  | MongoDBProxy | AMQPProxy | NATSProxy | MemcachedProxy | UDPProxy | CassandraProxy | ClickhouseProxy

definition newProxy :: "string \<Rightarrow> Plugin res" where
  "newProxy protocol =
    (if protocol = ''tcp'' then Inr TCPProxy
     else if protocol = ''http'' then Inr HTTPProxy
     else if protocol = ''http2'' then Inr HTTP2Proxy
     else if protocol = ''redis'' then Inr RedisProxy
     else if protocol = ''postgres'' then Inr PostgresProxy
     else if protocol = ''mysql'' then Inr MySQLProxy
     else if protocol = ''grpc'' then Inr GRPCProxy
     else if protocol = ''kafka'' then Inr KafkaProxy
     else if protocol = ''mongodb'' then Inr MongoDBProxy
     else if protocol = ''amqp'' then Inr AMQPProxy
     else if protocol = ''nats'' then Inr NATSProxy
     else if protocol = ''memcached'' then Inr MemcachedProxy
     else if protocol = ''udp'' then Inr UDPProxy
     else if protocol = ''cassandra'' then Inr CassandraProxy
     else if protocol = ''clickhouse'' then Inr ClickhouseProxy
     else Inl (''protocol '' @ go_quote protocol @ '' does not support proxy-level faults''))"

definition TLSAware :: "Plugin \<Rightarrow> bool" where
  "TLSAware p = (p \<in> {GRPCProxy, HTTPProxy, HTTP2Proxy, KafkaProxy, RedisProxy, TCPProxy})"

text \<open>Starting a plugin on a target gives the address it listens on or an error.\<close>

type_synonym starter = "Plugin \<Rightarrow> string \<Rightarrow> string res"

definition ensure ::
  "bool \<Rightarrow> starter \<Rightarrow> string \<Rightarrow> string \<Rightarrow> string \<Rightarrow> string \<Rightarrow> Manager \<Rightarrow> (string \<times> bool) res \<times> Manager" where
  "ensure with_tls start svc iface protocol targetAddr m =
    (let k = proxy_key svc iface in
     case proxies m k of
       Some rp \<Rightarrow> (Inr (listenAddr rp, False), m)
     | None \<Rightarrow>
         (case newProxy protocol of
            Inl e \<Rightarrow> (Inl (''create '' @ protocol @ '' proxy for '' @ k @ '': '' @ e), m)
          | Inr p \<Rightarrow>
              let tlsApplied = (with_tls \<and> TLSAware p) in
              (case start p targetAddr of
                 Inl e \<Rightarrow> (Inl (''start '' @ protocol @ '' proxy for '' @ k @ '': '' @ e), m)
               | Inr addr \<Rightarrow>
                   (Inr (addr, tlsApplied),
                    m\<lparr>proxies := (proxies m)(k \<mapsto>
                       \<lparr>rp_protocol = Some protocol, rules = [], tls = tlsApplied,
                        listenAddr = addr, target = targetAddr\<rparr>)\<rparr>))))"

definition EnsureProxy ::
  "starter \<Rightarrow> string \<Rightarrow> string \<Rightarrow> string \<Rightarrow> string \<Rightarrow> Manager \<Rightarrow> string res \<times> Manager" where
  "EnsureProxy start svc iface protocol targetAddr m =
    (let (r, m') = ensure False start svc iface protocol targetAddr m
     in (map_sum id fst r, m'))"

definition EnsureProxyTLS ::
  "starter \<Rightarrow> string \<Rightarrow> string \<Rightarrow> string \<Rightarrow> string \<Rightarrow> Manager \<Rightarrow> (string \<times> bool) res \<times> Manager" where
  "EnsureProxyTLS start svc iface protocol targetAddr m = ensure True start svc iface protocol targetAddr m"

text \<open>Adding a rule to an entry that was registered without a proxy dereferences nil: the inner
None.\<close>

definition AddRule :: "string \<Rightarrow> string \<Rightarrow> Rule \<Rightarrow> Manager \<Rightarrow> (string + Manager) option" where
  "AddRule svc iface rule m =
    (let k = proxy_key svc iface in
     case proxies m k of
       None \<Rightarrow> Some (Inl (''no proxy running for '' @ k))
     | Some rp \<Rightarrow>
         (case rp_protocol rp of
            None \<Rightarrow> None
          | Some _ \<Rightarrow> Some (Inr (m\<lparr>proxies := (proxies m)(k \<mapsto> rp\<lparr>rules := rules rp @ [rule]\<rparr>)\<rparr>))))"

definition ClearRules :: "string \<Rightarrow> string \<Rightarrow> Manager \<Rightarrow> Manager option" where
  "ClearRules svc iface m =
    (let k = proxy_key svc iface in
     case proxies m k of
       None \<Rightarrow> Some m
     | Some rp \<Rightarrow>
         (case rp_protocol rp of
            None \<Rightarrow> None
          | Some _ \<Rightarrow> Some (m\<lparr>proxies := (proxies m)(k \<mapsto> rp\<lparr>rules := []\<rparr>)\<rparr>)))"

definition RegisterListenAddr :: "string \<Rightarrow> string \<Rightarrow> string \<Rightarrow> Manager \<Rightarrow> Manager" where
  "RegisterListenAddr svc iface addr m =
    m\<lparr>proxies := (proxies m)(proxy_key svc iface \<mapsto>
       \<lparr>rp_protocol = None, rules = [], tls = False, listenAddr = addr, target = []\<rparr>)\<rparr>"

definition GetProxyAddr :: "string \<Rightarrow> string \<Rightarrow> Manager \<Rightarrow> string" where
  "GetProxyAddr svc iface m =
    (case proxies m (proxy_key svc iface) of Some rp \<Rightarrow> listenAddr rp | None \<Rightarrow> [])"

text \<open>\<^verbatim>\<open>stopMatching\<close>: the entries whose key has the prefix are removed, then stopped; \<^term>\<open>ks\<close> is
the order in which the map yields its keys.\<close>

definition stopMatching :: "string list \<Rightarrow> string \<Rightarrow> Manager \<Rightarrow> runningProxy list \<times> Manager" where
  "stopMatching ks prefix m =
    (let hit = filter (\<lambda>k. has_prefix k prefix \<and> proxies m k \<noteq> None) ks
     in (map (\<lambda>k. the (proxies m k)) hit, m\<lparr>proxies := (proxies m) |` (- set hit)\<rparr>))"

definition StopAll :: "string list \<Rightarrow> Manager \<Rightarrow> runningProxy list \<times> Manager" where
  "StopAll ks m = stopMatching ks [] m"

definition StopService :: "string list \<Rightarrow> string \<Rightarrow> Manager \<Rightarrow> runningProxy list \<times> Manager" where
  "StopService ks svc m = stopMatching ks (svc @ '':'') m"

definition extractPort :: "string \<Rightarrow> int" where
  "extractPort addr =
    (if addr = [] then 0
     else case split_host_port addr of
       Inl _ \<Rightarrow> 0
     | Inr (_, portStr) \<Rightarrow> (case atoi portStr of Inl _ \<Rightarrow> 0 | Inr port \<Rightarrow> port))"

definition IsListenPort :: "string list \<Rightarrow> int \<Rightarrow> Manager \<Rightarrow> bool" where
  "IsListenPort ks port m =
    (if port \<le> 0 then False
     else list_ex (\<lambda>k. case proxies m k of None \<Rightarrow> False | Some rp \<Rightarrow> extractPort (listenAddr rp) = port) ks)"

section \<open>What the manager promises\<close>

text \<open>The list of protocols that can be proxied agrees with the constructor.\<close>

lemma SupportsProxy_newProxy: "SupportsProxy p = (\<exists>x. newProxy p = Inr x)"
  by (simp add: SupportsProxy_def supported_protocols_def newProxy_def)

lemma proxy_key_inj:
  assumes "CHR '':'' \<notin> set s" and "CHR '':'' \<notin> set s'"
  shows "proxy_key s i = proxy_key s' i' \<longleftrightarrow> s = s' \<and> i = i'"
proof
  assume "proxy_key s i = proxy_key s' i'"
  then have e: "s @ CHR '':'' # i = s' @ CHR '':'' # i'" by (simp add: proxy_key_def)
  have "takeWhile (\<lambda>c. c \<noteq> CHR '':'') (s @ CHR '':'' # i) = s"
    "takeWhile (\<lambda>c. c \<noteq> CHR '':'') (s' @ CHR '':'' # i') = s'"
    using assms by (auto simp: takeWhile_append)
  then have "s = s'" using e by simp
  then show "s = s' \<and> i = i'" using e by simp
qed simp

lemma proxy_key_prefix:
  assumes "CHR '':'' \<notin> set s" and "CHR '':'' \<notin> set s'"
  shows "has_prefix (proxy_key s i) (s' @ '':'') \<longleftrightarrow> s = s'"
proof -
  have "has_prefix (proxy_key s i) (s' @ '':'') \<longleftrightarrow> (\<exists>r. proxy_key s i = proxy_key s' r)"
    by (simp add: has_prefix_iff proxy_key_def)
  then show ?thesis using proxy_key_inj [OF assms] by auto
qed

text \<open>Interfaces do not interfere. As long as service names contain no colon, adding a rule to one
interface appends it to the rules of that interface and leaves every other one as it is, and
stopping a service removes exactly its own proxies: the others keep their address and rules.\<close>

theorem proxy_rules_isolated:
  assumes "CHR '':'' \<notin> set s" and "CHR '':'' \<notin> set s'"
    and "proxies m (proxy_key s i) = Some rp" and "rp_protocol rp \<noteq> None"
    and "proxy_key s' i' \<in> set ks"
  shows "\<exists>m'. AddRule s i rule m = Some (Inr m') \<and>
      proxies m' (proxy_key s' i') =
        (if s' = s \<and> i' = i then Some (rp\<lparr>rules := rules rp @ [rule]\<rparr>)
         else proxies m (proxy_key s' i')) \<and>
      proxies (snd (StopService ks s m')) (proxy_key s' i') =
        (if s' = s then None else proxies m (proxy_key s' i'))"
proof -
  obtain p where p: "rp_protocol rp = Some p" using assms(4) by auto
  define m' where "m' = m\<lparr>proxies := (proxies m)(proxy_key s i \<mapsto> rp\<lparr>rules := rules rp @ [rule]\<rparr>)\<rparr>"
  have "AddRule s i rule m = Some (Inr m')"
    using assms(3) p by (simp add: AddRule_def m'_def)
  moreover have other: "proxies m' (proxy_key s' i') =
      (if s' = s \<and> i' = i then Some (rp\<lparr>rules := rules rp @ [rule]\<rparr>) else proxies m (proxy_key s' i'))"
    using proxy_key_inj [OF assms(2,1)] by (simp add: m'_def)
  moreover have "proxies (snd (StopService ks s m')) (proxy_key s' i') =
      (if s' = s then None else proxies m (proxy_key s' i'))"
    using other proxy_key_prefix [OF assms(2,1)] assms(5)
    by (auto simp: StopService_def stopMatching_def Let_def restrict_map_def)
  ultimately show ?thesis by blast
qed

definition demo_rule :: Rule where
  "demo_rule = \<lparr>RMethod = ''GET'', RPath = ''/orders/*'', RQuery = [], RKey = [], RTopic = [], RCommand = [],
     RAction = ActionError, Status = 503, Body = [], RError = ''unavailable'', RDelay = 0, Prob = Fin 0\<rparr>"

definition demo_manager :: Manager where
  "demo_manager =
    snd (EnsureProxy (\<lambda>p t. Inr ''127.0.0.1:2'') ''db'' ''sql'' ''postgres'' ''db:5432''
      (snd (EnsureProxy (\<lambda>p t. Inr ''127.0.0.1:1'') ''api'' ''http'' ''http'' ''api:80'' NewManager)))"

lemma demo_manager_entries:
  "proxies demo_manager (proxy_key ''api'' ''http'') =
     Some \<lparr>rp_protocol = Some ''http'', rules = [], tls = False, listenAddr = ''127.0.0.1:1'', target = ''api:80''\<rparr>"
  "proxies demo_manager (proxy_key ''db'' ''sql'') =
     Some \<lparr>rp_protocol = Some ''postgres'', rules = [], tls = False, listenAddr = ''127.0.0.1:2'', target = ''db:5432''\<rparr>"
  by (simp_all add: demo_manager_def EnsureProxy_def ensure_def NewManager_def newProxy_def proxy_key_def)

theorem proxy_rules_isolated_witness:
  "\<exists>m'. AddRule ''api'' ''http'' demo_rule demo_manager = Some (Inr m') \<and>
     proxies m' (proxy_key ''db'' ''sql'') = proxies demo_manager (proxy_key ''db'' ''sql'') \<and>
     proxies (snd (StopService [proxy_key ''db'' ''sql''] ''api'' m')) (proxy_key ''db'' ''sql'') =
       proxies demo_manager (proxy_key ''db'' ''sql'')"
  using proxy_rules_isolated [of "''api''" "''db''" demo_manager "''http''" _ "''sql''" "[proxy_key ''db'' ''sql'']" demo_rule,
      OF _ _ demo_manager_entries(1)]
  by simp

text \<open>With a colon in a name two interfaces share an entry: the second is given the first one's address
and no proxy of its own.\<close>

lemma proxy_key_collision: "proxy_key ''a'' ''b:c'' = proxy_key ''a:b'' ''c''"
  by (simp add: proxy_key_def)

text \<open>A proxy is started once: asking again gives the same address and starts nothing.\<close>

lemma EnsureProxy_idempotent:
  assumes "EnsureProxy start s i p t m = (Inr addr, m')"
  shows "EnsureProxy start' s i p' t' m' = (Inr addr, m')" and "GetProxyAddr s i m' = addr"
  using assms
  by (auto simp: EnsureProxy_def ensure_def GetProxyAddr_def Let_def split: option.splits sum.splits)

text \<open>The port of a listening address is recognised.\<close>

lemma extractPort_listen:
  assumes "CHR '':'' \<notin> set h" "CHR ''['' \<notin> set h" "CHR '']'' \<notin> set h" and "n < 65536"
  shows "extractPort (h @ '':'' @ show_nat n) = int n"
proof -
  have d: "\<forall>c \<in> set (show_nat n). is_digit c" by (rule show_nat_digits)
  then have "CHR '':'' \<notin> set (show_nat n)" "CHR ''['' \<notin> set (show_nat n)" "CHR '']'' \<notin> set (show_nat n)"
    by (auto simp: is_digit_def dest!: bspec)
  then show ?thesis
    using assms split_host_port_plain [of h "show_nat n"] atoi_show_nat [of n]
    by (simp add: extractPort_def)
qed

end
