(* ===== verification/Determinism.thy ===== *)
theory Determinism
  imports Session Event_Log Proxy_Manager
begin

text \<open>Determinism levels and the detection of unmediated input and output,
\<^verbatim>\<open>internal/star/determinism.go\<close>: the spec-level promise made by \<^verbatim>\<open>determinism()\<close>, the classification
of intercepted syscalls, the events it puts into the trace, and the strict check over the trace. It
joins the engine's syscall events, the event log and the proxy registry.

Shown here: a configuration the builtin accepts is well formed and given once; a syscall is reported
exactly when it is unmediated at level L1; and the strict check fails exactly when the trace holds
an unmediated event that neither the spec nor the service tolerates.\<close>

section \<open>Configuration\<close>

definition DeterminismL0 :: string where "DeterminismL0 = ''L0''"
definition DeterminismL1 :: string where "DeterminismL1 = ''L1''"
definition DeterminismRuntimeDefault :: string where "DeterminismRuntimeDefault = ''default''"
definition DeterminismRuntimeGVisor :: string where "DeterminismRuntimeGVisor = ''gvisor''"

definition KnownCategories :: "string list" where
  "KnownCategories = [''clock'', ''rand'', ''dns'', ''network-unmediated'', ''fs-unmediated'']"

fun isKnownCategory_loop :: "string \<Rightarrow> string list \<Rightarrow> bool" where
  "isKnownCategory_loop s [] = False"
| "isKnownCategory_loop s (c # cs) = (if c = s then True else isKnownCategory_loop s cs)"

definition isKnownCategory :: "string \<Rightarrow> bool" where
  "isKnownCategory s = isKnownCategory_loop s KnownCategories"

lemma isKnownCategory_iff: "isKnownCategory s = (s \<in> set KnownCategories)"
proof -
  have "isKnownCategory_loop s cs = (s \<in> set cs)" for cs by (induction cs) auto
  then show ?thesis by (simp add: isKnownCategory_def)
qed

record InterfaceDef =
  Port :: int
  HostPort :: int

record ServiceDef =
  Interfaces :: "InterfaceDef list"
  NondeterministicOK :: "string set"

record Det =
  detLevel :: string
  detRuntime :: string
  detStrict :: bool
  detAllow :: "string set"
  detExplicit :: bool
  detStrictOverride :: "bool option"
  services :: "(string \<times> ServiceDef) list" \<comment> \<open>in the order the map is iterated, names distinct\<close>

definition runtimeSupportsPacketFaults :: "string \<Rightarrow> bool" where
  "runtimeSupportsPacketFaults r = (r = DeterminismRuntimeGVisor)"

definition requirePacketRuntime :: "string \<Rightarrow> Det \<Rightarrow> unit res" where
  "requirePacketRuntime what rt =
    (if runtimeSupportsPacketFaults (detRuntime rt) then Inr ()
     else Inl ((if what \<noteq> [] then what else ''packet faults'') @
       '' require the netstack packet gateway, but this spec runs on runtime='' @ go_quote (detRuntime rt) @
       ''; add determinism(runtime='' @ go_quote DeterminismRuntimeGVisor @ '') at the top of the spec''))"

definition effectiveAllow :: "Det \<Rightarrow> string \<Rightarrow> string set" where
  "effectiveAllow rt svcName =
    detAllow rt \<union> (case map_of (services rt) svcName of None \<Rightarrow> {} | Some svc \<Rightarrow> NondeterministicOK svc)"

text \<open>The values the keyword arguments can have: absent, a boolean, a list of items, something else of
a named type; a list item is a string or a value of some other type.\<close>

datatype kwarg = KNone | KBool bool | KList "(string + string) list" | KOther string

fun kw_type :: "kwarg \<Rightarrow> string" where
  "kw_type KNone = ''NoneType''"
| "kw_type (KBool _) = ''bool''"
| "kw_type (KList _) = ''list''"
| "kw_type (KOther t) = t"

definition known_list :: string where
  "known_list = join '', '' KnownCategories"

fun parse_categories :: "(string \<Rightarrow> string) \<Rightarrow> (string \<Rightarrow> string) \<Rightarrow> (string + string) list \<Rightarrow> string set res" where
  "parse_categories bad_type unknown [] = Inr {}"
| "parse_categories bad_type unknown (Inl t # items) = Inl (bad_type t)"
| "parse_categories bad_type unknown (Inr s # items) =
    (if \<not> isKnownCategory s then Inl (unknown s)
     else case parse_categories bad_type unknown items of
       Inl e \<Rightarrow> Inl e
     | Inr cs \<Rightarrow> Inr (insert s cs))"

definition strict_of :: "kwarg \<Rightarrow> bool res" where
  "strict_of strictV =
    (case strictV of
       KBool b \<Rightarrow> Inr b
     | KNone \<Rightarrow> Inr True
     | _ \<Rightarrow> Inl (''determinism(strict=...): must be a bool, got '' @ kw_type strictV))"

definition allow_of :: "kwarg \<Rightarrow> string set res" where
  "allow_of allowV =
    (case allowV of
       KNone \<Rightarrow> Inr {}
     | KList items \<Rightarrow>
         parse_categories
           (\<lambda>t. ''determinism(allow=...): list items must be strings (categories), got '' @ t)
           (\<lambda>s. ''determinism(allow=...): unknown category '' @ go_quote s @ '' (known: '' @ known_list @ '')'')
           items
     | _ \<Rightarrow> Inl (''determinism(allow=...): must be a list of category strings, got '' @ kw_type allowV))"

text \<open>\<^verbatim>\<open>determinism()\<close> once its arguments are unpacked: \<^term>\<open>npos\<close> positional arguments, the level and
the runtime with their defaults filled in.\<close>

definition builtinDeterminism ::
  "nat \<Rightarrow> string \<Rightarrow> string \<Rightarrow> kwarg \<Rightarrow> kwarg \<Rightarrow> Det \<Rightarrow> Det res" where
  "builtinDeterminism npos level rtName strictV allowV rt =
    (if detExplicit rt then Inl ''determinism(): may only be called once per spec''
     else if npos \<noteq> 0 then Inl ''determinism() takes only keyword arguments''
     else if level \<in> {''L2'', ''L3'', ''L4'', ''L5''} then
       Inl (''determinism(level='' @ go_quote level @ ''): reserved for a future Faultbox release; v0.13.0 supports only L0 and L1 (see RFC-046 for the post-L1 roadmap)'')
     else if level \<notin> {DeterminismL0, DeterminismL1} then
       Inl (''determinism(level='' @ go_quote level @ ''): must be one of L0, L1 (L2..L5 reserved)'')
     else if rtName \<notin> {DeterminismRuntimeDefault, DeterminismRuntimeGVisor} then
       Inl (''determinism(runtime='' @ go_quote rtName @ ''): must be '' @ go_quote DeterminismRuntimeDefault @
         '' or '' @ go_quote DeterminismRuntimeGVisor)
     else if level = DeterminismL0 \<and> strictV \<noteq> KNone then
       Inl ''determinism(strict=...): has no effect at L0 (no violation events exist at L0); remove strict= or change the level to L1''
     else case strict_of strictV of
       Inl e \<Rightarrow> Inl e
     | Inr strictBool \<Rightarrow>
       (case allow_of allowV of
          Inl e \<Rightarrow> Inl e
        | Inr allow \<Rightarrow>
            Inr (rt\<lparr>detLevel := level, detRuntime := rtName, detStrict := strictBool,
                    detAllow := allow, detExplicit := True\<rparr>)))"

definition parseNondeterministicOK :: "string \<Rightarrow> kwarg \<Rightarrow> string set res" where
  "parseNondeterministicOK serviceName v =
    (case v of
       KList items \<Rightarrow>
         parse_categories
           (\<lambda>t. ''service() '' @ go_quote serviceName @ '' nondeterministic_ok items must be strings, got '' @ t)
           (\<lambda>s. ''service() '' @ go_quote serviceName @ '' nondeterministic_ok: unknown category '' @ go_quote s @
                '' (known: '' @ known_list @ '')'')
           items
     | _ \<Rightarrow> Inl (''service() '' @ go_quote serviceName @
              '' nondeterministic_ok must be a list of category strings, got '' @ kw_type v))"

definition strictEffective :: "Det \<Rightarrow> bool" where
  "strictEffective rt =
    (case detStrictOverride rt of
       Some b \<Rightarrow> b
     | None \<Rightarrow> detLevel rt = DeterminismL1 \<and> detStrict rt)"

section \<open>The strict check\<close>

fun firstStrictViolation :: "Det \<Rightarrow> Event list \<Rightarrow> Event option" where
  "firstStrictViolation rt [] = None"
| "firstStrictViolation rt (ev # evs) =
    (if Event.Type ev \<noteq> ''unmediated_io'' then firstStrictViolation rt evs
     else if field ev ''category'' = [] then firstStrictViolation rt evs
     else if field ev ''category'' \<in> effectiveAllow rt (Event.Service ev) then firstStrictViolation rt evs
     else Some ev)"

definition em_dash_utf8 :: string where
  "em_dash_utf8 = [CHR 0xE2, CHR 0x80, CHR 0x94]"

definition strictViolationReason :: "Event \<Rightarrow> string" where
  "strictViolationReason ev =
    join '' ''
      ([''strict determinism: unmediated_io['' @ field ev ''category'' @ ''] from service '' @
         go_quote (Event.Service ev) @ '' (syscall='' @ field ev ''syscall'' @ '', pid='' @ field ev ''pid'' @ '')'']
       @ (if field ev ''detail'' \<noteq> [] then [''dest='' @ field ev ''detail''] else [])
       @ [em_dash_utf8 @ '' add '' @ go_quote (field ev ''category'') @
          '' to determinism(allow=...) or service('' @ go_quote (Event.Service ev) @
          '', nondeterministic_ok=[...]) to tolerate, or fix the underlying I/O leak''])"

section \<open>Detection\<close>

definition isMediatedAddress :: "Det \<Rightarrow> string \<Rightarrow> int \<Rightarrow> bool" where
  "isMediatedAddress rt ip port =
    (if port \<le> 0 then False
     else list_ex (\<lambda>(_, svc). list_ex (\<lambda>i. Port i = port \<or> HostPort i = port) (Interfaces svc)) (services rt))"

definition emitUnmediated ::
  "int \<Rightarrow> string \<Rightarrow> string \<Rightarrow> SyscallEvent \<Rightarrow> string \<Rightarrow> 'cb EventLog \<Rightarrow> 'cb EventLog \<times> Event \<times> 'cb list" where
  "emitUnmediated now svcName category evt detail l =
    Emit now ''unmediated_io'' svcName
      ([''category'' \<mapsto> category, ''syscall'' \<mapsto> EvSyscall evt, ''pid'' \<mapsto> show_nat (EvPID evt)]
       ++ (if detail \<noteq> [] then [''detail'' \<mapsto> detail] else Map.empty)) l"

text \<open>What a \<^verbatim>\<open>connect\<close> is classified as: a category and the destination, or nothing. The proxy manager
is asked with the order its keys are iterated in; None when there is none.\<close>

definition classify_connect ::
  "Det \<Rightarrow> (string list \<times> Manager) option \<Rightarrow> SyscallEvent \<Rightarrow> (string \<times> string) option" where
  "classify_connect rt pm evt =
    (if DestIP evt = [] then None
     else if isMediatedAddress rt (DestIP evt) (DestPort evt) then None
     else if (case pm of None \<Rightarrow> False | Some (ks, m) \<Rightarrow> IsListenPort ks (DestPort evt) m) then None
     else if DestPort evt = 53 then Some (''dns'', DestIP evt @ '':'' @ show_int (DestPort evt))
     else Some (''network-unmediated'', DestIP evt @ '':'' @ show_int (DestPort evt)))"

definition classify ::
  "Det \<Rightarrow> (string list \<times> Manager) option \<Rightarrow> SyscallEvent \<Rightarrow> (string \<times> string) option" where
  "classify rt pm evt =
    (if EvSyscall evt \<notin> {''clock_gettime'', ''getrandom'', ''connect''} then None
     else if detLevel rt \<noteq> DeterminismL1 then None
     else if EvSyscall evt = ''clock_gettime'' then Some (''clock'', [])
     else if EvSyscall evt = ''getrandom'' then Some (''rand'', [])
     else classify_connect rt pm evt)"

definition detectUnmediated ::
  "int \<Rightarrow> Det \<Rightarrow> (string list \<times> Manager) option \<Rightarrow> string \<Rightarrow> SyscallEvent \<Rightarrow> 'cb EventLog \<Rightarrow>
    'cb EventLog \<times> 'cb list" where
  "detectUnmediated now rt pm svcName evt l =
    (case classify rt pm evt of
       None \<Rightarrow> (l, [])
     | Some (category, detail) \<Rightarrow>
         let (l', _, cbs) = emitUnmediated now svcName category evt detail l in (l', cbs))"

section \<open>What the layer promises\<close>

definition det_wf :: "Det \<Rightarrow> bool" where
  "det_wf rt \<longleftrightarrow>
    detLevel rt \<in> {DeterminismL0, DeterminismL1} \<and>
    detRuntime rt \<in> {DeterminismRuntimeDefault, DeterminismRuntimeGVisor} \<and>
    detAllow rt \<subseteq> set KnownCategories"

lemma parse_categories_known:
  "parse_categories f g items = Inr cs \<Longrightarrow> cs \<subseteq> set KnownCategories \<and> cs = {s. Inr s \<in> set items}"
  by (induction f g items arbitrary: cs rule: parse_categories.induct)
    (auto simp: isKnownCategory_iff split: if_splits sum.splits)

text \<open>A configuration that \<^verbatim>\<open>determinism()\<close> accepts is well formed: a supported level and
runtime, an allow set of known categories, and at level L0 the default strictness; and a second call
is refused whatever its arguments are.\<close>

theorem determinism_well_formed:
  assumes "builtinDeterminism npos level rtName strictV allowV rt = Inr rt'"
  shows "det_wf rt' \<and> (detLevel rt' = DeterminismL1 \<or> detStrict rt') \<and>
    isl (builtinDeterminism npos2 level2 rtName2 strictV2 allowV2 rt')"
proof -
  obtain sb allow where c: "level \<in> {DeterminismL0, DeterminismL1}"
    "rtName \<in> {DeterminismRuntimeDefault, DeterminismRuntimeGVisor}"
    "level = DeterminismL0 \<Longrightarrow> strictV = KNone" "strict_of strictV = Inr sb" "allow_of allowV = Inr allow"
    "rt' = rt\<lparr>detLevel := level, detRuntime := rtName, detStrict := sb, detAllow := allow, detExplicit := True\<rparr>"
    using assms unfolding builtinDeterminism_def
    by (simp split: if_split_asm sum.splits)
  have "allow \<subseteq> set KnownCategories"
    using c(5) parse_categories_known unfolding allow_of_def by (auto split: kwarg.splits)
  moreover have "level = DeterminismL1 \<or> sb"
    using c(1,3,4) by (auto simp: strict_of_def)
  ultimately show ?thesis
    using c(1,2,6) by (simp add: det_wf_def builtinDeterminism_def)
qed

definition demo_det :: Det where
  "demo_det = \<lparr>detLevel = ''L1'', detRuntime = ''default'', detStrict = True, detAllow = {},
     detExplicit = False, detStrictOverride = None,
     services = [(''db'', \<lparr>Interfaces = [\<lparr>Port = 5432, HostPort = 0\<rparr>], NondeterministicOK = {''clock''}\<rparr>)]\<rparr>"

theorem determinism_well_formed_witness:
  "\<exists>rt'. builtinDeterminism 0 ''L1'' ''gvisor'' (KBool True) (KList [Inr ''dns'']) demo_det = Inr rt' \<and> det_wf rt'"
proof -
  have "\<exists>rt'. builtinDeterminism 0 ''L1'' ''gvisor'' (KBool True) (KList [Inr ''dns'']) demo_det = Inr rt'"
    by (simp add: builtinDeterminism_def strict_of_def allow_of_def demo_det_def DeterminismL1_def DeterminismL0_def
        DeterminismRuntimeGVisor_def isKnownCategory_iff KnownCategories_def)
  then show ?thesis using determinism_well_formed by blast
qed

text \<open>An unmediated event that the effective allow set does not tolerate.\<close>

definition strict_offence :: "Det \<Rightarrow> Event \<Rightarrow> bool" where
  "strict_offence rt ev \<longleftrightarrow>
    Event.Type ev = ''unmediated_io'' \<and> field ev ''category'' \<noteq> [] \<and>
    field ev ''category'' \<notin> effectiveAllow rt (Event.Service ev)"

lemma firstStrictViolation_find: "firstStrictViolation rt evs = find (strict_offence rt) evs"
  by (induction evs) (auto simp: strict_offence_def)

lemma field_upd: "field ev k = (case Fields ev k of None \<Rightarrow> [] | Some v \<Rightarrow> v)"
  by (simp add: lookup_or_def)

text \<open>The event that detection emits.\<close>

lemma emitUnmediated_event:
  assumes "(l', ev, cbs) = emitUnmediated now svc cat evt detail l"
  shows "Event_Log.events l' = Event_Log.events l @ [ev]"
    and "Event.Type ev = ''unmediated_io''" and "Event.Service ev = svc" and "field ev ''category'' = cat"
  using assms by (auto simp: emitUnmediated_def Emit_def emit_def Let_def lookup_or_def)

lemma detectUnmediated_events:
  "Event_Log.events (fst (detectUnmediated now rt pm svc evt l)) =
    (case classify rt pm evt of
       None \<Rightarrow> Event_Log.events l
     | Some (cat, d) \<Rightarrow> Event_Log.events l @ [fst (snd (emitUnmediated now svc cat evt d l))])"
  using emitUnmediated_event(1) [of _ _ _ now svc _ evt _ l]
  by (auto simp: detectUnmediated_def split: option.splits prod.splits) (metis fst_conv prod.collapse snd_conv)+

lemma classify_category: "classify rt pm evt = Some (cat, d) \<Longrightarrow> cat \<in> set KnownCategories \<and> cat \<noteq> []"
  by (auto simp: classify_def classify_connect_def KnownCategories_def split: if_splits)

text \<open>Detection and the strict check together. On a trace without offence, a syscall of a service
makes the strict check fail exactly when the level is L1, the syscall is a clock reading, a random
draw, or a connection to an address that is neither declared nor a proxy's, and its category is
tolerated by neither the spec nor that service; and the event it names is that syscall's.\<close>

theorem strict_check_detects:
  assumes "firstStrictViolation rt (Event_Log.events l) = None"
  shows "(\<exists>ev. firstStrictViolation rt (Event_Log.events (fst (detectUnmediated now rt pm svc evt l))) = Some ev
      \<and> Event.Service ev = svc) =
    (\<exists>cat d. classify rt pm evt = Some (cat, d) \<and> cat \<notin> effectiveAllow rt svc)"
proof (cases "classify rt pm evt")
  case None
  then show ?thesis using assms by (simp add: detectUnmediated_events)
next
  case (Some cd)
  obtain cat d where cd: "cd = (cat, d)" by (cases cd)
  define ev where "ev = fst (snd (emitUnmediated now svc cat evt d l))"
  have e: "Event.Type ev = ''unmediated_io''" "Event.Service ev = svc" "field ev ''category'' = cat"
    using emitUnmediated_event [of _ ev _ now svc cat evt d l] by (metis ev_def prod.collapse)+
  have "find P (xs @ [y]) = (if P y then Some y else None)" if "find P xs = None" for P xs and y :: Event
    using that by (induction xs) (auto split: if_splits)
  then have "firstStrictViolation rt (Event_Log.events l @ [ev]) = (if strict_offence rt ev then Some ev else None)"
    using assms by (simp add: firstStrictViolation_find)
  moreover have "strict_offence rt ev \<longleftrightarrow> cat \<notin> effectiveAllow rt svc"
    using e classify_category [of rt pm evt cat d] Some cd by (simp add: strict_offence_def)
  ultimately show ?thesis
    using Some cd e(2) by (simp add: detectUnmediated_events ev_def [symmetric])
qed

definition demo_syscall :: "string \<Rightarrow> SyscallEvent" where
  "demo_syscall n = \<lparr>SyscallEvent.Seq = 1, EvService = ''db'', EvSyscall = n, EvPID = 7, EvDecision = DAllow,
     EvPath = [], Latency = 0, EvLabel = [], EvOp = [], DestIP = [], DestPort = 0\<rparr>"

theorem strict_check_detects_witness:
  "(\<exists>ev. firstStrictViolation demo_det (Event_Log.events
      (fst (detectUnmediated 0 demo_det None ''db'' (demo_syscall ''getrandom'') (NewEventLog :: unit EventLog)))) =
        Some ev \<and> Event.Service ev = ''db'') \<and>
   \<not> (\<exists>ev. firstStrictViolation demo_det (Event_Log.events
      (fst (detectUnmediated 0 demo_det None ''db'' (demo_syscall ''clock_gettime'') (NewEventLog :: unit EventLog)))) =
        Some ev \<and> Event.Service ev = ''db'')"
proof -
  have "firstStrictViolation demo_det (Event_Log.events (NewEventLog :: unit EventLog)) = None"
    by (simp add: NewEventLog_def)
  note t = strict_check_detects [OF this]
  show ?thesis
    unfolding t
    by (simp add: classify_def demo_syscall_def demo_det_def effectiveAllow_def DeterminismL1_def)
qed

text \<open>Nothing is reported below level L1.\<close>

lemma no_detection_at_L0: "detLevel rt \<noteq> DeterminismL1 \<Longrightarrow> detectUnmediated now rt pm svc evt l = (l, [])"
  by (simp add: detectUnmediated_def classify_def)

end
