(* ===== verification/Test_Verdict.thy ===== *)
theory Test_Verdict
  imports Temporal Determinism
begin

text \<open>How a test run is judged: the part of \<^verbatim>\<open>RunTest\<close> in \<^verbatim>\<open>internal/star/runtime.go\<close> that follows the
body, from the selection of the termination cause to the returned result. What the services, the
gateway and the monitors reported is input; the order of the checks, the finalisation of the
temporal expectations and the mapping to a result are the code's.

Shown here: what a pass stands for, that a timed-out run is never a pass, that a violated always()
is reported as a failure whatever the scheduler does, that a halted leaf hides no violation, and
that the state of an expectation declared with \<^verbatim>\<open>test(expect=...)\<close> survives into the next leaf.\<close>

section \<open>The termination cause\<close>

datatype Arm = ArmBody | ArmAlways | ArmTerminateWhen | ArmContext

text \<open>The inner select that drains the two signals; when both are ready the runtime picks at random.\<close>

definition drain :: "bool \<Rightarrow> bool \<Rightarrow> bool \<Rightarrow> TerminationCause \<Rightarrow> TerminationCause" where
  "drain alwaysFired twFired pick c =
    (if alwaysFired \<and> (\<not> twFired \<or> pick) then TerminationImmediateFail
     else if twFired then TerminationTerminateWhen
     else c)"

definition select_cause :: "Arm \<Rightarrow> bool \<Rightarrow> bool \<Rightarrow> bool \<Rightarrow> TerminationCause" where
  "select_cause arm alwaysFired twFired pick =
    (case arm of
       ArmBody \<Rightarrow> drain alwaysFired twFired pick TerminationNatural
     | ArmAlways \<Rightarrow> TerminationImmediateFail
     | ArmTerminateWhen \<Rightarrow> TerminationTerminateWhen
     | ArmContext \<Rightarrow> drain alwaysFired twFired pick TerminationTimeout)"

text \<open>How the body ended: a halt with its reason, a Go panic, or a raised error.\<close>

datatype BodyErr = Halt string | Panic string | Raised string

fun err_text :: "BodyErr \<Rightarrow> string" where
  "err_text (Halt r) = (if r = [] then ''halt'' else ''halt: '' @ r)"
| "err_text (Panic m) = m"
| "err_text (Raised m) = m"

definition is_halt :: "BodyErr option \<Rightarrow> bool" where
  "is_halt err = (case err of Some (Halt _) \<Rightarrow> True | _ \<Rightarrow> False)"

definition promote_cause :: "BodyErr option \<Rightarrow> TerminationCause \<Rightarrow> TerminationCause" where
  "promote_cause err cause =
    (if err \<noteq> None \<and> cause = TerminationNatural \<and> \<not> is_halt err then TerminationImmediateFail else cause)"

section \<open>Finalisation\<close>

datatype FinResult = FinFail string | FinPending | FinPass

record 'cb fin_state =
  flog :: "'cb EventLog"
  fexps :: "'cb ExpectationVal list"

definition vacuous_fields :: "string \<Rightarrow> string \<rightharpoonup> string" where
  "vacuous_fields name =
    [''property'' \<mapsto> name,
     ''reason'' \<mapsto> ''between= start anchor never fired; window never opened '' @ em_dash @ '' verify the anchor'']"

text \<open>One expectation: it is finalised; if its window never opened a warning is emitted, on which the
watcher that is still subscribed evaluates every always expectation once more.\<close>

definition fin_one ::
  "int \<Rightarrow> TerminationCause \<Rightarrow> nat \<Rightarrow> 'cb fin_state \<Rightarrow> Verdict \<times> string \<times> 'cb fin_state" where
  "fin_one now cause i s =
    (let (v, msg, x) = exp_Finalize (flog s) cause (fexps s ! i);
         s1 = s\<lparr>fexps := (fexps s)[i := x]\<rparr>;
         s2 = (if exp_vacuous x then
                 (let l = fst (Emit now ''vacuous_property'' ''test'' (vacuous_fields (exp_name x)) (flog s1))
                  in s1\<lparr>flog := l, fexps := snd (always_watch l (fexps s1))\<rparr>)
               else s1)
     in (v, msg, s2))"

fun fin_loop ::
  "int \<Rightarrow> TerminationCause \<Rightarrow> nat list \<Rightarrow> bool \<Rightarrow> 'cb fin_state \<Rightarrow> FinResult \<times> 'cb fin_state" where
  "fin_loop now cause [] anyPending s = (if anyPending then FinPending else FinPass, s)"
| "fin_loop now cause (i # is) anyPending s =
    (let (v, msg, s') = fin_one now cause i s in
     case v of
       VerdictFail \<Rightarrow> (FinFail (exp_name (fexps s ! i) @ '': '' @ msg), s')
     | VerdictPending \<Rightarrow> fin_loop now cause is True s'
     | VerdictPass \<Rightarrow> fin_loop now cause is anyPending s')"

definition finalize_phase :: "int \<Rightarrow> TerminationCause \<Rightarrow> 'cb EventLog \<Rightarrow> 'cb ExpectationVal list \<Rightarrow> FinResult" where
  "finalize_phase now cause l exps =
    fst (fin_loop now cause [0..<length exps] False \<lparr>flog = l, fexps = exps\<rparr>)"

section \<open>The result\<close>

record BypassedRule =
  bp_service :: string
  bp_syscall :: string
  bp_action :: string
  bp_label :: string

record TestResult =
  Result :: string
  Reason :: string
  ResEvents :: "Event list"
  ExpectationName :: string
  ExpectationViolated :: bool
  StrictDeterminismViolation :: bool
  FaultBypassed :: bool
  BypassedRules :: "BypassedRule list"

text \<open>What the rest of the runtime reported by the time the services are stopped.\<close>

record 'cb Run =
  bodyErr :: "BodyErr option"
  runCause :: TerminationCause
  runSupervisorErr :: "string option"
  monErrs :: "string list"
  fsReason :: string
  watchRan :: bool
  whereErr :: "(string \<times> int) option"
  unwired :: int
  attachReason :: string
  det :: Det
  requireFaults :: bool
  expectName :: string
  expectViolated :: bool
  runLog :: "'cb EventLog"
  exps :: "'cb ExpectationVal list"
  elapsed_text :: string

definition result_of :: "string \<Rightarrow> string \<Rightarrow> 'cb Run \<Rightarrow> TestResult" where
  "result_of res reason r = \<lparr>Result = res, Reason = reason, ResEvents = Events (runLog r),
     ExpectationName = expectName r, ExpectationViolated = False, StrictDeterminismViolation = False,
     FaultBypassed = False, BypassedRules = []\<rparr>"

fun bypassed_rules :: "Event list \<Rightarrow> BypassedRule list" where
  "bypassed_rules [] = []"
| "bypassed_rules (ev # evs) =
    (if Event.Type ev \<noteq> ''fault_zero_traffic'' then bypassed_rules evs
     else \<lparr>bp_service = Event.Service ev, bp_syscall = field ev ''syscall'', bp_action = field ev ''action'',
           bp_label = field ev ''label''\<rparr> # bypassed_rules evs)"

definition unwired_reason :: "'cb Run \<Rightarrow> string" where
  "unwired_reason r =
    ''packet faults were installed '' @ show_int (unwired r) @ '' time(s) but no netstack gateway was attached, '' @
    ''so no packet was affected; the result below would be meaningless'' @
    (if attachReason r \<noteq> [] then '' '' @ em_dash @ '' '' @ attachReason r else [])"

definition run_verdict :: "int \<Rightarrow> 'cb Run \<Rightarrow> TestResult" where
  "run_verdict now r =
    (let cause = runCause r; err = bodyErr r; evs = Events (runLog r) in
     case runSupervisorErr r of
       Some e \<Rightarrow>
         (result_of ''error'' e r)\<lparr>ResEvents :=
            Events (fst (Emit now ''supervisor_exited'' [] [''error'' \<mapsto> e] (runLog r))),
            ExpectationName := []\<rparr>
     | None \<Rightarrow>
     if err \<noteq> None \<and> cause \<noteq> TerminationTimeout \<and> cause \<noteq> TerminationTerminateWhen then
       (case the err of
          Halt reason \<Rightarrow>
            if cause = TerminationNatural then
              result_of ''halted'' (if reason \<noteq> [] then ''halt: '' @ reason else ''halt()'') r
            else (result_of ''fail'' (err_text (Halt reason)) r)\<lparr>ExpectationViolated := expectViolated r\<rparr>
        | Panic m \<Rightarrow> (result_of ''error'' m r)\<lparr>ExpectationViolated := expectViolated r\<rparr>
        | Raised m \<Rightarrow> (result_of ''fail'' m r)\<lparr>ExpectationViolated := expectViolated r\<rparr>)
     else if monErrs r \<noteq> [] then result_of ''fail'' (''monitor violation: '' @ hd (monErrs r)) r
     else if fsReason r \<noteq> [] \<and> watchRan r then result_of ''fail'' (fsReason r) r
     else if whereErr r \<noteq> None then
       result_of ''fail'' (''packet fault where= predicate failed '' @ show_int (snd (the (whereErr r))) @
         '' time(s), so it matched nothing and the fault never fired; first failure: '' @
         fst (the (whereErr r))) r
     else if 0 < unwired r then result_of ''fail'' (unwired_reason r) r
     else if strictEffective (det r) \<and> firstStrictViolation (det r) evs \<noteq> None then
       (result_of ''fail'' (strictViolationReason (the (firstStrictViolation (det r) evs))) r)
         \<lparr>StrictDeterminismViolation := True\<rparr>
     else case finalize_phase now cause (runLog r) (exps r) of
       FinFail reason \<Rightarrow> result_of ''fail'' reason r
     | FinPending \<Rightarrow>
         result_of ''inconclusive''
           (''test timeout: temporal expectation(s) still pending after '' @ elapsed_text r) r
     | FinPass \<Rightarrow>
         if cause = TerminationTimeout then
           result_of ''inconclusive'' (''test timeout: body did not complete within '' @ elapsed_text r) r
         else
           (result_of ''pass'' [] r)
             \<lparr>FaultBypassed := (requireFaults r \<and> bypassed_rules evs \<noteq> []),
              BypassedRules := (if requireFaults r then bypassed_rules evs else [])\<rparr>)"

section \<open>What finalisation decides\<close>

lemma always_watch_length [simp]: "length (snd (always_watch l xs)) = length xs"
  by (induction l xs rule: always_watch.induct) (auto split: prod.splits)

lemma always_watch_ev: "j < length xs \<Longrightarrow> (snd (always_watch l xs) ! j = Ev e) = (xs ! j = Ev e)"
proof (induction l xs arbitrary: j rule: always_watch.induct)
  case (2 l e' exps)
  then show ?case by (cases j) (auto split: prod.splits)
next
  case (3 l a exps)
  then show ?case by (cases j) (auto split: prod.splits)
qed simp

lemma al_Evaluate_violated: "violated a \<Longrightarrow> al_Evaluate l a = (VerdictFail, violationMsg a, None, a)"
  by (simp add: al_Evaluate_def)

lemma al_Evaluate_keeps: "violated a \<Longrightarrow> violated (snd (snd (snd (al_Evaluate l a))))"
  by (simp add: al_Evaluate_def)

definition violated_at :: "'cb ExpectationVal list \<Rightarrow> nat \<Rightarrow> bool" where
  "violated_at xs j \<longleftrightarrow> j < length xs \<and> (\<exists>a. xs ! j = Al a \<and> violated a)"

lemma always_watch_violated: "violated_at xs j \<Longrightarrow> violated_at (snd (always_watch l xs)) j"
proof (induction l xs arbitrary: j rule: always_watch.induct)
  case (2 l e exps)
  then show ?case
    using always_watch_length [of l exps]
    by (cases j) (auto simp: violated_at_def simp del: always_watch_length split: prod.splits)
next
  case (3 l a exps)
  show ?case
  proof (cases "fst (al_Evaluate l a) = VerdictFail")
    case True
    then show ?thesis
      using "3.prems" al_Evaluate_keeps [of a l]
      by (cases j) (auto simp: violated_at_def split: prod.splits)
  next
    case False
    then have "\<not> violated a" using al_Evaluate_violated [of a l] by auto
    then obtain k where k: "j = Suc k" "violated_at exps k"
      using "3.prems" by (cases j) (auto simp: violated_at_def)
    obtain v m er a' where ev: "al_Evaluate l a = (v, m, er, a')" by (cases "al_Evaluate l a")
    have "violated_at (snd (always_watch l exps)) k"
      using "3.IH" [OF ev [symmetric] refl refl refl] False ev k(2) by simp
    then show ?thesis
      using False ev k(1) always_watch_length [of l exps]
      by (auto simp: violated_at_def simp del: always_watch_length split: prod.splits)
  qed
qed (simp add: violated_at_def)

lemma fin_one_length [simp]: "length (fexps (snd (snd (fin_one now cause i s)))) = length (fexps s)"
  by (simp add: fin_one_def Let_def split: prod.splits)

lemma fin_one_violated:
  assumes "violated_at (fexps s) j"
  shows "i = j \<Longrightarrow> fst (fin_one now cause i s) = VerdictFail"
    and "i \<noteq> j \<Longrightarrow> violated_at (fexps (snd (snd (fin_one now cause i s)))) j"
proof -
  obtain a where a: "fexps s ! j = Al a" "violated a" "j < length (fexps s)"
    using assms by (auto simp: violated_at_def)
  show "i = j \<Longrightarrow> fst (fin_one now cause i s) = VerdictFail"
    using a by (simp add: fin_one_def al_Finalize_def al_Evaluate_violated Let_def split: prod.splits)
  assume "i \<noteq> j"
  then have "violated_at ((fexps s)[i := x]) j" for x
    using assms by (simp add: violated_at_def)
  then show "violated_at (fexps (snd (snd (fin_one now cause i s)))) j"
    by (auto simp: fin_one_def Let_def always_watch_violated split: prod.splits)
qed

lemma fin_loop_violated:
  "violated_at (fexps s) j \<Longrightarrow> j \<in> set is \<Longrightarrow> \<exists>m. fst (fin_loop now cause is p s) = FinFail m"
proof (induction "is" arbitrary: p s)
  case (Cons i "is")
  show ?case
  proof (cases "i = j")
    case True
    then have "fst (fin_one now cause i s) = VerdictFail"
      using fin_one_violated(1) [OF Cons.prems(1)] by simp
    then show ?thesis by (cases "fin_one now cause i s") simp
  next
    case False
    then have "violated_at (fexps (snd (snd (fin_one now cause i s)))) j" "j \<in> set is"
      using fin_one_violated(2) [OF Cons.prems(1)] Cons.prems(2) by auto
    then show ?thesis
      using Cons.IH by (auto split: prod.splits Verdict.splits)
  qed
qed simp

lemma fin_one_ev:
  assumes "j < length (fexps s)" and "fexps s ! j = Ev e" and "i \<noteq> j"
  shows "fexps (snd (snd (fin_one now cause i s))) ! j = Ev e"
  using assms always_watch_ev [of j "(fexps s)[i := x]" for x]
  by (auto simp: fin_one_def Let_def split: prod.splits)

lemma fin_one_grows: "log_grows (flog s) (flog (snd (snd (fin_one now cause i s))))"
  using trace_log.grows_refl log_grows_emit
  by (auto simp: fin_one_def Let_def Emit_def split: prod.splits)

lemma fin_one_ev_pass:
  assumes "j < length (fexps s)" and "fexps s ! j = Ev e" and "fst (fin_one now cause j s) = VerdictPass"
  shows "satisfied e \<or> epredicate e (flog s) = Inr True"
proof -
  have "fst (ev_Finalize (flog s) cause e) = VerdictPass"
    using assms by (auto simp: fin_one_def Let_def split: prod.splits)
  then show ?thesis
    by (auto simp: ev_Finalize_def ev_Evaluate_cases
        split: if_splits sum.splits bool.splits TerminationCause.splits)
qed

lemma fin_loop_pass_ev:
  assumes "fst (fin_loop now cause is p s) = FinPass" and "j \<in> set is" and "distinct is"
    and "j < length (fexps s)" and "fexps s ! j = Ev e"
  shows "satisfied e \<or> (\<exists>l. log_grows (flog s) l \<and> epredicate e l = Inr True)"
  using assms
proof (induction "is" arbitrary: p s)
  case (Cons i "is")
  obtain v m s' where one: "fin_one now cause i s = (v, m, s')" by (cases "fin_one now cause i s")
  have pending: "fst (fin_loop now cause xs True t) \<noteq> FinPass" for xs and t :: "'a fin_state"
    by (induction xs arbitrary: t) (auto split: prod.splits Verdict.splits)
  have v: "v = VerdictPass"
    using Cons.prems(1) one pending by (auto split: Verdict.splits)
  show ?case
  proof (cases "i = j")
    case True
    then show ?thesis
      using fin_one_ev_pass [of j s e now cause] Cons.prems one v trace_log.grows_refl by auto
  next
    case False
    have "fexps s' ! j = Ev e" "j < length (fexps s')"
      using fin_one_ev [OF Cons.prems(4,5) False, of now cause] fin_one_length [of now cause i s] one Cons.prems(4)
      by simp_all
    moreover have "log_grows (flog s) (flog s')"
      using fin_one_grows [of s now cause i] one by simp
    ultimately show ?thesis
      using Cons.IH [of p s'] Cons.prems one v False trace_log.grows_trans by auto
  qed
qed simp

lemma fin_loop_pending:
  "fst (fin_loop now cause is p s) = FinPending \<Longrightarrow> p \<or> cause = TerminationTimeout"
proof (induction "is" arbitrary: p s)
  case (Cons i "is")
  have "cause = TerminationTimeout" if "fst (fin_one now cause i s) = VerdictPending"
    using that pending_only_on_timeout by (auto simp: fin_one_def Let_def split: prod.splits)
  then show ?case
    using Cons by (auto split: prod.splits Verdict.splits)
qed (simp split: if_splits)

section \<open>What a result stands for\<close>

lemma finalize_phase_pass:
  assumes "finalize_phase now cause l xs = FinPass"
  shows "Al a \<in> set xs \<Longrightarrow> \<not> violated a"
    and "Ev e \<in> set xs \<Longrightarrow> satisfied e \<or> (\<exists>l'. log_grows l l' \<and> epredicate e l' = Inr True)"
proof -
  let ?s = "\<lparr>flog = l, fexps = xs\<rparr>"
  have p: "fst (fin_loop now cause [0..<length xs] False ?s) = FinPass"
    using assms by (simp add: finalize_phase_def)
  show "\<not> violated a" if al: "Al a \<in> set xs"
  proof
    assume "violated a"
    moreover obtain j where "j < length xs" "xs ! j = Al a" using al by (auto simp: in_set_conv_nth)
    ultimately have "violated_at xs j" "j < length xs" by (auto simp: violated_at_def)
    then show False using fin_loop_violated [of ?s j "[0..<length xs]" now cause False] p by auto
  qed
  show "satisfied e \<or> (\<exists>l'. log_grows l l' \<and> epredicate e l' = Inr True)" if ev: "Ev e \<in> set xs"
  proof -
    obtain j where "j < length xs" "xs ! j = Ev e" using ev by (auto simp: in_set_conv_nth)
    then show ?thesis using fin_loop_pass_ev [OF p, of j e] by simp
  qed
qed

lemma finalize_phase_violated:
  assumes "Al a \<in> set xs" and "violated a"
  shows "\<exists>m. finalize_phase now cause l xs = FinFail m"
proof -
  obtain j where j: "j < length xs" "xs ! j = Al a" using assms(1) by (auto simp: in_set_conv_nth)
  then have "violated_at xs j" "j < length xs" using assms(2) by (auto simp: violated_at_def)
  then show ?thesis
    using fin_loop_violated [of "\<lparr>flog = l, fexps = xs\<rparr>" j "[0..<length xs]" now cause False]
    by (simp add: finalize_phase_def)
qed

lemma finalize_phase_pending: "finalize_phase now cause l xs = FinPending \<Longrightarrow> cause = TerminationTimeout"
  using fin_loop_pending [of now cause "[0..<length xs]" False] by (auto simp: finalize_phase_def)

lemma result_of_Result [simp]: "Result (result_of res reason r) = res"
  by (simp add: result_of_def)

lemmas verdict_splits = option.splits BodyErr.splits FinResult.splits if_splits

lemma run_verdict_pass:
  assumes "Result (run_verdict now r) = ''pass''"
  shows "runSupervisorErr r = None" and "bodyErr r = None \<or> runCause r = TerminationTerminateWhen"
    and "runCause r \<noteq> TerminationTimeout" and "monErrs r = []" and "whereErr r = None" and "unwired r \<le> 0"
    and "strictEffective (det r) \<Longrightarrow> firstStrictViolation (det r) (Events (runLog r)) = None"
    and "finalize_phase now (runCause r) (runLog r) (exps r) = FinPass"
proof -
  note passed = assms [unfolded run_verdict_def Let_def]
  show "runSupervisorErr r = None"
    using passed by (cases "whereErr r"; simp split: verdict_splits)
  show "bodyErr r = None \<or> runCause r = TerminationTerminateWhen"
    using passed by (cases "whereErr r"; simp split: verdict_splits)
  show "runCause r \<noteq> TerminationTimeout"
    using passed by (cases "whereErr r"; simp split: verdict_splits)
  show "monErrs r = []"
    using passed by (cases "whereErr r"; simp split: verdict_splits)
  show "whereErr r = None"
    using passed by (cases "whereErr r"; simp split: verdict_splits)
  show "unwired r \<le> 0"
    using passed by (cases "whereErr r"; simp split: verdict_splits)
  show "strictEffective (det r) \<Longrightarrow> firstStrictViolation (det r) (Events (runLog r)) = None"
    using passed by (cases "whereErr r"; simp split: verdict_splits)
  show "finalize_phase now (runCause r) (runLog r) (exps r) = FinPass"
    using passed by (cases "whereErr r"; simp split: verdict_splits)
qed


definition demo_run :: "unit Run" where
  "demo_run = \<lparr>bodyErr = None, runCause = TerminationNatural, runSupervisorErr = None, monErrs = [],
     fsReason = [], watchRan = False, whereErr = None, unwired = 0, attachReason = [], det = demo_det,
     requireFaults = False, expectName = [], expectViolated = False, runLog = demo_trace [''charge''],
     exps = [Ev (new_eventually ''p'' (\<lambda>l. Inr (Event_Log.Len l = 1)) None)], elapsed_text = ''1s''\<rparr>"

lemma demo_run_pass: "Result (run_verdict 0 demo_run) = ''pass''"
proof -
  have len: "length (Event_Log.events (demo_trace [''charge''])) = 1"
    using arg_cong [OF demo_trace_types [of "[''charge'']"], of length] by simp
  have "map Event.Type (Event_Log.events (demo_trace [''charge''])) = [''charge'']" by (rule demo_trace_types)
  then have "firstStrictViolation demo_det (Events (demo_trace [''charge''])) = None"
    by (auto simp: firstStrictViolation_find find_None_iff strict_offence_def Events_def)
  then show ?thesis
    using len
    by (simp add: run_verdict_def demo_run_def finalize_phase_def fin_one_def new_eventually_def
        ev_Finalize_def ev_Evaluate_def Event_Log.Len_def)
qed


text \<open>A run that is inconclusive was timed out, and a timed-out run is inconclusive, a failure or an
error, never a pass and never a pruned leaf.\<close>

theorem timeout_never_passes:
  "(Result (run_verdict now r) = ''inconclusive'' \<longrightarrow> runCause r = TerminationTimeout) \<and>
   (runCause r = TerminationTimeout \<longrightarrow> Result (run_verdict now r) \<in> {''inconclusive'', ''fail'', ''error''})"
proof (intro conjI impI)
  show "runCause r = TerminationTimeout" if "Result (run_verdict now r) = ''inconclusive''"
    using that finalize_phase_pending [of now "runCause r" "runLog r" "exps r"]
    unfolding run_verdict_def Let_def by (simp split: verdict_splits)
  show "Result (run_verdict now r) \<in> {''inconclusive'', ''fail'', ''error''}" if "runCause r = TerminationTimeout"
    using that unfolding run_verdict_def Let_def by (simp split: option.split FinResult.split)
qed

theorem timeout_never_passes_witness:
  "Result (run_verdict 0 (demo_run\<lparr>runCause := TerminationTimeout\<rparr>)) \<in> {''inconclusive'', ''fail'', ''error''}"
  using timeout_never_passes [of 0 "demo_run\<lparr>runCause := TerminationTimeout\<rparr>"] by simp

text \<open>A violated always() is never lost. Whenever one is violated and the watcher has said so,
the run is reported as a failure or an error, whichever select arm the scheduler takes, whichever of
two ready signals it picks, and however the body ends, be it with a halt.\<close>

theorem violation_is_reported:
  assumes "Al a \<in> set (exps r)" and "violated a"
    and "runCause r = promote_cause (bodyErr r) (select_cause arm True twFired pick)"
  shows "Result (run_verdict now r) \<in> {''fail'', ''error''}"
proof -
  have "runCause r \<noteq> TerminationNatural"
    using assms(3) by (auto simp: promote_cause_def select_cause_def drain_def split: Arm.splits if_splits)
  moreover have "finalize_phase now c (runLog r) (exps r) \<noteq> FinPass"
    "finalize_phase now c (runLog r) (exps r) \<noteq> FinPending" for c
    using finalize_phase_violated [OF assms(1,2), of now c "runLog r"] by auto
  ultimately show ?thesis
    unfolding run_verdict_def Let_def by (simp split: option.split BodyErr.split FinResult.split)
qed

definition demo_violated :: "unit AlwaysExpectation" where
  "demo_violated = (new_always ''p'' (\<lambda>l. Inr False) no_anchor no_anchor)\<lparr>violated := True\<rparr>"

theorem violation_is_reported_witness:
  "Result (run_verdict 0 (demo_run\<lparr>bodyErr := Some (Halt []), exps := [Al demo_violated],
      runCause := TerminationTerminateWhen\<rparr>)) \<in> {''fail'', ''error''}"
  by (rule violation_is_reported [of demo_violated _ ArmBody True False])
    (simp_all add: demo_violated_def promote_cause_def select_cause_def drain_def)

text \<open>The expectation given with \<^verbatim>\<open>test(expect=...)\<close> is one object for all the leaves of a test, and
nothing resets it: satisfied in one leaf it passes in every later one, whatever its predicate says
there.\<close>

lemma satisfied_survives_leaf:
  assumes "satisfied e" and "exps r = [Ev e]" and "runCause r = TerminationNatural" and "bodyErr r = None"
    and "runSupervisorErr r = None" and "monErrs r = []" and "fsReason r = []" and "whereErr r = None"
    and "unwired r = 0" and "\<not> strictEffective (det r)"
  shows "Result (run_verdict now r) = ''pass''"
  using assms
  by (simp add: run_verdict_def finalize_phase_def fin_one_def ev_Finalize_def ev_Evaluate_def Let_def)

end
