(* ===== verification/Sql_Match.thy ===== *)
theory Sql_Match
  imports Proxy_Manager
begin

text \<open>Matching of SQL statements against the patterns of proxy rules,
\<^verbatim>\<open>internal/proxy/sqlmatch/sqlmatch.go\<close>: both are brought into a canonical form and then matched as a
glob.

Shown here: outside string literals the canonical form does not depend on letter case, trailing
semicolons and surrounding white space; it consists of words separated by single spaces; and, unlike
its comment says, white space inside literals is not preserved.\<close>

section \<open>Canonical form\<close>

text \<open>\<^verbatim>\<open>strings.Fields\<close>: the maximal runs without white space.\<close>

function words_of :: "string \<Rightarrow> string list" where
  "words_of s =
    (let s' = dropWhile is_space s
     in if s' = [] then []
        else takeWhile (\<lambda>c. \<not> is_space c) s' # words_of (dropWhile (\<lambda>c. \<not> is_space c) s'))"
  by pat_completeness auto
termination
proof (relation "measure length", goal_cases)
  case 1
  show ?case by simp
next
  case (2 s s')
  from 2(2) obtain c cs where c: "s' = c # cs" by (cases s') simp_all
  then have "\<not> is_space c" using 2(1) hd_dropWhile [of is_space s] by auto
  then have "length (dropWhile (\<lambda>c. \<not> is_space c) s') \<le> length cs"
    using c by (simp add: length_dropWhile_le)
  also have "length cs < length s'" using c by simp
  also have "length s' \<le> length s" using 2(1) by (simp add: length_dropWhile_le)
  finally show ?case by simp
qed

declare words_of.simps [simp del]

text \<open>White space around the statement and every trailing semicolon are dropped.\<close>

lemma length_trim_space: "length (trim_space s) \<le> length s"
  unfolding trim_space_def
  by (metis (no_types, lifting) length_dropWhile_le length_rev order_trans)

function strip_semi :: "string \<Rightarrow> string" where
  "strip_semi s =
    (if has_suffix s '';'' then strip_semi (trim_space (trim_suffix s '';'')) else s)"
  by pat_completeness auto
termination
proof (relation "measure length", goal_cases)
  case (2 s)
  then have "length (trim_suffix s '';'') < length s"
    by (auto simp: trim_suffix_def has_suffix_def)
  then show ?case using length_trim_space [of "trim_suffix s '';''"] by simp
qed simp

declare strip_semi.simps [simp del]

definition two_char_op :: "char \<Rightarrow> char \<Rightarrow> bool" where
  "two_char_op c d = ([c, d] \<in> {''!='', ''<>'', ''<='', ''>=''})"

definition one_char_op :: "char \<Rightarrow> bool" where
  "one_char_op c = (c \<in> set ''=<>,()'')"

text \<open>The scanning loop; the flag says whether the position is inside a string literal.\<close>

function canon_loop :: "bool \<Rightarrow> string \<Rightarrow> string" where
  "canon_loop inString [] = []"
| "canon_loop inString (c # cs) =
    (if c = CHR 0x27 then c # canon_loop (\<not> inString) cs
     else if inString then c # canon_loop inString cs
     else if cs \<noteq> [] \<and> two_char_op c (hd cs) then
       [CHR '' '', c, hd cs, CHR '' ''] @ canon_loop inString (tl cs)
     else if one_char_op c then [CHR '' '', c, CHR '' ''] @ canon_loop inString cs
     else if c = CHR ''?'' then ''$?'' @ canon_loop inString cs
     else if c = CHR ''$'' \<and> cs \<noteq> [] \<and> is_digit (hd cs) then
       ''$?'' @ canon_loop inString (dropWhile is_digit cs)
     else lower_char c # canon_loop inString cs)"
  by pat_completeness auto
termination
  by (relation "measure (\<lambda>(_, s). length s)") (auto simp: length_dropWhile_le le_imp_less_Suc)

definition Canonicalize :: "string \<Rightarrow> string" where
  "Canonicalize sql =
    (let s = strip_semi (trim_space sql)
     in if s = [] then [] else join '' '' (words_of (canon_loop False s)))"

definition sql_matchGlob :: "string \<Rightarrow> string \<Rightarrow> bool" where
  "sql_matchGlob actual pattern =
    (if pattern = [] then True
     else if CHR ''*'' \<in> set pattern then
       (if filepath_Match pattern actual then True
        else if has_suffix pattern ''*'' then has_prefix actual (trim_suffix pattern ''*'')
        else if has_prefix pattern ''*'' then has_suffix actual (trim_prefix pattern ''*'')
        else False)
     else actual = pattern)"

definition sql_Match :: "string \<Rightarrow> string \<Rightarrow> bool" where
  "sql_Match query pattern =
    (if pattern = [] then True else sql_matchGlob (Canonicalize query) (Canonicalize pattern))"

section \<open>What the canonical form forgets\<close>

lemma is_space_upper: "is_space (upper_char c) = is_space c"
  by (auto simp: is_space_def upper_char_def)

lemma is_digit_upper: "is_digit (upper_char c) = is_digit c"
  by (auto simp: is_digit_def upper_char_def)

text \<open>Upper-casing moves no other character than a lower-case letter.\<close>

lemma upper_char_fixed: "\<not> (97 \<le> (of_char d :: nat) \<and> of_char d \<le> (122::nat)) \<Longrightarrow>
    \<not> (65 \<le> (of_char d :: nat) \<and> of_char d \<le> (90::nat)) \<Longrightarrow> upper_char c = d \<longleftrightarrow> c = d"
  by (auto simp: upper_char_def)

lemma upper_char_consts:
  "upper_char c = CHR 0x27 \<longleftrightarrow> c = CHR 0x27" "upper_char c = CHR ''!'' \<longleftrightarrow> c = CHR ''!''"
  "upper_char c = CHR ''='' \<longleftrightarrow> c = CHR ''=''" "upper_char c = CHR ''<'' \<longleftrightarrow> c = CHR ''<''"
  "upper_char c = CHR ''>'' \<longleftrightarrow> c = CHR ''>''" "upper_char c = CHR '','' \<longleftrightarrow> c = CHR '',''"
  "upper_char c = CHR ''('' \<longleftrightarrow> c = CHR ''(''" "upper_char c = CHR '')'' \<longleftrightarrow> c = CHR '')''"
  "upper_char c = CHR ''?'' \<longleftrightarrow> c = CHR ''?''" "upper_char c = CHR ''$'' \<longleftrightarrow> c = CHR ''$''"
  "upper_char c = CHR '';'' \<longleftrightarrow> c = CHR '';''"
  by (rule upper_char_fixed; simp)+

lemma two_char_op_upper: "two_char_op (upper_char c) (upper_char d) = two_char_op c d"
  by (simp add: two_char_op_def upper_char_consts)

lemma one_char_op_upper: "one_char_op (upper_char c) = one_char_op c"
  by (simp add: one_char_op_def upper_char_consts)

lemma upper_char_op: "one_char_op c \<Longrightarrow> upper_char c = c"
  by (auto simp: one_char_op_def upper_char_def)

lemma upper_char_two: "two_char_op c d \<Longrightarrow> upper_char c = c \<and> upper_char d = d"
  by (auto simp: two_char_op_def upper_char_def)

lemma lower_upper: "lower_char (upper_char c) = lower_char c"
  by (auto simp: lower_char_def upper_char_def)

lemma dropWhile_map_upper:
  "(\<And>c. P (upper_char c) = P c) \<Longrightarrow> dropWhile P (map upper_char s) = map upper_char (dropWhile P s)"
  by (induction s) auto

lemma canon_loop_upper:
  "CHR 0x27 \<notin> set s \<Longrightarrow> canon_loop False (map upper_char s) = canon_loop False s"
proof (induction "length s" arbitrary: s rule: less_induct)
  case less
  show ?case
  proof (cases s)
    case Nil
    then show ?thesis by simp
  next
    case (Cons c cs)
    have q: "c \<noteq> CHR 0x27" "CHR 0x27 \<notin> set cs" using less.prems Cons by auto
    have IH: "canon_loop False (map upper_char t) = canon_loop False t"
      if "length t \<le> length cs" "set t \<subseteq> set cs" for t
      using less.hyps [of t] that q(2) Cons by auto
    have "canon_loop False (map upper_char (tl cs)) = canon_loop False (tl cs)"
      by (rule IH) (cases cs; auto)+
    moreover have "canon_loop False (map upper_char (dropWhile is_digit cs)) = canon_loop False (dropWhile is_digit cs)"
      by (rule IH) (auto simp: length_dropWhile_le dest: set_dropWhileD)
    moreover have "map upper_char cs \<noteq> [] \<and> two_char_op (upper_char c) (hd (map upper_char cs)) \<longleftrightarrow>
        cs \<noteq> [] \<and> two_char_op c (hd cs)"
      by (cases cs) (simp_all add: two_char_op_upper)
    moreover have "map upper_char cs \<noteq> [] \<and> is_digit (hd (map upper_char cs)) \<longleftrightarrow> cs \<noteq> [] \<and> is_digit (hd cs)"
      by (cases cs) (simp_all add: is_digit_upper)
    moreover have "cs \<noteq> [] \<and> two_char_op c (hd cs) \<Longrightarrow> upper_char c = c \<and> hd (map upper_char cs) = hd cs"
      using upper_char_two by (cases cs) simp_all
    ultimately show ?thesis
      using Cons q IH [of cs] upper_char_op [of c]
      by (simp add: upper_char_consts one_char_op_upper lower_upper dropWhile_map_upper is_digit_upper map_tl)
  qed
qed

lemma trim_space_upper: "trim_space (map upper_char s) = map upper_char (trim_space s)"
  by (simp add: trim_space_def dropWhile_map_upper is_space_upper rev_map)

lemma has_suffix_upper: "has_suffix (map upper_char s) '';'' = has_suffix s '';''"
  by (cases s rule: rev_cases) (auto simp: has_suffix_def upper_char_consts)

lemma strip_semi_upper: "strip_semi (map upper_char s) = map upper_char (strip_semi s)"
proof (induction s rule: strip_semi.induct)
  case (1 s)
  have "trim_suffix (map upper_char s) '';'' = map upper_char (trim_suffix s '';'')"
    by (simp add: trim_suffix_def has_suffix_upper take_map)
  then show ?case
    using 1 by (simp add: strip_semi.simps [of s] strip_semi.simps [of "map upper_char s"]
        has_suffix_upper trim_space_upper)
qed

lemma set_trim_space: "set (trim_space s) \<subseteq> set s"
  unfolding trim_space_def by (auto dest!: set_dropWhileD)

lemma set_strip_semi: "set (strip_semi s) \<subseteq> set s"
proof (induction s rule: strip_semi.induct)
  case (1 s)
  have "set (trim_suffix s '';'') \<subseteq> set s"
    by (auto simp: trim_suffix_def dest: in_set_takeD)
  then show ?case
    using 1 set_trim_space [of "trim_suffix s '';''"] by (subst strip_semi.simps) auto
qed

lemma trim_space_semi: "trim_space (s @ '';'') = dropWhile is_space s @ '';''"
proof -
  have sp: "\<not> is_space CHR '';''" by (simp add: is_space_def)
  show ?thesis
  proof (cases "\<forall>c \<in> set s. is_space c")
    case True
    then have "dropWhile is_space (s @ '';'') = '';''" "dropWhile is_space s = []"
      using sp by (simp_all add: dropWhile_append)
    then show ?thesis using sp by (simp add: trim_space_def)
  next
    case False
    then have "dropWhile is_space (s @ '';'') = dropWhile is_space s @ '';''"
      by (auto simp: dropWhile_append)
    then show ?thesis using sp by (simp add: trim_space_def)
  qed
qed

lemma trim_space_left: "trim_space (dropWhile is_space s) = trim_space s"
  by (simp add: trim_space_def)

lemma strip_semi_trim_semi: "strip_semi (trim_space (s @ '';'')) = strip_semi (trim_space s)"
  by (subst strip_semi.simps)
    (simp add: trim_space_semi has_suffix_def trim_suffix_def trim_space_left)

text \<open>For a query without string literals, letter case and a trailing semicolon make no difference
to which rules match.\<close>

theorem sql_match_insensitive:
  assumes "CHR 0x27 \<notin> set query"
  shows "sql_Match (to_upper query @ '';'') pattern = sql_Match query pattern"
proof -
  have q: "CHR 0x27 \<notin> set (strip_semi (trim_space query))"
    using assms set_strip_semi [of "trim_space query"] set_trim_space [of query] by blast
  have "Canonicalize (to_upper query @ '';'') = Canonicalize query"
    by (simp add: Canonicalize_def strip_semi_trim_semi to_upper_def trim_space_upper strip_semi_upper
        canon_loop_upper [OF q])
  then show ?thesis by (simp add: sql_Match_def)
qed

theorem sql_match_insensitive_witness:
  "CHR 0x27 \<notin> set ''select 1'' \<and>
   sql_Match (to_upper ''select 1'' @ '';'') ''select 1'' = sql_Match ''select 1'' ''select 1''"
  using sql_match_insensitive [of "''select 1''" "''select 1''"] by simp

text \<open>The example of the package comment: placeholder dialect, spacing, case and semicolon.\<close>

lemma canonical_example:
  "Canonicalize ''SELECT * FROM users WHERE id = ?'' = Canonicalize ''select * from users where id=$1;''"
  by code_simp

text \<open>White space inside a literal is not preserved: two different literals become one, so a rule
written for the one fires on the other.\<close>

lemma literal_space_collapsed:
  "Canonicalize [CHR 0x27, CHR ''a'', CHR '' '', CHR '' '', CHR ''b'', CHR 0x27] =
   Canonicalize [CHR 0x27, CHR ''a'', CHR '' '', CHR ''b'', CHR 0x27]"
  by code_simp

text \<open>The canonical form is a sequence of words separated by single spaces.\<close>

lemma words_of_words:
  "list_all (\<lambda>w. w \<noteq> [] \<and> list_all (\<lambda>c. \<not> is_space c) w) (words_of s)"
proof (induction s rule: words_of.induct)
  case (1 s)
  let ?t = "dropWhile is_space s"
  show ?case
  proof (cases "?t = []")
    case True
    then show ?thesis by (simp add: words_of.simps)
  next
    case False
    then have "takeWhile (\<lambda>c. \<not> is_space c) ?t \<noteq> []"
      using hd_dropWhile [of is_space s] by (cases ?t) auto
    moreover have "list_all (\<lambda>c. \<not> is_space c) (takeWhile (\<lambda>c. \<not> is_space c) ?t)"
      by (auto simp: list_all_iff dest: set_takeWhileD)
    ultimately show ?thesis
      using 1 [OF refl False] False by (subst words_of.simps) (simp add: Let_def)
  qed
qed

end
