(* ===== verification/Vacuity.thy ===== *)
theory Vacuity
  imports Go_Prelude
begin

text \<open>Detection of suites that would not notice a broken client, \<^verbatim>\<open>internal/star/vacuity.go\<close>: counters
of assertions per test, the interfaces a step was run against, and the interfaces for which a passing
and asserting test saw a step succeed.

Shown here: the diagnostic names, in a fixed order, exactly the interfaces that were used but never
had a positive control, where the latter is stated on the sequence of calls.\<close>

section \<open>State and operations\<close>

datatype ifaceRef = IfaceRef (ref_service: string) (ref_interface: string)

text \<open>The order the result is sorted in: by service, then by interface.\<close>

instantiation ifaceRef :: linorder
begin

definition less_eq_ifaceRef :: "ifaceRef \<Rightarrow> ifaceRef \<Rightarrow> bool" where
  "less_eq_ifaceRef a b \<longleftrightarrow>
    ref_service a < ref_service b \<or> ref_service a = ref_service b \<and> ref_interface a \<le> ref_interface b"

definition less_ifaceRef :: "ifaceRef \<Rightarrow> ifaceRef \<Rightarrow> bool" where
  "less_ifaceRef a b \<longleftrightarrow>
    (if ref_service a \<noteq> ref_service b then ref_service a < ref_service b
     else ref_interface a < ref_interface b)"

instance
proof
  fix x y z :: ifaceRef
  show "(x < y) = (x \<le> y \<and> \<not> y \<le> x)"
    by (auto simp: less_eq_ifaceRef_def less_ifaceRef_def)
  show "x \<le> x" by (simp add: less_eq_ifaceRef_def)
  show "x \<le> y \<Longrightarrow> y \<le> z \<Longrightarrow> x \<le> z" by (auto simp: less_eq_ifaceRef_def)
  show "x \<le> y \<Longrightarrow> y \<le> x \<Longrightarrow> x = y" by (cases x; cases y) (auto simp: less_eq_ifaceRef_def)
  show "x \<le> y \<or> y \<le> x" by (auto simp: less_eq_ifaceRef_def)
qed

end

definition ref_String :: "ifaceRef \<Rightarrow> string" where
  "ref_String r = ref_service r @ ''.'' @ ref_interface r"

record vacuityState =
  assertions :: "string \<rightharpoonup> nat"
  stepped :: "ifaceRef set"
  candidates :: "ifaceRef set"
  positiveControl :: "ifaceRef set"

definition newVacuityState :: vacuityState where
  "newVacuityState = \<lparr>assertions = Map.empty, stepped = {}, candidates = {}, positiveControl = {}\<rparr>"

definition noteAssertion :: "string \<Rightarrow> vacuityState \<Rightarrow> vacuityState" where
  "noteAssertion test v =
    (if test = [] then v
     else v\<lparr>assertions := (assertions v)(test \<mapsto> lookup_or 0 (assertions v) test + 1)\<rparr>)"

definition assertionCount :: "string \<Rightarrow> vacuityState \<Rightarrow> nat" where
  "assertionCount test v = lookup_or 0 (assertions v) test"

definition noteStep :: "string \<Rightarrow> string \<Rightarrow> bool \<Rightarrow> vacuityState \<Rightarrow> vacuityState" where
  "noteStep svc iface success v =
    (if svc = [] then v
     else
       let r = IfaceRef svc iface; v' = v\<lparr>stepped := insert r (stepped v)\<rparr>
       in if success then v'\<lparr>candidates := insert r (candidates v')\<rparr> else v')"

definition endTest :: "string \<Rightarrow> string \<Rightarrow> vacuityState \<Rightarrow> vacuityState" where
  "endTest test result v =
    (let confirming = (result = ''pass'' \<and> 0 < lookup_or 0 (assertions v) test)
     in v\<lparr>positiveControl := (if confirming then positiveControl v \<union> candidates v else positiveControl v),
          candidates := {}\<rparr>)"

text \<open>The collecting loop over the stepped interfaces, \<^term>\<open>order\<close> being the order the map yields them
in, and the sort.\<close>

definition missingPositiveControl :: "ifaceRef list \<Rightarrow> vacuityState \<Rightarrow> ifaceRef list" where
  "missingPositiveControl order v = sort (filter (\<lambda>r. r \<notin> positiveControl v) order)"

record Diagnostic =
  Level :: string
  Code :: string
  Message :: string
  Suggestion :: string
  DService :: string

definition suiteDiagnostics :: "ifaceRef list \<Rightarrow> vacuityState \<Rightarrow> Diagnostic list" where
  "suiteDiagnostics order v =
    map (\<lambda>r. \<lparr>Level = ''warning'', Code = ''NO_POSITIVE_CONTROL'',
        Message = ''no test asserts that a step on '' @ [CHR 0x27] @ ref_String r @ [CHR 0x27] @ '' succeeds'',
        Suggestion = ''Every assertion about '' @ [CHR 0x27] @ ref_String r @ [CHR 0x27] @
          '' in this suite is satisfied by a client that cannot connect at all, so the suite would not fail if it broke. Add one test that runs a step against '' @
          [CHR 0x27] @ ref_String r @ [CHR 0x27] @ '' with no fault injected and asserts r.ok is True.'',
        DService = ref_service r\<rparr>)
      (missingPositiveControl order v)"

section \<open>The sequence of calls\<close>

datatype vac_op = Assertion string | Step string string bool | End_test string string

fun vac_step :: "vac_op \<Rightarrow> vacuityState \<Rightarrow> vacuityState" where
  "vac_step (Assertion t) = noteAssertion t"
| "vac_step (Step s i ok) = noteStep s i ok"
| "vac_step (End_test t res) = endTest t res"

definition run_suite :: "vac_op list \<Rightarrow> vacuityState" where
  "run_suite ops = fold vac_step ops newVacuityState"

text \<open>The calls since the last test ended.\<close>

definition current_test :: "vac_op list \<Rightarrow> vac_op list" where
  "current_test ops = rev (takeWhile (\<lambda>op. case op of End_test _ _ \<Rightarrow> False | _ \<Rightarrow> True) (rev ops))"

text \<open>Reference: a passing test that asserted something saw a step on the interface succeed.\<close>

definition has_control :: "vac_op list \<Rightarrow> ifaceRef \<Rightarrow> bool" where
  "has_control ops r \<longleftrightarrow>
    (\<exists>pre t post. ops = pre @ End_test t ''pass'' # post \<and> t \<noteq> [] \<and> Assertion t \<in> set pre \<and>
       Step (ref_service r) (ref_interface r) True \<in> set (current_test pre) \<and> ref_service r \<noteq> [])"

definition used :: "vac_op list \<Rightarrow> ifaceRef \<Rightarrow> bool" where
  "used ops r \<longleftrightarrow> ref_service r \<noteq> [] \<and> (\<exists>ok. Step (ref_service r) (ref_interface r) ok \<in> set ops)"

lemma run_suite_snoc: "run_suite (ops @ [op]) = vac_step op (run_suite ops)"
  by (simp add: run_suite_def)

lemma assertions_run: "(0 < lookup_or 0 (assertions (run_suite ops)) t) = (t \<noteq> [] \<and> Assertion t \<in> set ops)"
proof (induction ops rule: rev_induct)
  case Nil
  show ?case by (simp add: run_suite_def newVacuityState_def)
next
  case (snoc op ops)
  then show ?case
    by (cases op) (auto simp: run_suite_snoc noteAssertion_def noteStep_def endTest_def Let_def lookup_or_def
        split: if_splits)
qed

lemma stepped_run: "stepped (run_suite ops) = {r. used ops r}"
proof (induction ops rule: rev_induct)
  case Nil
  show ?case by (simp add: run_suite_def newVacuityState_def used_def)
next
  case (snoc op ops)
  then show ?case
  proof (cases op)
    case (Step s i ok)
    have "used (ops @ [op]) r \<longleftrightarrow> used ops r \<or> s \<noteq> [] \<and> r = IfaceRef s i" for r
      by (cases r) (auto simp: used_def Step)
    then show ?thesis using snoc by (auto simp: run_suite_snoc Step noteStep_def Let_def)
  qed (auto simp: run_suite_snoc noteAssertion_def endTest_def Let_def used_def)
qed

lemma current_test_snoc:
  "current_test (ops @ [op]) = (case op of End_test _ _ \<Rightarrow> [] | _ \<Rightarrow> current_test ops @ [op])"
  by (simp add: current_test_def split: vac_op.split)

lemma candidates_run:
  "candidates (run_suite ops) =
    {r. ref_service r \<noteq> [] \<and> Step (ref_service r) (ref_interface r) True \<in> set (current_test ops)}"
proof (induction ops rule: rev_induct)
  case Nil
  show ?case by (simp add: run_suite_def newVacuityState_def current_test_def)
next
  case (snoc op ops)
  show ?case
  proof (cases op)
    case (Step s i ok)
    have "r = IfaceRef s i \<longleftrightarrow> ref_service r = s \<and> ref_interface r = i" for r
      by (cases r) auto
    then show ?thesis
      using snoc by (auto simp: run_suite_snoc Step noteStep_def Let_def current_test_snoc)
  qed (use snoc in \<open>simp_all add: run_suite_snoc noteAssertion_def endTest_def current_test_snoc\<close>)
qed

lemma has_control_snoc:
  "has_control (ops @ [op]) r \<longleftrightarrow>
    has_control ops r \<or>
    (\<exists>t. op = End_test t ''pass'' \<and> t \<noteq> [] \<and> Assertion t \<in> set ops \<and>
       Step (ref_service r) (ref_interface r) True \<in> set (current_test ops) \<and> ref_service r \<noteq> [])"
  (is "?l = ?r")
proof
  assume ?l
  then obtain pre t post where d: "ops @ [op] = pre @ End_test t ''pass'' # post" "t \<noteq> []"
    "Assertion t \<in> set pre" "Step (ref_service r) (ref_interface r) True \<in> set (current_test pre)"
    "ref_service r \<noteq> []"
    by (auto simp: has_control_def)
  show ?r
  proof (cases post rule: rev_cases)
    case Nil
    then show ?thesis using d by auto
  next
    case (snoc post' x)
    then have "ops = pre @ End_test t ''pass'' # post'" using d(1) by auto
    then show ?thesis using d unfolding has_control_def by blast
  qed
next
  assume ?r
  then show ?l unfolding has_control_def
    by (elim disjE exE conjE) (force, metis append_Nil2)
qed

lemma positiveControl_run: "positiveControl (run_suite ops) = {r. has_control ops r}"
proof (induction ops rule: rev_induct)
  case Nil
  show ?case by (simp add: run_suite_def newVacuityState_def has_control_def)
next
  case (snoc op ops)
  then show ?case
  proof (cases op)
    case (End_test t res)
    then show ?thesis
      using snoc assertions_run [of ops t] candidates_run [of ops]
      by (auto simp: run_suite_snoc endTest_def Let_def has_control_snoc)
  qed (auto simp: run_suite_snoc noteAssertion_def noteStep_def Let_def has_control_snoc)
qed

text \<open>The suite diagnostics name exactly the interfaces that some step used and for which no
passing, asserting test saw a step succeed, each once and in a fixed order, whatever order the
runtime's maps are iterated in.\<close>

theorem missing_control_exact:
  assumes "set order = stepped (run_suite ops)" and "distinct order"
  shows "set (missingPositiveControl order (run_suite ops)) = {r. used ops r \<and> \<not> has_control ops r} \<and>
    sorted_wrt (<) (missingPositiveControl order (run_suite ops))"
proof
  show "set (missingPositiveControl order (run_suite ops)) = {r. used ops r \<and> \<not> has_control ops r}"
    using assms(1) by (auto simp: missingPositiveControl_def stepped_run positiveControl_run)
  have "distinct (missingPositiveControl order (run_suite ops))" "sorted (missingPositiveControl order (run_suite ops))"
    using assms(2) by (simp_all add: missingPositiveControl_def)
  then show "sorted_wrt (<) (missingPositiveControl order (run_suite ops))"
    by (simp add: strict_sorted_iff)
qed

definition demo_suite :: "vac_op list" where
  "demo_suite = [Step ''pg'' ''main'' False, Assertion ''test_fault'', End_test ''test_fault'' ''pass'',
     Step ''api'' ''http'' True, Assertion ''test_ok'', End_test ''test_ok'' ''pass'']"

theorem missing_control_exact_witness:
  "set (missingPositiveControl [IfaceRef ''pg'' ''main'', IfaceRef ''api'' ''http''] (run_suite demo_suite)) =
     {r. used demo_suite r \<and> \<not> has_control demo_suite r} \<and>
   missingPositiveControl [IfaceRef ''pg'' ''main'', IfaceRef ''api'' ''http''] (run_suite demo_suite) =
     [IfaceRef ''pg'' ''main'']"
proof -
  have "set [IfaceRef ''pg'' ''main'', IfaceRef ''api'' ''http''] = stepped (run_suite demo_suite)"
    "distinct [IfaceRef ''pg'' ''main'', IfaceRef ''api'' ''http'']"
    by (auto simp: demo_suite_def run_suite_def newVacuityState_def noteStep_def noteAssertion_def endTest_def Let_def)
  note t = missing_control_exact [OF this]
  have "missingPositiveControl [IfaceRef ''pg'' ''main'', IfaceRef ''api'' ''http''] (run_suite demo_suite) =
     [IfaceRef ''pg'' ''main'']"
    by (simp add: missingPositiveControl_def demo_suite_def run_suite_def newVacuityState_def noteStep_def
        noteAssertion_def endTest_def Let_def)
  then show ?thesis using t by blast
qed

end
