(* ===== verification/Await.thy ===== *)
theory Await
  imports Event_Log
begin

text \<open>\<^verbatim>\<open>await_event\<close> of \<^verbatim>\<open>internal/star/await.go\<close> against concurrent emitters: the goroutine that waits
checks the log, subscribes, checks again and parks on a channel, while others append events and only
afterwards, without a lock, read the subscriber list and run the callbacks.

Shown here: under every interleaving an event that is in the log is never missed, and what is
returned is a matching event of the log.\<close>

section \<open>The system\<close>

datatype await_pc = Check1 | Subscribing | Check2 | Parked | Returned Event

text \<open>The log; where the waiting goroutine is; whether its callback is in the subscriber list; the
buffered channel of one event with its once flag; the events that were appended but whose emitter
has not yet read the subscriber list; and those for which the callback is about to run.\<close>

record await_sys =
  alog :: "Event list"
  apc :: await_pc
  asub :: bool
  hitCh :: "Event option"
  fired :: bool
  appended :: "Event list"
  calling :: "Event list"

definition await_init :: "Event list \<Rightarrow> await_sys" where
  "await_init evs = \<lparr>alog = evs, apc = Check1, asub = False, hitCh = None, fired = False,
     appended = [], calling = []\<rparr>"

text \<open>The callback: a matching event is sent once, without blocking.\<close>

definition callback :: "MatcherVal \<Rightarrow> Event \<Rightarrow> await_sys \<Rightarrow> await_sys" where
  "callback m ev s =
    (if \<not> Matches (Some m) ev then s
     else if fired s then s
     else s\<lparr>fired := True, hitCh := (case hitCh s of None \<Rightarrow> Some ev | Some e \<Rightarrow> Some e)\<rparr>)"

inductive await_step :: "MatcherVal \<Rightarrow> await_sys \<Rightarrow> await_sys \<Rightarrow> bool" for m where
  append: "await_step m s (s\<lparr>alog := alog s @ [ev], appended := ev # appended s\<rparr>)"
| snapshot: "appended s = xs @ ev # ys \<Longrightarrow>
    await_step m s (s\<lparr>appended := xs @ ys, calling := (if asub s then ev # calling s else calling s)\<rparr>)"
| run_callback: "calling s = xs @ ev # ys \<Longrightarrow> await_step m s (callback m ev (s\<lparr>calling := xs @ ys\<rparr>))"
| check1_hit: "apc s = Check1 \<Longrightarrow> first_loop (Some m) (alog s) = Some ev \<Longrightarrow>
    await_step m s (s\<lparr>apc := Returned ev\<rparr>)"
| check1_miss: "apc s = Check1 \<Longrightarrow> first_loop (Some m) (alog s) = None \<Longrightarrow>
    await_step m s (s\<lparr>apc := Subscribing\<rparr>)"
| subscribe: "apc s = Subscribing \<Longrightarrow> await_step m s (s\<lparr>apc := Check2, asub := True\<rparr>)"
| check2_hit: "apc s = Check2 \<Longrightarrow> first_loop (Some m) (alog s) = Some ev \<Longrightarrow>
    await_step m s (s\<lparr>apc := Returned ev, asub := False\<rparr>)"
| check2_miss: "apc s = Check2 \<Longrightarrow> first_loop (Some m) (alog s) = None \<Longrightarrow>
    await_step m s (s\<lparr>apc := Parked\<rparr>)"
| receive: "apc s = Parked \<Longrightarrow> hitCh s = Some ev \<Longrightarrow>
    await_step m s (s\<lparr>apc := Returned ev, hitCh := None, asub := False\<rparr>)"

inductive await_reach :: "MatcherVal \<Rightarrow> Event list \<Rightarrow> await_sys \<Rightarrow> bool" for m evs where
  start: "await_reach m evs (await_init evs)"
| step: "await_reach m evs s \<Longrightarrow> await_step m s s' \<Longrightarrow> await_reach m evs s'"

inductive_cases await_stepE: "await_step m s s'"

section \<open>No event is missed\<close>

text \<open>Everything in flight is in the log, what was sent or returned is a match of the log, and as long
as the goroutine has not returned the once flag says that the channel is filled.\<close>

definition await_sound :: "MatcherVal \<Rightarrow> await_sys \<Rightarrow> bool" where
  "await_sound m s \<longleftrightarrow>
    set (appended s) \<subseteq> set (alog s) \<and> set (calling s) \<subseteq> set (alog s) \<and>
    (\<forall>e. hitCh s = Some e \<or> apc s = Returned e \<longrightarrow> e \<in> set (alog s) \<and> Matches (Some m) e)"

definition await_chan :: "await_sys \<Rightarrow> bool" where
  "await_chan s \<longleftrightarrow>
    (apc s \<in> {Check2, Parked} \<longrightarrow> asub s) \<and>
    (apc s = Parked \<and> fired s \<longrightarrow> hitCh s \<noteq> None) \<and>
    (apc s \<in> {Check1, Subscribing, Check2} \<and> fired s \<longrightarrow> hitCh s \<noteq> None)"

text \<open>A match in the log of a parked goroutine was sent or is on its way.\<close>

definition await_cover :: "MatcherVal \<Rightarrow> await_sys \<Rightarrow> bool" where
  "await_cover m s \<longleftrightarrow>
    (apc s = Parked \<longrightarrow>
       (\<forall>e \<in> set (alog s). Matches (Some m) e \<longrightarrow>
          fired s \<or> e \<in> set (appended s) \<or> e \<in> set (calling s)))"

lemma first_loop_Some: "first_loop m evs = Some e \<Longrightarrow> e \<in> set evs \<and> Matches m e"
  by (induction evs) (auto split: if_splits)

lemma first_loop_None: "first_loop m evs = None \<longleftrightarrow> (\<forall>e \<in> set evs. \<not> Matches m e)"
  by (induction evs) auto

lemma await_sound_step: "await_step m s s' \<Longrightarrow> await_sound m s \<Longrightarrow> await_sound m s'"
proof (induction rule: await_step.induct)
  case (run_callback s xs ev ys)
  then show ?case
    by (cases "Matches (Some m) ev"; cases "fired s")
      (auto simp: await_sound_def callback_def split: option.splits)
next
  case (check1_hit s ev)
  then show ?case using first_loop_Some [of "Some m" "alog s" ev] by (simp add: await_sound_def)
next
  case (check2_hit s ev)
  then show ?case using first_loop_Some [of "Some m" "alog s" ev] by (simp add: await_sound_def)
qed (auto simp: await_sound_def)

lemma await_chan_step: "await_step m s s' \<Longrightarrow> await_chan s \<Longrightarrow> await_chan s'"
proof (induction rule: await_step.induct)
  case (run_callback s xs ev ys)
  then show ?case
    by (cases "Matches (Some m) ev"; cases "fired s"; cases "hitCh s") (simp_all add: await_chan_def callback_def)
qed (auto simp: await_chan_def)

lemma await_cover_step: "await_step m s s' \<Longrightarrow> await_chan s \<Longrightarrow> await_cover m s \<Longrightarrow> await_cover m s'"
proof (induction rule: await_step.induct)
  case (append s ev)
  then show ?case by (auto simp: await_cover_def)
next
  case (snapshot s xs ev ys)
  then show ?case by (auto simp: await_cover_def await_chan_def)
next
  case (run_callback s xs ev ys)
  then show ?case
    by (cases "Matches (Some m) ev"; cases "fired s") (auto simp: await_cover_def callback_def)
next
  case (check2_miss s)
  then show ?case by (simp add: await_cover_def first_loop_None)
qed (simp_all add: await_cover_def)

lemma await_inv_reach: "await_reach m evs s \<Longrightarrow> await_sound m s \<and> await_chan s \<and> await_cover m s"
proof (induction rule: await_reach.induct)
  case start
  show ?case by (simp add: await_init_def await_sound_def await_chan_def await_cover_def)
next
  case (step s s')
  then show ?case using await_sound_step await_chan_step await_cover_step by blast
qed


definition any_matcher :: MatcherVal where
  "any_matcher = \<lparr>mname = ''all(...)'', matchFn = Some (\<lambda>_. True)\<rparr>"


end
