(* ===== verification/Packet_Rule.thy ===== *)
theory Packet_Rule
  imports Fault_Rule "HOL-Library.Product_Lexorder"
begin

text \<open>Packet fault rules, \<^verbatim>\<open>internal/netfault/rule.go\<close>, \<^verbatim>\<open>match.go\<close> and \<^verbatim>\<open>packetview.go\<close>: the projection
of a packet that rules read, the declarative predicates, the stateful triggers and probability gates,
and the walk over a rule set that picks the rule for a packet.

The header accessors of the network stack library are arguments of the parser, in one record.
Shown here: the walk picks the first rule that matches and passes its gates and leaves the rules
behind it untouched; the triggers follow the same counting law as those of syscall rules; flag
specifications round-trip; a conversation has one flow identifier whichever way its packets travel;
and a validated rule without a probability fires whenever it matches.\<close>

unbundle bit_operations_syntax

section \<open>Packets\<close>

datatype Direction = DirC2S | DirS2C | DirBoth

definition dir_String :: "Direction \<Rightarrow> string" where
  "dir_String d = (if d = DirC2S then ''c2s'' else ''s2c'')"

definition ParseDirection :: "string \<Rightarrow> Direction option" where
  "ParseDirection s = (if s = ''c2s'' then Some DirC2S else if s = ''s2c'' then Some DirS2C else None)"

type_synonym Protocol = string

definition ProtoTCP :: Protocol where "ProtoTCP = ''tcp''"
definition ProtoUDP :: Protocol where "ProtoUDP = ''udp''"
definition ProtoICMP :: Protocol where "ProtoICMP = ''icmp''"
definition ProtoOther :: Protocol where "ProtoOther = ''other''"

definition FlagFIN :: "8 word" where "FlagFIN = 1"
definition FlagSYN :: "8 word" where "FlagSYN = 2"
definition FlagRST :: "8 word" where "FlagRST = 4"
definition FlagPSH :: "8 word" where "FlagPSH = 8"
definition FlagACK :: "8 word" where "FlagACK = 16"
definition FlagURG :: "8 word" where "FlagURG = 32"
definition FlagECE :: "8 word" where "FlagECE = 64"
definition FlagCWR :: "8 word" where "FlagCWR = 128"

lemmas flag_defs = FlagFIN_def FlagSYN_def FlagRST_def FlagPSH_def FlagACK_def FlagURG_def FlagECE_def FlagCWR_def

definition flagNames :: "(8 word \<times> string) list" where
  "flagNames = [(FlagFIN, ''FIN''), (FlagSYN, ''SYN''), (FlagRST, ''RST''), (FlagPSH, ''PSH''),
     (FlagACK, ''ACK''), (FlagURG, ''URG''), (FlagECE, ''ECE''), (FlagCWR, ''CWR'')]"

fun flag_lookup :: "string \<Rightarrow> (8 word \<times> string) list \<Rightarrow> 8 word option" where
  "flag_lookup up [] = None"
| "flag_lookup up ((fb, name) # fs) = (if name = up then Some fb else flag_lookup up fs)"

definition ParseFlagName :: "string \<Rightarrow> 8 word option" where
  "ParseFlagName s = flag_lookup (to_upper (trim_space s)) flagNames"

fun flag_collect :: "8 word \<Rightarrow> (8 word \<times> string) list \<Rightarrow> string list" where
  "flag_collect flags [] = []"
| "flag_collect flags ((fb, name) # fs) =
    (if flags AND fb \<noteq> 0 then name # flag_collect flags fs else flag_collect flags fs)"

definition FlagNames :: "8 word \<Rightarrow> string list" where
  "FlagNames flags = flag_collect flags flagNames"

record PacketView =
  Proto :: Protocol
  Dir :: Direction
  SrcIP :: string
  DstIP :: string
  SrcPort :: "16 word"
  DstPort :: "16 word"
  PayloadLen :: int
  Payload :: "8 word list"
  Flags :: "8 word"
  PSeq :: "32 word"
  PAck :: "32 word"
  Window :: "16 word"
  Index :: int
  Flow :: string

definition HasFlags :: "PacketView \<Rightarrow> 8 word \<Rightarrow> bool" where
  "HasFlags p m = (Flags p AND m = m)"

definition maxPayloadCapture :: nat where "maxPayloadCapture = 4096"

definition clampPayload :: "8 word list \<Rightarrow> 8 word list" where
  "clampPayload b = (if maxPayloadCapture < length b then take maxPayloadCapture b else b)"

text \<open>The digits of a number, least significant first into the buffer, as \<^verbatim>\<open>writeUint\<close> produces them.\<close>

function writeUint_loop :: "nat \<Rightarrow> string \<Rightarrow> string" where
  "writeUint_loop v acc =
    (let acc' = digit_char (v mod 10) # acc
     in if v div 10 = 0 then acc' else writeUint_loop (v div 10) acc')"
  by pat_completeness auto
termination by (relation "measure (\<lambda>(v, _). v)") auto

declare writeUint_loop.simps [simp del]

definition writeUint :: "nat \<Rightarrow> string" where
  "writeUint v = writeUint_loop v []"

text \<open>The identifier of the connection, with the two endpoints in order.\<close>

definition flowID :: "PacketView \<Rightarrow> string" where
  "flowID p =
    (let swap = (SrcIP p > DstIP p \<or> SrcIP p = DstIP p \<and> SrcPort p > DstPort p);
         (lo, loPort, hi, hiPort) =
           (if swap then (DstIP p, DstPort p, SrcIP p, SrcPort p)
            else (SrcIP p, SrcPort p, DstIP p, DstPort p))
     in Proto p @ ''|'' @ lo @ '':'' @ writeUint (unat loPort) @ ''-'' @ hi @ '':'' @ writeUint (unat hiPort))"

text \<open>What the parser takes from the header package, on the bytes of a packet or of its transport
part.\<close>

record headers =
  ip_valid :: "8 word list \<Rightarrow> nat \<Rightarrow> bool"
  ip_hlen :: "8 word list \<Rightarrow> nat"
  ip_proto :: "8 word list \<Rightarrow> nat"
  ip_src :: "8 word list \<Rightarrow> string"
  ip_dst :: "8 word list \<Rightarrow> string"
  tp_sport :: "8 word list \<Rightarrow> 16 word"
  tp_dport :: "8 word list \<Rightarrow> 16 word"
  tcp_off :: "8 word list \<Rightarrow> nat"
  tcp_flags :: "8 word list \<Rightarrow> 8 word"
  tcp_seq :: "8 word list \<Rightarrow> 32 word"
  tcp_ack :: "8 word list \<Rightarrow> 32 word"
  tcp_win :: "8 word list \<Rightarrow> 16 word"

definition base_view :: "headers \<Rightarrow> Direction \<Rightarrow> 8 word list \<Rightarrow> PacketView" where
  "base_view h dir b = \<lparr>Proto = [], Dir = dir, SrcIP = ip_src h b, DstIP = ip_dst h b, SrcPort = 0,
     DstPort = 0, PayloadLen = 0, Payload = [], Flags = 0, PSeq = 0, PAck = 0, Window = 0, Index = 0,
     Flow = []\<rparr>"

definition Parse :: "headers \<Rightarrow> 8 word list \<Rightarrow> Direction \<Rightarrow> PacketView option" where
  "Parse h b dir =
    (if length b < 20 \<or> \<not> ip_valid h b (length b) then None
     else
       let hlen = ip_hlen h b in
       if hlen < 20 \<or> length b < hlen then None
       else
         let pv = base_view h dir b; rest = drop hlen b in
         if ip_proto h b = 6 then
           (if length rest < 20 then None
            else
              let off = tcp_off h rest in
              if off < 20 \<or> length rest < off then None
              else
                let v = pv\<lparr>Proto := ProtoTCP, SrcPort := tp_sport h rest, DstPort := tp_dport h rest,
                           Flags := tcp_flags h rest, PSeq := tcp_seq h rest, PAck := tcp_ack h rest,
                           Window := tcp_win h rest, Payload := clampPayload (drop off rest),
                           PayloadLen := int (length rest - off)\<rparr>
                in Some (v\<lparr>Flow := flowID v\<rparr>))
         else if ip_proto h b = 17 then
           (if length rest < 8 then None
            else
              let v = pv\<lparr>Proto := ProtoUDP, SrcPort := tp_sport h rest, DstPort := tp_dport h rest,
                         Payload := clampPayload (drop 8 rest), PayloadLen := int (length rest - 8)\<rparr>
              in Some (v\<lparr>Flow := flowID v\<rparr>))
         else if ip_proto h b = 1 then
           let v = pv\<lparr>Proto := ProtoICMP, PayloadLen := int (length rest), Payload := clampPayload rest\<rparr>
           in Some (v\<lparr>Flow := flowID v\<rparr>)
         else
           let v = pv\<lparr>Proto := ProtoOther, PayloadLen := int (length rest), Payload := clampPayload rest\<rparr>
           in Some (v\<lparr>Flow := flowID v\<rparr>))"

section \<open>Predicates\<close>

record Match =
  mDir :: "Direction option"
  mProto :: Protocol
  FlagsSet :: "8 word"
  FlagsClear :: "8 word"
  mPort :: "16 word"
  mDstIP :: string
  mLen :: int
  HasLen :: bool
  LenGT :: int
  HasLenGT :: bool
  LenLT :: int
  HasLenLT :: bool
  PayloadPrefix :: "8 word list"
  PayloadContains :: "8 word list"
  Where :: "(PacketView \<Rightarrow> bool) option"

definition empty_match :: Match where
  "empty_match = \<lparr>mDir = None, mProto = [], FlagsSet = 0, FlagsClear = 0, mPort = 0, mDstIP = [],
     mLen = 0, HasLen = False, LenGT = 0, HasLenGT = False, LenLT = 0, HasLenLT = False,
     PayloadPrefix = [], PayloadContains = [], Where = None\<rparr>"

definition bytes_has_prefix :: "'a list \<Rightarrow> 'a list \<Rightarrow> bool" where
  "bytes_has_prefix s p = (take (length p) s = p)"

fun bytes_contains :: "'a list \<Rightarrow> 'a list \<Rightarrow> bool" where
  "bytes_contains [] p = (p = [])"
| "bytes_contains (x # xs) p = (bytes_has_prefix (x # xs) p \<or> bytes_contains xs p)"

definition matchesDeclarative :: "Match \<Rightarrow> PacketView \<Rightarrow> bool" where
  "matchesDeclarative m p =
    (if mDir m \<noteq> None \<and> mDir m \<noteq> Some (Dir p) then False
     else if mProto m \<noteq> [] \<and> mProto m \<noteq> Proto p then False
     else if FlagsSet m \<noteq> 0 \<and> Flags p AND FlagsSet m \<noteq> FlagsSet m then False
     else if FlagsClear m \<noteq> 0 \<and> Flags p AND FlagsClear m \<noteq> 0 then False
     else if mPort m \<noteq> 0 \<and> DstPort p \<noteq> mPort m then False
     else if mDstIP m \<noteq> [] \<and> DstIP p \<noteq> mDstIP m then False
     else if HasLen m \<and> PayloadLen p \<noteq> mLen m then False
     else if HasLenGT m \<and> PayloadLen p \<le> LenGT m then False
     else if HasLenLT m \<and> LenLT m \<le> PayloadLen p then False
     else if PayloadPrefix m \<noteq> [] \<and> \<not> bytes_has_prefix (Payload p) (PayloadPrefix m) then False
     else if PayloadContains m \<noteq> [] \<and> \<not> bytes_contains (Payload p) (PayloadContains m) then False
     else True)"

text \<open>\<^verbatim>\<open>Matches\<close>: the answer, and whether the Starlark predicate was called.\<close>

definition pkt_Matches :: "Match \<Rightarrow> PacketView \<Rightarrow> bool \<times> bool" where
  "pkt_Matches m p =
    (if \<not> matchesDeclarative m p then (False, False)
     else case Where m of
       Some f \<Rightarrow> (f p, True)
     | None \<Rightarrow> (True, False))"

definition UsesWhere :: "Match \<Rightarrow> bool" where
  "UsesWhere m = (Where m \<noteq> None)"

fun flag_spec_loop :: "string list \<Rightarrow> 8 word \<Rightarrow> 8 word \<Rightarrow> (8 word \<times> 8 word) res" where
  "flag_spec_loop [] st cl = Inr (st, cl)"
| "flag_spec_loop (part # parts) st cl =
    (let p = trim_space part in
     if p = [] then flag_spec_loop parts st cl
     else
       let negate = has_prefix p ''!'';
           q = (if negate then trim_space (tl p) else p)
       in case ParseFlagName q of
            None \<Rightarrow> Inl (''unknown TCP flag '' @ go_quote q @ '' (known: FIN, SYN, RST, PSH, ACK, URG, ECE, CWR)'')
          | Some fb \<Rightarrow>
              if negate then flag_spec_loop parts st (cl OR fb)
              else flag_spec_loop parts (st OR fb) cl)"

definition ParseFlagSpec :: "string \<Rightarrow> (8 word \<times> 8 word) res" where
  "ParseFlagSpec spec =
    (if trim_space spec = [] then Inr (0, 0)
     else case flag_spec_loop (split_on CHR '','' spec) 0 0 of
       Inl e \<Rightarrow> Inl e
     | Inr (st, cl) \<Rightarrow>
         if st AND cl \<noteq> 0 then
           Inl (''flag spec '' @ go_quote spec @ '' both requires and forbids the same flag'')
         else Inr (st, cl))"

section \<open>Rules\<close>

datatype PAction =
    PActionPass | PActionDrop | PActionDelay | PActionDuplicate | PActionReorder | PActionCorrupt
  | PActionReset | PActionWindow

fun action_String :: "PAction \<Rightarrow> string" where
  "action_String PActionPass = ''pass''"
| "action_String PActionDrop = ''drop''"
| "action_String PActionDelay = ''delay''"
| "action_String PActionDuplicate = ''duplicate''"
| "action_String PActionReorder = ''reorder''"
| "action_String PActionCorrupt = ''corrupt''"
| "action_String PActionReset = ''reset''"
| "action_String PActionWindow = ''window''"

datatype PTrigger = PTriggerAlways | PTriggerNth | PTriggerAfter | PTriggerEvery

record PRule =
  pAction :: PAction
  pMatch :: Match
  pLabel :: string
  pDelay :: int
  ReorderBy :: int
  DuplicateCount :: int
  CorruptOffset :: int
  CorruptLength :: int
  CorruptMode :: string
  Checksum :: string
  WindowSize :: "16 word"
  pTrigger :: PTrigger
  pTriggerN :: int
  pProbability :: float64
  pMaxFires :: int
  pMode :: string
  pcounter :: int
  pprobCounter :: int
  fired :: int

definition pMatchCount :: "PRule \<Rightarrow> int" where "pMatchCount r = pcounter r"
definition FireCount :: "PRule \<Rightarrow> int" where "FireCount r = fired r"

definition shouldTrigger :: "PRule \<Rightarrow> bool \<times> PRule" where
  "shouldTrigger r =
    (let n = pcounter r + 1; r' = r\<lparr>pcounter := n\<rparr> in
     (case pTrigger r of
        PTriggerNth \<Rightarrow> n = pTriggerN r
      | PTriggerAfter \<Rightarrow> pTriggerN r < n
      | PTriggerEvery \<Rightarrow> if pTriggerN r \<le> 0 then True else go_rem n (pTriggerN r) = 0
      | PTriggerAlways \<Rightarrow> True, r'))"

definition nextProbabilityOccurrence :: "PRule \<Rightarrow> int \<times> PRule" where
  "nextProbabilityOccurrence r = (pprobCounter r, r\<lparr>pprobCounter := pprobCounter r + 1\<rparr>)"

text \<open>How Go prints an action in the messages of \<^verbatim>\<open>NewRuleSet\<close>; durations and floats are printed by the
standard library and stand as arguments.\<close>

definition action_error :: "(int \<Rightarrow> string) \<Rightarrow> PRule \<Rightarrow> string option" where
  "action_error dur r =
    (case pAction r of
       PActionDelay \<Rightarrow>
         if pDelay r \<le> 0 then Some (''packet_delay: duration must be positive, got '' @ dur (pDelay r)) else None
     | PActionReorder \<Rightarrow>
         if ReorderBy r \<le> 0 then Some (''packet_reorder: by must be >= 1, got '' @ show_int (ReorderBy r))
         else None
     | PActionDuplicate \<Rightarrow>
         if DuplicateCount r < 2 then
           Some (''packet_duplicate: count must be >= 2 (2 means delivered twice), got '' @
             show_int (DuplicateCount r))
         else None
     | PActionCorrupt \<Rightarrow>
         if CorruptLength r \<le> 0 then
           Some (''packet_corrupt: length must be >= 1, got '' @ show_int (CorruptLength r))
         else if CorruptOffset r < 0 then
           Some (''packet_corrupt: offset must be >= 0, got '' @ show_int (CorruptOffset r))
         else if CorruptMode r \<notin> {''flip'', ''zero'', ''random''} then
           Some (''packet_corrupt: mode must be one of flip, zero, random; got '' @ go_quote (CorruptMode r))
         else if Checksum r \<notin> {''fix'', ''break''} then
           Some (''packet_corrupt: checksum must be fix or break, got '' @ go_quote (Checksum r))
         else None
     | PActionReset \<Rightarrow>
         if mProto (pMatch r) \<noteq> [] \<and> mProto (pMatch r) \<noteq> ProtoTCP then
           Some (''packet_reset: only meaningful for tcp, got proto='' @ go_quote (mProto (pMatch r)))
         else None
     | PActionWindow \<Rightarrow>
         if mProto (pMatch r) \<noteq> [] \<and> mProto (pMatch r) \<noteq> ProtoTCP then
           Some (''packet_window: only meaningful for tcp, got proto='' @ go_quote (mProto (pMatch r)))
         else None
     | _ \<Rightarrow> None)"

definition Validate :: "(int \<Rightarrow> string) \<Rightarrow> (float64 \<Rightarrow> string) \<Rightarrow> PRule \<Rightarrow> string option" where
  "Validate dur flo r =
    (case action_error dur r of
       Some e \<Rightarrow> Some e
     | None \<Rightarrow>
         if flt (pProbability r) (Fin 0) \<or> flt (Fin 1) (pProbability r) then
           Some (''probability must be within 0..1, got '' @ flo (pProbability r))
         else if 0 < pMaxFires r \<and> (fle (pProbability r) (Fin 0) \<or> fle (Fin 1) (pProbability r)) then
           Some ''max_fires is only meaningful with 0 < probability < 1''
         else if pMode r = ''stochastic'' \<and> 0 < pMaxFires r then
           Some ''mode=\"stochastic\" is incompatible with max_fires (which implies exhaustive fan-out)''
         else if pTrigger r \<noteq> PTriggerAlways \<and> pTriggerN r \<le> 0 then
           Some (''trigger requires a positive count, got '' @ show_int (pTriggerN r))
         else None)"

fun first_invalid :: "(PRule \<Rightarrow> string option) \<Rightarrow> nat \<Rightarrow> PRule list \<Rightarrow> string option" where
  "first_invalid validate i [] = None"
| "first_invalid validate i (r # rs) =
    (case validate r of
       Some e \<Rightarrow> Some (''rule '' @ show_nat i @ '' ('' @ action_String (pAction r) @ ''): '' @ e)
     | None \<Rightarrow> first_invalid validate (Suc i) rs)"

definition NewRuleSet ::
  "(int \<Rightarrow> string) \<Rightarrow> (float64 \<Rightarrow> string) \<Rightarrow> PRule list \<Rightarrow> PRule list res" where
  "NewRuleSet dur flo rules =
    (case first_invalid (Validate dur flo) 0 rules of Some e \<Rightarrow> Inl e | None \<Rightarrow> Inr rules)"

definition Rules :: "PRule list option \<Rightarrow> PRule list" where
  "Rules rs = (case rs of None \<Rightarrow> [] | Some rules \<Rightarrow> rules)"

text \<open>The generator is the sequence of the numbers it will produce; a missing one is \<^const>\<open>None\<close>.\<close>

type_synonym rng = "(nat \<Rightarrow> rat) option"
type_synonym pdecider = "PRule \<Rightarrow> int \<Rightarrow> bool \<times> bool"

definition draw :: "rng \<Rightarrow> rng" where
  "draw g = map_option (\<lambda>f n. f (Suc n)) g"

definition rollProbability :: "PRule \<Rightarrow> rng \<Rightarrow> pdecider option \<Rightarrow> bool \<times> PRule \<times> rng" where
  "rollProbability r g dec =
    (if fle (pProbability r) (Fin 0) \<or> fle (Fin 1) (pProbability r) then (True, r, g)
     else
       let fire = (case g of None \<Rightarrow> False | Some f \<Rightarrow> flt (Fin (f 0)) (pProbability r)); g' = draw g in
       case dec of
         None \<Rightarrow> (fire, r, g')
       | Some d \<Rightarrow>
           if pMode r \<noteq> ''stochastic'' then
             let (occ, r') = nextProbabilityOccurrence r; (pinnedFire, pinned) = d r' occ
             in (if pinned then pinnedFire else fire, r', g')
           else (fire, r, g'))"

text \<open>What the loop of \<^verbatim>\<open>decide\<close> does with one rule: whether it acts, the rule and the generator afterwards,
and whether its Starlark predicate was called.\<close>

definition consult :: "pdecider option \<Rightarrow> PacketView \<Rightarrow> PRule \<Rightarrow> rng \<Rightarrow> bool \<times> PRule \<times> rng \<times> bool" where
  "consult dec p r g =
    (let (matched, called) = pkt_Matches (pMatch r) p in
     if \<not> matched then (False, r, g, called)
     else
       let (due, r1) = shouldTrigger r in
       if \<not> due then (False, r1, g, called)
       else
         let (fire, r2, g') = rollProbability r1 g dec in
         if \<not> fire then (False, r2, g', called)
         else (True, r2\<lparr>fired := fired r2 + 1\<rparr>, g', called))"

fun decide_loop ::
  "pdecider option \<Rightarrow> PacketView \<Rightarrow> PRule list \<Rightarrow> rng \<Rightarrow> nat \<Rightarrow> nat option \<times> PRule list \<times> rng \<times> nat" where
  "decide_loop dec p [] g evals = (None, [], g, evals)"
| "decide_loop dec p (r # rs) g evals =
    (let (fire, r', g', called) = consult dec p r g; evals' = (if called then Suc evals else evals) in
     if fire then (Some 0, r' # rs, g', evals')
     else
       let (i, rs', g'', evals'') = decide_loop dec p rs g' evals'
       in (map_option Suc i, r' # rs', g'', evals''))"

text \<open>The chosen rule is returned by its position; the rules come back with their counters.\<close>

definition decide ::
  "pdecider option \<Rightarrow> PacketView \<Rightarrow> PRule list option \<Rightarrow> rng \<Rightarrow> nat \<Rightarrow>
    nat option \<times> PRule list option \<times> rng \<times> nat" where
  "decide dec p rs g evals =
    (case rs of
       None \<Rightarrow> (None, None, g, evals)
     | Some rules \<Rightarrow>
         let (i, rules', g', evals') = decide_loop dec p rules g evals in (i, Some rules', g', evals'))"

section \<open>What one consultation does\<close>

definition hits :: "PRule \<Rightarrow> PacketView \<Rightarrow> bool" where
  "hits r p = fst (pkt_Matches (pMatch r) p)"

lemma roll_keeps:
  "pMatch (fst (snd (rollProbability r g dec))) = pMatch r \<and>
   pcounter (fst (snd (rollProbability r g dec))) = pcounter r \<and>
   fired (fst (snd (rollProbability r g dec))) = fired r"
  by (auto simp: rollProbability_def nextProbabilityOccurrence_def Let_def split: option.split prod.split)

lemma shouldTrigger_keeps [simp]:
  "snd (shouldTrigger r) = r\<lparr>pcounter := pcounter r + 1\<rparr>"
  by (simp add: shouldTrigger_def Let_def)

lemma consult_effect:
  assumes "consult dec p r g = (fire, r', g', called)"
  shows "pMatch r' = pMatch r" "pcounter r' = pcounter r + of_bool (hits r p)"
    "fired r' = fired r + of_bool fire" "fire \<Longrightarrow> hits r p \<and> fst (shouldTrigger r)"
    "called \<longleftrightarrow> Where (pMatch r) \<noteq> None \<and> matchesDeclarative (pMatch r) p"
proof -
  obtain m c where m: "pkt_Matches (pMatch r) p = (m, c)" by force
  let ?r1 = "r\<lparr>pcounter := pcounter r + 1\<rparr>"
  obtain due where t: "shouldTrigger r = (due, ?r1)" using shouldTrigger_keeps [of r] by (cases "shouldTrigger r") auto
  obtain f r2 g2 where q: "rollProbability ?r1 g dec = (f, r2, g2)" by (metis prod_cases3)
  have c: "c \<longleftrightarrow> Where (pMatch r) \<noteq> None \<and> matchesDeclarative (pMatch r) p"
    using m by (auto simp: pkt_Matches_def split: if_splits option.splits)
  show "pMatch r' = pMatch r" "pcounter r' = pcounter r + of_bool (hits r p)"
    "fired r' = fired r + of_bool fire" "fire \<Longrightarrow> hits r p \<and> fst (shouldTrigger r)"
    "called \<longleftrightarrow> Where (pMatch r) \<noteq> None \<and> matchesDeclarative (pMatch r) p"
    using assms roll_keeps [of ?r1 g dec] c
    by (auto simp: consult_def hits_def m t q Let_def split: if_splits)
qed

text \<open>A rule whose probability was left at zero, or set to one, always passes that gate.\<close>

lemma unset_probability_fires:
  assumes "pProbability r = Fin 0 \<or> pProbability r = Fin 1" "hits r p" "fst (shouldTrigger r)"
  shows "fst (consult dec p r g)"
proof -
  have "fst (rollProbability r1 g dec)" if "shouldTrigger r = (due, r1)" for due r1
    using assms(1) that by (auto simp: rollProbability_def fle_def shouldTrigger_def Let_def)
  then show ?thesis using assms(2,3) by (fastforce simp: consult_def hits_def Let_def split: prod.splits)
qed

section \<open>First match wins\<close>

text \<open>Rule \<^term>\<open>j\<close> is consulted for a packet when no earlier rule took it.\<close>

definition reaches :: "nat option \<Rightarrow> nat \<Rightarrow> bool" where
  "reaches i j = (case i of None \<Rightarrow> True | Some k \<Rightarrow> j \<le> k)"

definition settled :: "PRule \<Rightarrow> bool" where
  "settled r \<longleftrightarrow> pTrigger r = PTriggerAlways \<and> (pProbability r = Fin 0 \<or> pProbability r = Fin 1)"

lemma settled_consult:
  "settled r \<Longrightarrow> hits r p \<Longrightarrow> fst (consult dec p r g)"
  by (rule unset_probability_fires) (auto simp: settled_def shouldTrigger_def Let_def)

lemma roll_keeps_settled: "settled (fst (snd (rollProbability r g dec))) = settled r"
  by (auto simp: rollProbability_def nextProbabilityOccurrence_def settled_def Let_def
      split: option.split prod.split)

lemma consult_settled:
  assumes "consult dec p r g = (fire, r', g', called)"
  shows "settled r' = settled r"
proof -
  let ?r1 = "r\<lparr>pcounter := pcounter r + 1\<rparr>"
  obtain due where t: "shouldTrigger r = (due, ?r1)"
    using shouldTrigger_keeps [of r] by (cases "shouldTrigger r") auto
  obtain f r2 g2 where q: "rollProbability ?r1 g dec = (f, r2, g2)" by (metis prod_cases3)
  have "settled r2 = settled r" using roll_keeps_settled [of ?r1 g dec] q by (simp add: settled_def)
  then show ?thesis
    using assms by (auto simp: consult_def t q Let_def settled_def split: if_splits prod.splits)
qed

text \<open>What the walk does to the rule at position \<^term>\<open>j\<close> when its choice is \<^term>\<open>i\<close>.\<close>

definition rule_law :: "PacketView \<Rightarrow> nat option \<Rightarrow> nat \<Rightarrow> PRule \<Rightarrow> PRule \<Rightarrow> bool" where
  "rule_law p i j r r' \<longleftrightarrow>
     pMatch r' = pMatch r \<and> settled r' = settled r \<and>
     fired r' = fired r + of_bool (i = Some j) \<and>
     pcounter r' = pcounter r + of_bool (hits r p \<and> reaches i j) \<and>
     (i = Some j \<longrightarrow> hits r p \<and> fst (shouldTrigger r)) \<and>
     (\<not> reaches i j \<longrightarrow> r' = r) \<and>
     (settled r \<and> hits r p \<longrightarrow> (\<exists>k\<le>j. i = Some k))"

lemma reaches_Suc: "reaches (map_option Suc i) (Suc j) = reaches i j" "reaches i 0"
  by (auto simp: reaches_def split: option.splits)

lemma rule_law_Suc: "rule_law p (map_option Suc i) (Suc j) r r' = rule_law p i j r r'"
  by (cases i) (auto simp: rule_law_def reaches_def)

lemma decide_loop_effect:
  assumes "decide_loop dec p rs g w = (i, rs', g', w')"
  shows "length rs' = length rs \<and> (\<forall>k. i = Some k \<longrightarrow> k < length rs) \<and>
    (\<forall>j<length rs. rule_law p i j (rs ! j) (rs' ! j))"
  using assms
proof (induction rs arbitrary: g w i rs' g' w')
  case (Cons r rs)
  obtain fire r1 g1 called where c: "consult dec p r g = (fire, r1, g1, called)" by (metis prod_cases4)
  obtain i2 rs2 g2 w2 where d: "decide_loop dec p rs g1 (if called then Suc w else w) = (i2, rs2, g2, w2)"
    by (metis prod_cases4)
  note eff = consult_effect [OF c] consult_settled [OF c]
  have res: "i = (if fire then Some 0 else map_option Suc i2)" "rs' = r1 # (if fire then rs else rs2)"
    using Cons.prems c d by (auto simp: Let_def split: if_splits)
  have "settled r \<Longrightarrow> hits r p \<Longrightarrow> fire" using settled_consult [of r p dec g] c by simp
  then have here: "rule_law p i 0 r r1"
    using eff res(1) by (auto simp: rule_law_def reaches_Suc)
  have rest: "rule_law p i (Suc j) (rs ! j) (rs' ! Suc j)" if "j < length rs" for j
  proof (cases fire)
    case True
    then show ?thesis using res by (auto simp: rule_law_def reaches_def)
  next
    case False
    then show ?thesis using Cons.IH [OF d] that res by (simp add: rule_law_Suc)
  qed
  then show ?case using here res Cons.IH [OF d] by (auto simp: All_less_Suc2)
qed simp

text \<open>The decisions for a sequence of packets, and the rules afterwards.\<close>

fun serve :: "pdecider option \<Rightarrow> PacketView list \<Rightarrow> PRule list \<Rightarrow> rng \<Rightarrow> nat option list \<times> PRule list" where
  "serve dec [] rs g = ([], rs)"
| "serve dec (p # ps) rs g =
    (let (i, rs', g', _) = decide_loop dec p rs g 0; (is, rs'') = serve dec ps rs' g' in (i # is, rs''))"

definition claimed :: "PRule \<Rightarrow> nat \<Rightarrow> (PacketView \<times> nat option) list \<Rightarrow> (PacketView \<times> nat option) list" where
  "claimed r j ds = filter (\<lambda>(p, i). hits r p \<and> reaches i j) ds"

lemma hits_cong: "pMatch r = pMatch r' \<Longrightarrow> hits r = hits r'"
  by (simp add: hits_def fun_eq_iff)

lemma serve_account:
  assumes "serve dec ps rs g = (is, rs')"
  shows "length is = length ps \<and> length rs' = length rs \<and>
    (\<forall>j<length rs. fired (rs' ! j) = fired (rs ! j) + int (count_list is (Some j)) \<and>
       pcounter (rs' ! j) = pcounter (rs ! j) + int (length (claimed (rs ! j) j (zip ps is))) \<and>
       (\<forall>t<length ps. (is ! t = Some j \<longrightarrow> hits (rs ! j) (ps ! t)) \<and>
          (settled (rs ! j) \<and> hits (rs ! j) (ps ! t) \<longrightarrow> (\<exists>k\<le>j. is ! t = Some k))))"
  using assms
proof (induction ps arbitrary: rs g "is" rs')
  case (Cons p ps)
  obtain i rs1 g1 w where d: "decide_loop dec p rs g 0 = (i, rs1, g1, w)" by (metis prod_cases4)
  obtain is2 rs2 where s: "serve dec ps rs1 g1 = (is2, rs2)" by force
  have res: "is = i # is2" "rs' = rs2" using Cons.prems d s by auto
  note law = decide_loop_effect [OF d]
  note IH = Cons.IH [OF s]
  have "fired (rs' ! j) = fired (rs ! j) + int (count_list is (Some j)) \<and>
       pcounter (rs' ! j) = pcounter (rs ! j) + int (length (claimed (rs ! j) j (zip (p # ps) is))) \<and>
       (\<forall>t<length (p # ps). (is ! t = Some j \<longrightarrow> hits (rs ! j) ((p # ps) ! t)) \<and>
          (settled (rs ! j) \<and> hits (rs ! j) ((p # ps) ! t) \<longrightarrow> (\<exists>k\<le>j. is ! t = Some k)))"
    if "j < length rs" for j
  proof -
    have j: "rule_law p i j (rs ! j) (rs1 ! j)" "j < length rs1" using law that by auto
    then have same: "hits (rs1 ! j) = hits (rs ! j)" "settled (rs1 ! j) = settled (rs ! j)"
      using hits_cong [of "rs1 ! j" "rs ! j"] by (simp_all add: rule_law_def)
    then have "claimed (rs1 ! j) j = claimed (rs ! j) j" by (simp add: claimed_def fun_eq_iff)
    moreover note IH [THEN conjunct2, THEN conjunct2, rule_format, OF j(2)]
    ultimately have ih: "fired (rs2 ! j) = fired (rs1 ! j) + int (count_list is2 (Some j))"
      "pcounter (rs2 ! j) = pcounter (rs1 ! j) + int (length (claimed (rs ! j) j (zip ps is2)))"
      "\<And>t. t < length ps \<Longrightarrow> is2 ! t = Some j \<Longrightarrow> hits (rs ! j) (ps ! t)"
      "\<And>t. t < length ps \<Longrightarrow> settled (rs ! j) \<Longrightarrow> hits (rs ! j) (ps ! t) \<Longrightarrow> \<exists>k\<le>j. is2 ! t = Some k"
      by (simp_all add: same)
    have 1: "fired (rs' ! j) = fired (rs ! j) + int (count_list is (Some j))"
      using j(1) ih(1) by (simp add: res rule_law_def)
    have 2: "pcounter (rs' ! j) = pcounter (rs ! j) + int (length (claimed (rs ! j) j (zip (p # ps) is)))"
      using j(1) ih(2) by (simp add: res rule_law_def claimed_def)
    have 3: "\<forall>t<length (p # ps). (is ! t = Some j \<longrightarrow> hits (rs ! j) ((p # ps) ! t))"
      using j(1) ih(3) by (simp add: res rule_law_def All_less_Suc2)
    have 4: "\<forall>t<length (p # ps). settled (rs ! j) \<and> hits (rs ! j) ((p # ps) ! t) \<longrightarrow> (\<exists>k\<le>j. is ! t = Some k)"
      using j(1) ih(4) by (simp add: res rule_law_def All_less_Suc2)
    show ?thesis using 1 2 3 4 by blast
  qed
  then show ?case using IH law res by simp
qed (simp add: claimed_def)

text \<open>C22. For every sequence of packets, each packet is acted on by at most one rule, the fire count of a rule
is the number of packets it acted on, and its match count is the number of packets that satisfied its
predicate and that no earlier rule took. A rule only acts on packets that satisfy its predicate; and
a rule without trigger and without a probability leaves no such packet to the rules behind it.\<close>

theorem packet_rule_accounting:
  assumes "serve dec ps rs g = (is, rs')" and "j < length rs"
  shows "FireCount (rs' ! j) - FireCount (rs ! j) = int (count_list is (Some j)) \<and>
    pMatchCount (rs' ! j) - pMatchCount (rs ! j) = int (length (claimed (rs ! j) j (zip ps is))) \<and>
    (\<forall>t<length ps. is ! t = Some j \<longrightarrow> hits (rs ! j) (ps ! t)) \<and>
    (\<forall>t<length ps. settled (rs ! j) \<and> hits (rs ! j) (ps ! t) \<longrightarrow> (\<exists>k\<le>j. is ! t = Some k))"
  using serve_account [OF assms(1)] assms(2) by (simp add: FireCount_def pMatchCount_def)

definition demo_packet :: PacketView where
  "demo_packet = \<lparr>Proto = ''tcp'', Dir = DirC2S, SrcIP = ''10.0.0.1'', DstIP = ''10.0.0.2'', SrcPort = 4000,
     DstPort = 80, PayloadLen = 0, Payload = [], Flags = 2, PSeq = 0, PAck = 0, Window = 0, Index = 0,
     Flow = []\<rparr>"

definition demo_prule :: PRule where
  "demo_prule = \<lparr>pAction = PActionDrop, pMatch = empty_match\<lparr>FlagsSet := 2\<rparr>, pLabel = [], pDelay = 0,
     ReorderBy = 0, DuplicateCount = 0, CorruptOffset = 0, CorruptLength = 0, CorruptMode = [],
     Checksum = [], WindowSize = 0, pTrigger = PTriggerEvery, pTriggerN = 2, pProbability = Fin 0,
     pMaxFires = 0, pMode = [], pcounter = 0, pprobCounter = 0, fired = 0\<rparr>"

theorem packet_rule_accounting_witness:
  "fst (serve None [demo_packet, demo_packet] [demo_prule] None) = [None, Some 0] \<and>
   FireCount (snd (serve None [demo_packet, demo_packet] [demo_prule] None) ! 0) = 1"
proof -
  obtain rs' where s: "serve None [demo_packet, demo_packet] [demo_prule] None = ([None, Some 0], rs')"
    by (simp add: demo_packet_def demo_prule_def consult_def pkt_Matches_def matchesDeclarative_def
        empty_match_def shouldTrigger_def rollProbability_def fle_def go_rem_def Let_def)
  have "FireCount (rs' ! 0) - FireCount ([demo_prule] ! 0) = int (count_list [None, Some 0] (Some 0))"
    using packet_rule_accounting [OF s, of 0] by simp
  then show ?thesis unfolding s by (simp add: demo_prule_def FireCount_def)
qed

section \<open>Triggers\<close>

definition packet_fires_at :: "PRule \<Rightarrow> int \<Rightarrow> bool" where
  "packet_fires_at r n =
    (case pTrigger r of
       PTriggerAlways \<Rightarrow> True
     | PTriggerNth \<Rightarrow> n = pTriggerN r
     | PTriggerAfter \<Rightarrow> pTriggerN r < n
     | PTriggerEvery \<Rightarrow> pTriggerN r \<le> 0 \<or> go_rem n (pTriggerN r) = 0)"

interpretation packet_gate: trigger_gate shouldTrigger pMatchCount packet_fires_at "\<lambda>r. pcounter r = 0"
  by unfold_locales
    (auto simp: shouldTrigger_def pMatchCount_def packet_fires_at_def Let_def fun_eq_iff
      split: PTrigger.splits)

text \<open>The answers of the trigger for \<^term>\<open>n\<close> matching packets in a row.\<close>

primrec trigger_run :: "nat \<Rightarrow> PRule \<Rightarrow> bool list" where
  "trigger_run 0 r = []"
| "trigger_run (Suc n) r = fst (shouldTrigger r) # trigger_run n (snd (shouldTrigger r))"

lemma trigger_run_answers: "trigger_run n r = fst (packet_gate.answers n r)"
  by (induction n arbitrary: r) (simp_all add: split_beta)

lemma trigger_run_fresh:
  "pcounter r = 0 \<Longrightarrow> trigger_run n r = map (\<lambda>k. packet_fires_at r (1 + int k)) [0..<n]"
  by (simp add: trigger_run_answers packet_gate.answers_fresh del: shouldTrigger_keeps)

lemma multiples_below: "0 < m \<Longrightarrow> card {k. k < n \<and> Suc k mod m = 0} = n div m"
proof (induction n)
  case (Suc n)
  have "{k. k < Suc n \<and> Suc k mod m = 0} =
    (if Suc n mod m = 0 then insert n {k. k < n \<and> Suc k mod m = 0} else {k. k < n \<and> Suc k mod m = 0})"
    by (auto simp: less_Suc_eq)
  then show ?case using Suc by (simp add: div_Suc)
qed simp

lemma every_position: "0 < N \<Longrightarrow> (1 + int k) mod N = 0 \<longleftrightarrow> Suc k mod nat N = 0"
  using of_nat_eq_0_iff [of "Suc k mod nat N", where 'a = int] by (simp add: zmod_int)

text \<open>A fresh \<^verbatim>\<open>every=N\<close> rule fires for \<^verbatim>\<open>n div N\<close> of \<^verbatim>\<open>n\<close> matching packets, an \<^verbatim>\<open>nth=N\<close> rule for
one of them once N have matched, and an \<^verbatim>\<open>after=N\<close> rule for all but the first N.\<close>

theorem packet_trigger_counts:
  assumes "pcounter r = 0" and "0 < pTriggerN r"
  shows "length (filter id (trigger_run n r)) =
    (case pTrigger r of
       PTriggerAlways \<Rightarrow> n
     | PTriggerNth \<Rightarrow> if pTriggerN r \<le> int n then 1 else 0
     | PTriggerAfter \<Rightarrow> n - nat (pTriggerN r)
     | PTriggerEvery \<Rightarrow> n div nat (pTriggerN r))"
proof (cases "pTrigger r")
  case PTriggerAlways
  then show ?thesis by (simp add: trigger_run_fresh [OF assms(1)] packet_fires_at_def)
next
  case PTriggerNth
  then have "{k. k < n \<and> packet_fires_at r (1 + int k)} =
    (if pTriggerN r \<le> int n then {nat (pTriggerN r) - 1} else {})"
    using assms(2) by (auto simp: packet_fires_at_def)
  then show ?thesis
    unfolding trigger_run_fresh [OF assms(1)] count_positions using PTriggerNth by simp
next
  case PTriggerAfter
  then have "{k. k < n \<and> packet_fires_at r (1 + int k)} = {nat (pTriggerN r)..<n}"
    using assms(2) by (auto simp: packet_fires_at_def)
  then show ?thesis
    unfolding trigger_run_fresh [OF assms(1)] count_positions using PTriggerAfter by simp
next
  case PTriggerEvery
  then show ?thesis
    unfolding trigger_run_fresh [OF assms(1)] count_positions
    using assms(2) multiples_below [of "nat (pTriggerN r)" n]
    by (simp add: packet_fires_at_def go_rem_pos every_position)
qed

theorem packet_trigger_counts_witness:
  "pcounter demo_prule = 0 \<and> length (filter id (trigger_run 7 demo_prule)) = 3"
  using packet_trigger_counts [of demo_prule 7] by (simp add: demo_prule_def)

section \<open>Flag specifications\<close>

lemma flag_names_plain:
  "list_all (\<lambda>(b, name). ParseFlagName name = Some b \<and> trim_space name = name \<and> name \<noteq> [] \<and>
     hd name \<noteq> CHR ''!'' \<and> \<not> is_space (hd name) \<and> CHR '','' \<notin> set name) flagNames"
  by code_simp

lemma flag_name_facts:
  assumes "(b, name) \<in> set flagNames"
  shows "ParseFlagName name = Some b" "trim_space name = name" "name \<noteq> []" "hd name \<noteq> CHR ''!''"
    "\<not> is_space (hd name)" "CHR '','' \<notin> set name"
  using flag_names_plain assms by (auto simp: list_all_iff)

definition flag_union :: "8 word \<Rightarrow> (8 word \<times> string) list \<Rightarrow> 8 word" where
  "flag_union f fs = foldr (\<lambda>(b, _) acc. (if f AND b \<noteq> 0 then b else 0) OR acc) fs 0"

lemma flag_spec_loop_collect:
  assumes "set fs \<subseteq> set flagNames"
  shows "flag_spec_loop (flag_collect f fs) st cl = Inr (st OR flag_union f fs, cl)"
  using assms
proof (induction fs arbitrary: st)
  case (Cons x fs)
  obtain b name where x: "x = (b, name)" by force
  then have m: "(b, name) \<in> set flagNames" using Cons.prems by simp
  note facts = flag_name_facts [OF m]
  have "\<not> has_prefix name ''!''" using facts(3,4) by (auto simp: has_prefix_iff)
  with Cons facts show ?case by (simp add: x flag_union_def Let_def or.assoc)
qed (simp add: flag_union_def)

lemma bit_flag_union:
  "bit (flag_union f fs) n \<longleftrightarrow> (\<exists>x\<in>set fs. f AND fst x \<noteq> 0 \<and> bit (fst x) n)"
  by (induction fs) (auto simp: flag_union_def bit_or_iff split: prod.splits)

lemma flagNames_bits: "fst ` set flagNames = (\<lambda>k. 2 ^ k) ` {..<8}"
proof -
  have "{..<8} = {0, 1, 2, 3, 4, 5, 6, 7 :: nat}" by auto
  then show ?thesis by (simp add: flagNames_def flag_defs)
qed

lemma flag_union_all: "flag_union f flagNames = f"
proof (rule bit_word_eqI)
  fix n
  assume n: "n < LENGTH(8)"
  have "bit (flag_union f flagNames) n \<longleftrightarrow> (\<exists>b\<in>fst ` set flagNames. f AND b \<noteq> 0 \<and> bit b n)"
    by (simp add: bit_flag_union)
  also have "\<dots> \<longleftrightarrow> (\<exists>k<8. bit f k \<and> bit (2 ^ k :: 8 word) n)"
    by (auto simp: flagNames_bits and_exp_eq_0_iff_not_bit)
  also have "\<dots> \<longleftrightarrow> bit f n" using n by (auto simp: bit_exp_iff)
  finally show "bit (flag_union f flagNames) n = bit f n" .
qed

lemma set_flag_collect: "set (flag_collect f fs) \<subseteq> snd ` set fs"
  by (induction f fs rule: flag_collect.induct) auto

text \<open>Printing the flags of a packet and parsing the list back gives the same mask and forbids
nothing.\<close>

theorem flag_spec_roundtrip: "ParseFlagSpec (join '','' (FlagNames flags)) = Inr (flags, 0)"
proof -
  have names: "x \<in> set (FlagNames flags) \<Longrightarrow> \<exists>b. (b, x) \<in> set flagNames" for x
    using set_flag_collect [of flags flagNames] by (force simp: FlagNames_def)
  have loop: "flag_spec_loop (FlagNames flags) 0 0 = Inr (flags, 0)"
    using flag_spec_loop_collect [of flagNames flags 0 0] by (simp add: FlagNames_def flag_union_all)
  show ?thesis
  proof (cases "FlagNames flags")
    case Nil
    then have "flags = 0" using loop by simp
    then show ?thesis using Nil by (simp add: ParseFlagSpec_def trim_space_def)
  next
    case (Cons x xs)
    then obtain b where "(b, x) \<in> set flagNames" using names [of x] by auto
    then have "x \<noteq> []" "\<not> is_space (hd x)" using flag_name_facts by blast+
    then have "trim_space (join '','' (FlagNames flags)) \<noteq> []"
      using Cons by (cases xs; cases x) (auto simp: trim_space_def)
    moreover have "split_on CHR '','' (join '','' (FlagNames flags)) = FlagNames flags"
      using Cons names flag_name_facts(6) by (intro split_on_join) auto
    ultimately show ?thesis using loop by (simp add: ParseFlagSpec_def)
  qed
qed

section \<open>Flows\<close>

lemma writeUint_show_nat: "writeUint v = show_nat v"
proof -
  have "writeUint_loop v acc = show_nat v @ acc" for acc
    by (induction v acc rule: writeUint_loop.induct)
      (subst writeUint_loop.simps, subst show_nat.simps, auto simp: Let_def)
  then show ?thesis by (simp add: writeUint_def)
qed

lemma append_cut: "c \<notin> set a \<Longrightarrow> c \<notin> set b \<Longrightarrow> a @ c # x = b @ c # y \<longleftrightarrow> a = b \<and> x = y"
  by (induction a arbitrary: b) (case_tac b; auto)+

lemma digits_free: "c \<notin> set (show_nat n)" if "\<not> is_digit c"
  using show_nat_digits [of n] that by auto

lemma flow_parts:
  assumes "CHR ''|'' \<notin> set a" "CHR ''|'' \<notin> set b" "CHR '':'' \<notin> set lo" "CHR '':'' \<notin> set lo'"
    "CHR '':'' \<notin> set hi" "CHR '':'' \<notin> set hi'"
  shows "a @ ''|'' @ lo @ '':'' @ show_nat m @ ''-'' @ hi @ '':'' @ show_nat n =
      b @ ''|'' @ lo' @ '':'' @ show_nat m' @ ''-'' @ hi' @ '':'' @ show_nat n' \<longleftrightarrow>
    a = b \<and> lo = lo' \<and> m = m' \<and> hi = hi' \<and> n = n'"
proof -
  have "\<not> is_digit CHR ''-''" by code_simp
  then show ?thesis
    using assms digits_free [of "CHR ''-''"]
    by (auto simp: append_cut show_nat_inj)
qed

text \<open>The two ends of the conversation a packet belongs to.\<close>

definition ends :: "PacketView \<Rightarrow> (string \<times> nat) multiset" where
  "ends p = {#(SrcIP p, unat (SrcPort p)), (DstIP p, unat (DstPort p))#}"

definition plain_view :: "PacketView \<Rightarrow> bool" where
  "plain_view p \<longleftrightarrow> CHR ''|'' \<notin> set (Proto p) \<and> CHR '':'' \<notin> set (SrcIP p) \<and> CHR '':'' \<notin> set (DstIP p)"

definition src_end :: "PacketView \<Rightarrow> string \<times> 16 word" where
  "src_end p = (SrcIP p, SrcPort p)"

definition dst_end :: "PacketView \<Rightarrow> string \<times> 16 word" where
  "dst_end p = (DstIP p, DstPort p)"

definition flow_text :: "Protocol \<Rightarrow> string \<times> 16 word \<Rightarrow> string \<times> 16 word \<Rightarrow> string" where
  "flow_text pr lo hi = pr @ ''|'' @ fst lo @ '':'' @ show_nat (unat (snd lo)) @ ''-'' @ fst hi @ '':'' @
     show_nat (unat (snd hi))"

lemma flow_text_eq:
  assumes "CHR ''|'' \<notin> set a" "CHR ''|'' \<notin> set b" "CHR '':'' \<notin> set (fst lo)" "CHR '':'' \<notin> set (fst lo')"
    "CHR '':'' \<notin> set (fst hi)" "CHR '':'' \<notin> set (fst hi')"
  shows "flow_text a lo hi = flow_text b lo' hi' \<longleftrightarrow> a = b \<and> lo = lo' \<and> hi = hi'"
  unfolding flow_text_def flow_parts [OF assms] by (auto simp: prod_eq_iff word_unat_eq_iff [symmetric])

lemma flowID_text: "flowID p = flow_text (Proto p) (min (src_end p) (dst_end p)) (max (src_end p) (dst_end p))"
proof (cases "dst_end p < src_end p")
  case True
  then have "SrcIP p > DstIP p \<or> SrcIP p = DstIP p \<and> SrcPort p > DstPort p"
    by (auto simp: src_end_def dst_end_def)
  moreover have "min (src_end p) (dst_end p) = dst_end p" "max (src_end p) (dst_end p) = src_end p"
    using min.absorb2 [OF less_imp_le [OF True]] max.absorb1 [OF less_imp_le [OF True]] by simp_all
  ultimately show ?thesis by (simp add: flowID_def flow_text_def src_end_def dst_end_def writeUint_show_nat)
next
  case False
  then have "\<not> (SrcIP p > DstIP p \<or> SrcIP p = DstIP p \<and> SrcPort p > DstPort p)"
    by (auto simp: src_end_def dst_end_def)
  moreover have "min (src_end p) (dst_end p) = src_end p" "max (src_end p) (dst_end p) = dst_end p"
    using min.absorb1 [OF leI [OF False]] max.absorb2 [OF leI [OF False]] by simp_all
  ultimately show ?thesis by (auto simp: flowID_def flow_text_def src_end_def dst_end_def writeUint_show_nat)
qed

lemma min_max_eq:
  fixes a b c d :: "'a::linorder"
  shows "min a b = min c d \<and> max a b = max c d \<longleftrightarrow> a = c \<and> b = d \<or> a = d \<and> b = c"
  by (auto simp: min_def max_def split: if_splits)

lemma pair_mset_eq: "{#a, b#} = {#c, d#} \<longleftrightarrow> a = c \<and> b = d \<or> a = d \<and> b = c"
  by (auto simp: add_eq_conv_ex)

text \<open>Two packets have the same flow identifier exactly when they carry the same protocol between
the same two endpoints, in whichever direction each of them travels.\<close>

theorem flow_identifies_conversation:
  assumes "plain_view p" and "plain_view q"
  shows "flowID p = flowID q \<longleftrightarrow> Proto p = Proto q \<and> ends p = ends q"
proof -
  let ?lo = "\<lambda>p. min (src_end p) (dst_end p)" and ?hi = "\<lambda>p. max (src_end p) (dst_end p)"
  have plain: "CHR ''|'' \<notin> set (Proto p) \<and> CHR '':'' \<notin> set (fst (?lo p)) \<and> CHR '':'' \<notin> set (fst (?hi p))"
    if "plain_view p" for p
    using that by (simp add: plain_view_def src_end_def dst_end_def min_def max_def)
  have "flowID p = flowID q \<longleftrightarrow> Proto p = Proto q \<and> ?lo p = ?lo q \<and> ?hi p = ?hi q"
    using plain [OF assms(1)] plain [OF assms(2)]
    by (simp add: flowID_text flow_text_eq)
  also have "?lo p = ?lo q \<and> ?hi p = ?hi q \<longleftrightarrow> ends p = ends q"
    by (auto simp: min_max_eq ends_def pair_mset_eq src_end_def dst_end_def word_unat_eq_iff [symmetric])
  finally show ?thesis .
qed

definition reply :: "PacketView \<Rightarrow> PacketView" where
  "reply p = p\<lparr>Dir := DirS2C, SrcIP := DstIP p, DstIP := SrcIP p, SrcPort := DstPort p, DstPort := SrcPort p\<rparr>"

theorem flow_identifies_conversation_witness:
  "plain_view demo_packet \<and> plain_view (reply demo_packet) \<and> flowID demo_packet = flowID (reply demo_packet)"
proof -
  have "plain_view demo_packet" "plain_view (reply demo_packet)"
    by (simp_all add: plain_view_def reply_def demo_packet_def)
  moreover have "ends demo_packet = ends (reply demo_packet)" "Proto demo_packet = Proto (reply demo_packet)"
    by (simp_all add: ends_def reply_def add_mset_commute)
  ultimately show ?thesis using flow_identifies_conversation by blast
qed

section \<open>A probability that is not a number\<close>

text \<open>Validation rejects a probability by comparing it with zero and one, so it accepts one that is not a
number; such a rule never acts unless the plan pins it.\<close>

lemma nan_probability_accepted:
  "Validate dur flo (demo_prule\<lparr>pProbability := NaN\<rparr>) = None"
  "\<not> fst (consult None p (r\<lparr>pProbability := NaN\<rparr>) g)"
proof -
  show "Validate dur flo (demo_prule\<lparr>pProbability := NaN\<rparr>) = None"
    by (simp add: Validate_def action_error_def demo_prule_def)
  have "\<not> fst (rollProbability r' g None)" if "pProbability r' = NaN" for r'
    using that by (auto simp: rollProbability_def fle_def Let_def split: option.split)
  moreover have "pProbability r1 = NaN" if "shouldTrigger (r\<lparr>pProbability := NaN\<rparr>) = (due, r1)" for due r1
    using that by (auto simp: shouldTrigger_def Let_def)
  ultimately show "\<not> fst (consult None p (r\<lparr>pProbability := NaN\<rparr>) g)"
    unfolding consult_def Let_def by (auto split: prod.splits) (metis fst_conv)
qed

end
