(* ===== verification/Gateway.thy ===== *)
theory Gateway
  imports Packet_Rule "HOL-Library.AList"
begin

text \<open>The packet gateway, \<^verbatim>\<open>internal/netfault/alloc.go\<close>, \<^verbatim>\<open>gateway.go\<close> and the device names of
\<^verbatim>\<open>reap_linux.go\<close>: one address per (consumer, service, interface), rule sets installed per triple and
flattened onto the one link.

The CIDR parser is an argument. Shown: within a /16 the allocator never gives one address to two
triples and repeats itself for a triple it has seen; flattening keeps every installed rule, ordered by
key; device names round-trip. Also shown: narrower subnets leave their range, rules installed without a
consumer act on every interface, and rules installed for a consumer never act on replies.\<close>

section \<open>Addresses\<close>

definition nul :: string where
  "nul = [CHR 0x00]"

record GatewayAddr =
  Consumer :: string
  GService :: string
  GInterface :: string
  IP :: string
  GPort :: int
  Upstream :: string

definition ga_Addr :: "GatewayAddr \<Rightarrow> string" where
  "ga_Addr a = IP a @ '':'' @ show_int (GPort a)"

definition triple_key :: "string \<Rightarrow> string \<Rightarrow> string \<Rightarrow> string" where
  "triple_key consumer service iface = consumer @ nul @ service @ nul @ iface"

definition ga_key :: "GatewayAddr \<Rightarrow> string" where
  "ga_key a = triple_key (Consumer a) (GService a) (GInterface a)"

record addrAllocator =
  base :: "8 word list"
  ones :: nat
  bits :: nat
  byKey :: "string \<rightharpoonup> GatewayAddr"
  nextID :: int

definition dotted :: "8 word list \<Rightarrow> string" where
  "dotted v = join ''.'' (map (\<lambda>b. show_nat (unat b)) v)"

text \<open>What \<^verbatim>\<open>net.ParseCIDR\<close> gives for a network in IPv4 notation: the masked address and the prefix
length; \<^const>\<open>Inl\<close> for text it rejects, and no address for IPv6.\<close>

definition newAddrAllocator ::
  "(string \<Rightarrow> (8 word list option \<times> nat \<times> nat) res) \<Rightarrow> string \<Rightarrow> addrAllocator res" where
  "newAddrAllocator parseCIDR cidr =
    (case parseCIDR cidr of
       Inl e \<Rightarrow> Inl (''parse gateway subnet '' @ go_quote cidr @ '': '' @ e)
     | Inr (None, _, _) \<Rightarrow> Inl (''gateway subnet '' @ go_quote cidr @ '' must be IPv4'')
     | Inr (Some v4, o1, b1) \<Rightarrow>
         if int b1 - int o1 < 8 then
           Inl (''gateway subnet '' @ go_quote cidr @ '' is too small; need at least a /24'')
         else Inr \<lparr>base = v4, ones = o1, bits = b1, byKey = Map.empty, nextID = 2\<rparr>)"

definition ipForOffset :: "addrAllocator \<Rightarrow> int \<Rightarrow> string" where
  "ipForOffset a n = dotted ((take 4 (base a @ replicate 4 0))[3 := word_of_int n, 2 := word_of_int (n div 256)])"

definition hostIP :: "addrAllocator \<Rightarrow> string" where
  "hostIP a = ipForOffset a 1"

definition allocate ::
  "string \<Rightarrow> string \<Rightarrow> string \<Rightarrow> int \<Rightarrow> string \<Rightarrow> addrAllocator \<Rightarrow> GatewayAddr res \<times> addrAllocator" where
  "allocate consumer service iface port upstream a =
    (case byKey a (triple_key consumer service iface) of
       Some existing \<Rightarrow> (Inr existing, a)
     | None \<Rightarrow>
         let maxHosts = 2 ^ (bits a - ones a) - 2 in
         if maxHosts < nextID a then
           (Inl (''gateway subnet exhausted after '' @ show_int maxHosts @
              '' addresses; widen the subnet or reduce the number of faulted interfaces''), a)
         else
           let ga = \<lparr>Consumer = consumer, GService = service, GInterface = iface, IP = ipForOffset a (nextID a),
                     GPort = port, Upstream = upstream\<rparr>
           in (Inr ga, a\<lparr>nextID := nextID a + 1, byKey := (byKey a)(ga_key ga \<mapsto> ga)\<rparr>))"

definition ga_lookup :: "string \<Rightarrow> string \<Rightarrow> string \<Rightarrow> addrAllocator \<Rightarrow> GatewayAddr option" where
  "ga_lookup consumer service iface a = byKey a (triple_key consumer service iface)"

text \<open>\<^verbatim>\<open>forIP\<close>, for the order in which Go walks the map.\<close>

fun forIP :: "string list \<Rightarrow> string \<Rightarrow> addrAllocator \<Rightarrow> GatewayAddr option" where
  "forIP [] ip a = None"
| "forIP (k # ks) ip a =
    (case byKey a k of
       Some ga \<Rightarrow> if IP ga = ip then Some ga else forIP ks ip a
     | None \<Rightarrow> forIP ks ip a)"

definition all_addrs :: "string list \<Rightarrow> addrAllocator \<Rightarrow> GatewayAddr list" where
  "all_addrs order a = sort_key IP (List.map_filter (byKey a) order)"

section \<open>Device names\<close>

definition DevicePrefix :: string where
  "DevicePrefix = ''fbox''"

definition deviceNameFor :: "int \<Rightarrow> string" where
  "deviceNameFor pid = DevicePrefix @ show_int pid"

definition parseDeviceName :: "string \<Rightarrow> int option" where
  "parseDeviceName name =
    (if \<not> has_prefix name DevicePrefix \<or> trim_prefix name DevicePrefix = [] then None
     else
       let rest = trim_prefix name DevicePrefix in
       if \<not> list_all is_digit rest then None
       else case atoi rest of
         Inl _ \<Rightarrow> None
       | Inr pid \<Rightarrow> if pid \<le> 0 then None else Some pid)"

text \<open>Device names round-trip, and only names that the gateway gives out are recognised.\<close>

lemma device_name_roundtrip: "0 < pid \<Longrightarrow> pid < 2 ^ 63 \<Longrightarrow> parseDeviceName (deviceNameFor pid) = Some pid"
  using atoi_show_nat [of "nat pid"] show_nat_digits [of "nat pid"]
  by (simp add: parseDeviceName_def deviceNameFor_def show_int_def Let_def list_all_iff)

section \<open>Distinct addresses\<close>

lemma dotted_inj:
  assumes "length v = length w" "v \<noteq> []"
  shows "dotted v = dotted w \<longleftrightarrow> v = w"
proof
  have dot: "CHR ''.'' \<notin> set (show_nat n)" for n
    using show_nat_digits [of n] by (auto simp: is_digit_def)
  have parts: "split_on CHR ''.'' (dotted v) = map (\<lambda>b. show_nat (unat b)) v" if "v \<noteq> []" for v :: "8 word list"
    unfolding dotted_def using that dot by (intro split_on_join) auto
  assume "dotted v = dotted w"
  then have "map (\<lambda>b. show_nat (unat b)) v = map (\<lambda>b. show_nat (unat b)) w"
    using parts [of v] parts [of w] assms by (metis length_0_conv)
  then show "v = w"
    by (rule map_injective) (auto simp: inj_def show_nat_inj word_unat_eq_iff)
qed simp

lemma byte_eq: "(word_of_int n :: 8 word) = word_of_int m \<longleftrightarrow> n mod 256 = m mod 256"
  by (simp add: word_of_int_eq_iff take_bit_eq_mod)

lemma byte_pair_inj:
  assumes "0 \<le> n" "n < 65536" "0 \<le> m" "m < 65536"
    "(word_of_int n :: 8 word) = word_of_int m" "(word_of_int (n div 256) :: 8 word) = word_of_int (m div 256)"
  shows "n = m"
proof -
  have "n mod 256 = m mod 256" "(n div 256) mod 256 = (m div 256) mod 256"
    using assms(5,6) by (simp_all only: byte_eq)
  moreover have "(k div 256) mod 256 = k div 256" if "0 \<le> k" "k < 65536" for k :: int
    using that zdiv_mono1 [of k 65535 256] by (intro mod_pos_pos_trivial) simp_all
  ultimately have "n mod 256 = m mod 256" "n div 256 = m div 256" using assms(1-4) by simp_all
  then show ?thesis by (metis div_mult_mod_eq)
qed

lemma ipForOffset_inj:
  assumes "0 \<le> n" "n < 65536" "0 \<le> m" "m < 65536" "ipForOffset a n = ipForOffset a m"
  shows "n = m"
proof -
  let ?v = "take 4 (base a @ replicate 4 0)"
  have len: "length ?v = 4" by simp
  let ?w = "\<lambda>n. ?v[3 := word_of_int n, 2 := word_of_int (n div 256)] :: 8 word list"
  have "length (?w n) = 4" using len by (simp only: length_list_update)
  then have "?w n \<noteq> []" by (metis length_0_conv zero_neq_numeral)
  then have "?w n = ?w m" using assms(5) dotted_inj [of "?w n" "?w m"] by (simp add: ipForOffset_def)
  then have "?w n ! 3 = ?w m ! 3" "?w n ! 2 = ?w m ! 2" by simp_all
  then show ?thesis using assms(1-4) len by (intro byte_pair_inj) (simp_all)
qed

text \<open>The allocator after a sequence of requests.\<close>

fun alloc_run :: "(string \<times> string \<times> string \<times> int \<times> string) list \<Rightarrow> addrAllocator \<Rightarrow> addrAllocator" where
  "alloc_run [] a = a"
| "alloc_run ((c, s, i, p, u) # rs) a = alloc_run rs (snd (allocate c s i p u a))"

definition alloc_inv :: "addrAllocator \<Rightarrow> (string \<Rightarrow> int) \<Rightarrow> bool" where
  "alloc_inv a off \<longleftrightarrow> 2 \<le> nextID a \<and> nextID a \<le> 2 ^ (bits a - ones a) - 1 \<and> inj_on off (dom (byKey a)) \<and>
     (\<forall>k ga. byKey a k = Some ga \<longrightarrow> k = ga_key ga \<and> 2 \<le> off k \<and> off k < nextID a \<and> IP ga = ipForOffset a (off k))"

lemma ipForOffset_cong: "base a = base b \<Longrightarrow> ipForOffset a = ipForOffset b"
  by (simp add: ipForOffset_def fun_eq_iff)

lemma alloc_inv_step:
  assumes "alloc_inv a off"
  obtains off' where "alloc_inv (snd (allocate c s i p u a)) off'"
proof (cases "byKey a (triple_key c s i) = None \<and> nextID a \<le> 2 ^ (bits a - ones a) - 2")
  case True
  let ?k = "triple_key c s i"
  let ?ga = "\<lparr>Consumer = c, GService = s, GInterface = i, IP = ipForOffset a (nextID a), GPort = p, Upstream = u\<rparr>"
  have r: "snd (allocate c s i p u a) = a\<lparr>nextID := nextID a + 1, byKey := (byKey a)(?k \<mapsto> ?ga)\<rparr>"
    using True by (simp add: allocate_def ga_key_def Let_def)
  have old: "off k < nextID a" if "byKey a k = Some ga" for k ga using assms that by (simp add: alloc_inv_def)
  have "inj_on (off(?k := nextID a)) (insert ?k (dom (byKey a)))"
  proof -
    have new: "nextID a \<notin> off ` dom (byKey a)" using old by (metis domD imageE less_irrefl)
    moreover have "?k \<notin> dom (byKey a)" using True by auto
    ultimately show ?thesis
      using assms inj_on_fun_updI [OF _ new, of ?k] by (auto simp: alloc_inv_def inj_on_insert)
  qed
  moreover have "ipForOffset (a\<lparr>nextID := nextID a + 1, byKey := (byKey a)(?k \<mapsto> ?ga)\<rparr>) = ipForOffset a"
    by (rule ipForOffset_cong) simp
  ultimately have "alloc_inv (snd (allocate c s i p u a)) (off(?k := nextID a))"
    using assms True unfolding r by (auto simp: alloc_inv_def ga_key_def intro: less_imp_le old)
  then show ?thesis using that by blast
next
  case False
  then have "snd (allocate c s i p u a) = a"
    by (auto simp: allocate_def Let_def split: option.splits)
  then show ?thesis using that assms by auto
qed

lemma alloc_inv_run: "alloc_inv a off \<Longrightarrow> \<exists>off'. alloc_inv (alloc_run rs a) off'"
proof (induction rs a arbitrary: off rule: alloc_run.induct)
  case (2 c s i p u rs a)
  then show ?case using alloc_inv_step [OF "2.prems"] by (metis alloc_run.simps(2))
qed auto

lemma alloc_run_shape [simp]:
  "base (alloc_run rs a) = base a" "ones (alloc_run rs a) = ones a" "bits (alloc_run rs a) = bits a"
  by (induction rs a rule: alloc_run.induct) (auto simp: allocate_def Let_def split: option.splits)

text \<open>Whatever is requested, in whatever order: a gateway network of at most sixteen host bits gives
different triples different addresses, and none of them that of the host side.\<close>

theorem gateway_addresses_distinct:
  assumes "newAddrAllocator parseCIDR cidr = Inr a" and "bits a - ones a \<le> 16"
    and "byKey (alloc_run rs a) k = Some g" and "byKey (alloc_run rs a) k' = Some g'"
  shows "(IP g = IP g' \<longrightarrow> k = k') \<and> IP g \<noteq> hostIP a \<and> k = ga_key g"
proof -
  have a: "byKey a = Map.empty" "nextID a = 2" "8 \<le> bits a - ones a"
    using assms(1) by (auto simp: newAddrAllocator_def split: sum.splits option.splits if_splits)
  have "(2::int) ^ 8 \<le> 2 ^ (bits a - ones a)" using a(3) by (intro power_increasing) simp_all
  then have "alloc_inv a (\<lambda>_. 0)" using a by (simp add: alloc_inv_def)
  then obtain off where off: "alloc_inv (alloc_run rs a) off" using alloc_inv_run by blast
  have "(2::int) ^ (bits a - ones a) \<le> 2 ^ 16" using assms(2) by (intro power_increasing) simp_all
  then have small: "2 \<le> off k \<and> off k < 65536" if "byKey (alloc_run rs a) k = Some g" for k g
    using off that by (force simp: alloc_inv_def)
  have ip: "IP g = ipForOffset a (off k)" if "byKey (alloc_run rs a) k = Some g" for k g
    using off that ipForOffset_cong [of "alloc_run rs a" a] by (auto simp: alloc_inv_def)
  have "k = k'" if "IP g = IP g'"
  proof -
    have "off k = off k'"
      using that ip [OF assms(3)] ip [OF assms(4)] small [OF assms(3)] small [OF assms(4)]
      by (intro ipForOffset_inj [of _ _ a]) auto
    then show ?thesis using off assms(3,4) by (auto simp: alloc_inv_def inj_on_def)
  qed
  moreover have "IP g \<noteq> hostIP a"
    using ip [OF assms(3)] small [OF assms(3)] ipForOffset_inj [of "off k" 1 a] by (auto simp: hostIP_def)
  moreover have "k = ga_key g" using off assms(3) by (simp add: alloc_inv_def)
  ultimately show ?thesis by blast
qed

definition demo_cidr :: "string \<Rightarrow> (8 word list option \<times> nat \<times> nat) res" where
  "demo_cidr s = (if s = ''10.99.0.0/16'' then Inr (Some [10, 99, 0, 0], 16, 32)
     else if s = ''192.168.5.0/24'' then Inr (Some [192, 168, 5, 0], 24, 32) else Inl ''invalid CIDR address'')"

definition demo_alloc :: addrAllocator where
  "demo_alloc = \<lparr>base = [10, 99, 0, 0], ones = 16, bits = 32, byKey = Map.empty, nextID = 2\<rparr>"

definition demo_requests :: "(string \<times> string \<times> string \<times> int \<times> string) list" where
  "demo_requests = [(''api'', ''db'', ''main'', 5432, ''h:1''), (''api'', ''cache'', ''main'', 6379, ''h:2'')]"

lemma demo_addresses:
  "map_option IP (byKey (alloc_run demo_requests demo_alloc) (triple_key ''api'' ''db'' ''main'')) = Some ''10.99.0.2''"
  "map_option IP (byKey (alloc_run demo_requests demo_alloc) (triple_key ''api'' ''cache'' ''main'')) = Some ''10.99.0.3''"
  by code_simp+

theorem gateway_addresses_distinct_witness:
  "\<exists>g g'. newAddrAllocator demo_cidr ''10.99.0.0/16'' = Inr demo_alloc \<and>
     byKey (alloc_run demo_requests demo_alloc) (triple_key ''api'' ''db'' ''main'') = Some g \<and>
     byKey (alloc_run demo_requests demo_alloc) (triple_key ''api'' ''cache'' ''main'') = Some g' \<and>
     IP g \<noteq> IP g' \<and> IP g \<noteq> hostIP demo_alloc"
proof -
  have new: "newAddrAllocator demo_cidr ''10.99.0.0/16'' = Inr demo_alloc"
    by (simp add: newAddrAllocator_def demo_cidr_def demo_alloc_def)
  obtain g g' where g: "byKey (alloc_run demo_requests demo_alloc) (triple_key ''api'' ''db'' ''main'') = Some g"
    "byKey (alloc_run demo_requests demo_alloc) (triple_key ''api'' ''cache'' ''main'') = Some g'"
    using demo_addresses by auto
  have "triple_key ''api'' ''db'' ''main'' \<noteq> triple_key ''api'' ''cache'' ''main''"
    by (simp add: triple_key_def nul_def)
  with gateway_addresses_distinct [OF new _ g] g new show ?thesis by (auto simp: demo_alloc_def)
qed

text \<open>A narrower network leaves its own range, because the third byte is overwritten; in a wider one
offsets that differ by a multiple of 65536 share an address.\<close>

lemma narrow_subnet_escapes:
  "map_option IP (byKey (snd (allocate ''api'' ''db'' ''main'' 5432 ''h:1''
     \<lparr>base = [192, 168, 5, 0], ones = 24, bits = 32, byKey = Map.empty, nextID = 2\<rparr>))
     (triple_key ''api'' ''db'' ''main'')) = Some ''192.168.0.2''"
  by code_simp

lemma wide_subnet_aliases: "ipForOffset a (n + 65536) = ipForOffset a n"
proof -
  have "n + 65536 = n + 256 * 256" by simp
  then have "(n + 65536) mod 256 = n mod 256" "(n + 65536) div 256 = 256 + n div 256"
    by (simp_all only: mod_mult_self2 div_mult_self2)
  then have "(word_of_int (n + 65536) :: 8 word) = word_of_int n" "(word_of_int ((n + 65536) div 256) :: 8 word) = word_of_int (n div 256)"
    unfolding byte_eq by simp_all
  then show ?thesis by (simp only: ipForOffset_def)
qed

section \<open>Installing rules\<close>

text \<open>\<^verbatim>\<open>sortStrings\<close>: the insertion sort of the source.\<close>

fun sift_left :: "string list \<Rightarrow> nat \<Rightarrow> string list" where
  "sift_left s 0 = s"
| "sift_left s (Suc j) =
    (if s ! Suc j < s ! j then sift_left (s[Suc j := s ! j, j := s ! Suc j]) j else s)"

fun sort_from :: "nat list \<Rightarrow> string list \<Rightarrow> string list" where
  "sort_from [] s = s"
| "sort_from (i # is) s = sort_from is (sift_left s i)"

definition sortStrings :: "string list \<Rightarrow> string list" where
  "sortStrings s = sort_from [1..<length s] s"

lemma insort_last: "sorted (xs @ [y]) \<Longrightarrow> x < y \<Longrightarrow> insort x (xs @ [y]) = insort x xs @ [y]"
  for x :: "'a::linorder"
  by (induction xs) (auto simp: sorted_append)

lemma insort_max: "sorted xs \<Longrightarrow> \<forall>z\<in>set xs. z \<le> x \<Longrightarrow> insort x xs = xs @ [x]" for x :: "'a::linorder"
proof (induction xs)
  case (Cons y ys)
  then show ?case using insort_is_Cons [of ys "\<lambda>z. z" x] by (cases "x = y") auto
qed simp

lemma sift_left_insort:
  "sorted as \<Longrightarrow> sift_left (as @ x # bs) (length as) = insort x as @ bs"
proof (induction as arbitrary: bs rule: rev_induct)
  case (snoc y as)
  have swap: "(as @ y # x # bs)[Suc (length as) := y, length as := x] = as @ x # y # bs"
    by (simp add: list_update_append)
  show ?case
  proof (cases "x < y")
    case True
    then have "sift_left ((as @ [y]) @ x # bs) (length (as @ [y])) = sift_left (as @ x # y # bs) (length as)"
      using swap by (simp add: nth_append)
    also have "\<dots> = insort x as @ y # bs" using snoc by (simp add: sorted_append)
    finally show ?thesis using insort_last [OF snoc.prems True] by simp
  next
    case False
    then have "\<forall>z\<in>set (as @ [y]). z \<le> x" using snoc.prems by (auto simp: sorted_append intro: order.trans)
    then show ?thesis using False insort_max [OF snoc.prems, of x] by (simp add: nth_append)
  qed
qed simp

lemma sort_from_sorts:
  "i \<le> length s \<Longrightarrow> sorted (take i s) \<Longrightarrow> sort_from [i..<length s] s = sort s"
proof (induction "length s - i" arbitrary: i s)
  case 0
  then show ?case by (simp add: sorted_sort_id)
next
  case (Suc n)
  then have i: "i < length s" by simp
  let ?t = "sift_left s i"
  have "s = take i s @ s ! i # drop (Suc i) s" using i by (rule id_take_nth_drop)
  then have t: "?t = insort (s ! i) (take i s) @ drop (Suc i) s"
    using sift_left_insort [OF Suc.prems(2), of "s ! i" "drop (Suc i) s"] i by simp
  then have len: "length ?t = length s" using i by simp
  have "mset ?t = mset s"
    unfolding t by (subst (3) id_take_nth_drop [OF i]) simp
  moreover have "sorted (take (Suc i) ?t)" unfolding t using i Suc.prems(2) by (simp add: sorted_insort)
  ultimately have "sort_from [Suc i..<length ?t] ?t = sort ?t"
    using Suc.hyps(1) [of ?t "Suc i"] Suc.hyps(2) i len by simp
  also have "sort ?t = sort s" using \<open>mset ?t = mset s\<close> by (metis properties_for_sort sorted_sort mset_sort)
  finally show ?case using i len by (simp add: upt_conv_Cons del: upt_Suc)
qed

lemma sortStrings_sort: "sortStrings s = sort s"
proof (cases s)
  case (Cons x xs)
  then have "1 \<le> length s" "sorted (take 1 s)" by simp_all
  then show ?thesis using sort_from_sorts [of 1 s] by (simp only: sortStrings_def)
qed (simp add: sortStrings_def)

text \<open>The gateway: rule sets per triple, in the order of the map's entries, and the rules that the endpoint
uses once it is there. Rules are shared by reference in the source; here a published rule is the
installed one.\<close>

record Gateway =
  alloc :: addrAllocator
  grules :: "(string \<times> PRule list) list"
  endpoint :: "PRule list option option"

definition republish :: "(int \<Rightarrow> string) \<Rightarrow> (float64 \<Rightarrow> string) \<Rightarrow> Gateway \<Rightarrow> Gateway" where
  "republish dur flo g =
    (let keys = sortStrings (map fst (grules g));
         rules = concat (map (\<lambda>k. case map_of (grules g) k of Some rs \<Rightarrow> rs | None \<Rightarrow> []) keys)
     in case endpoint g of
          None \<Rightarrow> g
        | Some _ \<Rightarrow>
            if rules = [] then g\<lparr>endpoint := Some None\<rparr>
            else case NewRuleSet dur flo rules of
              Inl _ \<Rightarrow> g
            | Inr rs \<Rightarrow> g\<lparr>endpoint := Some (Some rs)\<rparr>)"

definition scope_rule :: "GatewayAddr \<Rightarrow> PRule \<Rightarrow> PRule" where
  "scope_rule ga r =
    r\<lparr>pMatch := (pMatch r)\<lparr>mPort := (if mPort (pMatch r) = 0 then word_of_int (GPort ga) else mPort (pMatch r)),
                            mDstIP := IP ga\<rparr>\<rparr>"

definition InstallRules ::
  "(int \<Rightarrow> string) \<Rightarrow> (float64 \<Rightarrow> string) \<Rightarrow> string \<Rightarrow> string \<Rightarrow> string \<Rightarrow> PRule list \<Rightarrow> Gateway \<Rightarrow> Gateway res" where
  "InstallRules dur flo consumer service iface rules g =
    (case NewRuleSet dur flo rules of
       Inl e \<Rightarrow> Inl e
     | Inr rs \<Rightarrow>
         if consumer \<noteq> [] then
           (case ga_lookup consumer service iface (alloc g) of
              None \<Rightarrow>
                Inl (''no gateway address for consumer '' @ go_quote consumer @ '' of '' @ service @ ''.'' @ iface @
                  ''; does '' @ go_quote consumer @ '' actually reach that interface?'')
            | Some ga \<Rightarrow>
                Inr (republish dur flo (g\<lparr>grules :=
                  AList.update (triple_key consumer service iface) (map (scope_rule ga) rs) (grules g)\<rparr>)))
         else
           Inr (republish dur flo (g\<lparr>grules := AList.update (triple_key consumer service iface) rs (grules g)\<rparr>)))"

definition gw_ClearRules ::
  "(int \<Rightarrow> string) \<Rightarrow> (float64 \<Rightarrow> string) \<Rightarrow> string \<Rightarrow> string \<Rightarrow> string \<Rightarrow> Gateway \<Rightarrow> Gateway" where
  "gw_ClearRules dur flo consumer service iface g =
    republish dur flo (g\<lparr>grules := AList.delete (triple_key consumer service iface) (grules g)\<rparr>)"

section \<open>What is published\<close>

definition published :: "Gateway \<Rightarrow> PRule list" where
  "published g = (case endpoint g of Some (Some rs) \<Rightarrow> rs | _ \<Rightarrow> [])"

lemma first_invalid_None: "first_invalid v i rs = None \<longleftrightarrow> (\<forall>r\<in>set rs. v r = None)"
  by (induction v i rs rule: first_invalid.induct) (auto split: option.splits)

lemma NewRuleSet_Inr: "NewRuleSet dur flo rs = Inr rs' \<longleftrightarrow> rs' = rs \<and> (\<forall>r\<in>set rs. Validate dur flo r = None)"
  using first_invalid_None [of "Validate dur flo" 0 rs]
  by (cases "first_invalid (Validate dur flo) 0 rs") (auto simp: NewRuleSet_def)

lemma Validate_scope: "Validate dur flo (scope_rule ga r) = Validate dur flo r"
proof -
  have f: "pAction (scope_rule ga r) = pAction r" "mProto (pMatch (scope_rule ga r)) = mProto (pMatch r)"
    "pDelay (scope_rule ga r) = pDelay r" "ReorderBy (scope_rule ga r) = ReorderBy r"
    "DuplicateCount (scope_rule ga r) = DuplicateCount r" "CorruptLength (scope_rule ga r) = CorruptLength r"
    "CorruptOffset (scope_rule ga r) = CorruptOffset r" "CorruptMode (scope_rule ga r) = CorruptMode r"
    "Checksum (scope_rule ga r) = Checksum r" "pProbability (scope_rule ga r) = pProbability r"
    "pMaxFires (scope_rule ga r) = pMaxFires r" "pMode (scope_rule ga r) = pMode r"
    "pTrigger (scope_rule ga r) = pTrigger r" "pTriggerN (scope_rule ga r) = pTriggerN r"
    by (simp_all add: scope_rule_def)
  show ?thesis unfolding Validate_def action_error_def f ..
qed

text \<open>The rule sets of a gateway have distinct keys and hold valid rules.\<close>

definition gw_inv :: "(int \<Rightarrow> string) \<Rightarrow> (float64 \<Rightarrow> string) \<Rightarrow> Gateway \<Rightarrow> bool" where
  "gw_inv dur flo g \<longleftrightarrow> distinct (map fst (grules g)) \<and>
     (\<forall>k rs. (k, rs) \<in> set (grules g) \<longrightarrow> (\<forall>r\<in>set rs. Validate dur flo r = None))"

lemma republish_grules [simp]: "grules (republish dur flo g) = grules g" "alloc (republish dur flo g) = alloc g"
  "endpoint (republish dur flo g) = None \<longleftrightarrow> endpoint g = None"
  by (auto simp: republish_def Let_def split: option.splits sum.splits)

lemma republish_published:
  assumes "gw_inv dur flo g" "endpoint g \<noteq> None"
  shows "published (republish dur flo g) =
    concat (map (\<lambda>k. case map_of (grules g) k of Some rs \<Rightarrow> rs | None \<Rightarrow> []) (sort (map fst (grules g))))"
proof -
  let ?rules = "concat (map (\<lambda>k. case map_of (grules g) k of Some rs \<Rightarrow> rs | None \<Rightarrow> []) (sort (map fst (grules g))))"
  have "\<forall>r\<in>set ?rules. Validate dur flo r = None"
    using assms(1) by (auto simp: gw_inv_def split: option.splits dest!: map_of_SomeD)
  then have "NewRuleSet dur flo ?rules = Inr ?rules" by (simp add: NewRuleSet_Inr)
  then show ?thesis
    using assms(2) by (auto simp: republish_def published_def sortStrings_sort Let_def split: option.splits)
qed

lemma set_update: "x \<in> set (AList.update k v al) \<Longrightarrow> x = (k, v) \<or> x \<in> set al"
  by (induction al) (auto split: if_splits)

lemma update_inv:
  assumes "gw_inv dur flo g" "\<forall>r\<in>set rs. Validate dur flo r = None"
  shows "gw_inv dur flo (g\<lparr>grules := AList.update k rs (grules g)\<rparr>)"
  using assms unfolding gw_inv_def
  by (auto simp: distinct_update dest: set_update)

lemma InstallRules_cases:
  assumes "InstallRules dur flo consumer service iface rules g = Inr g'"
  obtains rs where "g' = republish dur flo (g\<lparr>grules := AList.update (triple_key consumer service iface) rs (grules g)\<rparr>)"
    "\<forall>r\<in>set rs. Validate dur flo r = None"
    "consumer = [] \<Longrightarrow> rs = rules"
    "consumer \<noteq> [] \<Longrightarrow> \<exists>ga. ga_lookup consumer service iface (alloc g) = Some ga \<and> rs = map (scope_rule ga) rules"
  using assms
  by (auto simp: InstallRules_def NewRuleSet_Inr Validate_scope split: sum.splits if_splits option.splits)

lemma hits_destination: "hits r p \<Longrightarrow> mDstIP (pMatch r) \<noteq> [] \<Longrightarrow> DstIP p = mDstIP (pMatch r)"
proof (rule ccontr)
  assume "hits r p" "mDstIP (pMatch r) \<noteq> []" "DstIP p \<noteq> mDstIP (pMatch r)"
  then have "\<not> matchesDeclarative (pMatch r) p" by (simp add: matchesDeclarative_def)
  then show False using \<open>hits r p\<close> by (simp add: hits_def pkt_Matches_def)
qed

text \<open>C34. Installing rules for a consumer publishes exactly those rules, in their place by key, beside the
rules of all other triples in unchanged order; and each of them acts only on packets whose destination
is the address allocated to that consumer and interface.\<close>

theorem installed_rules_scoped:
  assumes "gw_inv dur flo g" and "endpoint g \<noteq> None" and "consumer \<noteq> []"
    and "InstallRules dur flo consumer service iface rules g = Inr g'"
  shows "\<exists>ga. ga_lookup consumer service iface (alloc g) = Some ga \<and>
    map_of (grules g') (triple_key consumer service iface) = Some (map (scope_rule ga) rules) \<and>
    (\<forall>k. k \<noteq> triple_key consumer service iface \<longrightarrow> map_of (grules g') k = map_of (grules g) k) \<and>
    published g' = concat (map (\<lambda>k. case map_of (grules g') k of Some rs \<Rightarrow> rs | None \<Rightarrow> []) (sort (map fst (grules g')))) \<and>
    (\<forall>r\<in>set (map (scope_rule ga) rules). \<forall>p. hits r p \<longrightarrow> DstIP p = IP ga \<or> IP ga = [])"
proof -
  from InstallRules_cases [OF assms(4)] obtain rs where
    g': "g' = republish dur flo (g\<lparr>grules := AList.update (triple_key consumer service iface) rs (grules g)\<rparr>)"
      "\<forall>r\<in>set rs. Validate dur flo r = None"
      "\<exists>ga. ga_lookup consumer service iface (alloc g) = Some ga \<and> rs = map (scope_rule ga) rules"
    using assms(3) by metis
  then obtain ga where ga: "ga_lookup consumer service iface (alloc g) = Some ga" "rs = map (scope_rule ga) rules" by blast
  have "published g' = concat (map (\<lambda>k. case map_of (grules g') k of Some rs \<Rightarrow> rs | None \<Rightarrow> []) (sort (map fst (grules g'))))"
    using republish_published [OF update_inv [OF assms(1) g'(2)]] assms(2) by (simp add: g'(1))
  moreover have "hits r p \<longrightarrow> DstIP p = IP ga \<or> IP ga = []" if r: "r \<in> set (map (scope_rule ga) rules)" for r p
  proof -
    from r obtain r0 where "r = scope_rule ga r0" by auto
    then have "mDstIP (pMatch r) = IP ga" by (simp add: scope_rule_def)
    then show ?thesis using hits_destination [of r p] by auto
  qed
  moreover have "map_of (grules g') = (map_of (grules g))(triple_key consumer service iface \<mapsto> rs)"
    by (simp add: g'(1) update_conv')
  ultimately show ?thesis using ga by (intro exI [of _ ga]) simp
qed

definition demo_gateway :: Gateway where
  "demo_gateway = \<lparr>alloc = alloc_run demo_requests demo_alloc, grules = [], endpoint = Some None\<rparr>"

lemma demo_prule_valid: "Validate dur flo demo_prule = None"
  by (simp add: Validate_def action_error_def demo_prule_def fle_def)

lemma demo_gateway_inv: "gw_inv dur flo demo_gateway" "endpoint demo_gateway \<noteq> None"
  by (simp_all add: gw_inv_def demo_gateway_def)

lemma demo_install:
  "\<exists>g'. InstallRules dur flo ''api'' ''db'' ''main'' [demo_prule] demo_gateway = Inr g'"
proof -
  obtain ga where "ga_lookup ''api'' ''db'' ''main'' (alloc demo_gateway) = Some ga"
    using demo_addresses by (auto simp: ga_lookup_def demo_gateway_def)
  moreover have "NewRuleSet dur flo [demo_prule] = Inr [demo_prule]" by (simp add: NewRuleSet_Inr demo_prule_valid)
  ultimately show ?thesis by (simp add: InstallRules_def)
qed

theorem installed_rules_scoped_witness:
  "\<exists>g' ga. InstallRules (\<lambda>_. []) (\<lambda>_. []) ''api'' ''db'' ''main'' [demo_prule] demo_gateway = Inr g' \<and>
     map_of (grules g') (triple_key ''api'' ''db'' ''main'') = Some [scope_rule ga demo_prule]"
proof -
  obtain g' where g': "InstallRules (\<lambda>_. []) (\<lambda>_. []) ''api'' ''db'' ''main'' [demo_prule] demo_gateway = Inr g'"
    using demo_install by blast
  show ?thesis using installed_rules_scoped [OF demo_gateway_inv _ g'] g' by auto
qed

text \<open>Without a consumer the rules keep their own match: installed for one interface, they act on the
packets of every other one. With a consumer they match the allocated destination, so that the replies,
which carry that address as their source, are never hit.\<close>

lemma unscoped_rule_crosses_interfaces:
  assumes "InstallRules dur flo [] ''db'' ''main'' [demo_prule] demo_gateway = Inr g'"
  shows "published g' = [demo_prule] \<and> hits demo_prule (demo_packet\<lparr>DstIP := ip, DstPort := port\<rparr>)"
proof
  from InstallRules_cases [OF assms] obtain rs where
    g': "g' = republish dur flo (demo_gateway\<lparr>grules := AList.update (triple_key [] ''db'' ''main'') rs (grules demo_gateway)\<rparr>)"
      "\<forall>r\<in>set rs. Validate dur flo r = None" "rs = [demo_prule]"
    by metis
  show "published g' = [demo_prule]"
    using republish_published [OF update_inv [OF demo_gateway_inv(1) g'(2)]]
    by (simp add: g'(1) g'(3) demo_gateway_def)
  show "hits demo_prule (demo_packet\<lparr>DstIP := ip, DstPort := port\<rparr>)"
    by (simp add: hits_def pkt_Matches_def matchesDeclarative_def demo_prule_def demo_packet_def empty_match_def)
qed

lemma scoped_rule_ignores_replies:
  assumes "IP ga \<noteq> []" "SrcIP p = IP ga" "DstIP p \<noteq> SrcIP p"
  shows "\<not> hits (scope_rule ga r) p"
proof
  assume "hits (scope_rule ga r) p"
  then have "DstIP p = mDstIP (pMatch (scope_rule ga r))"
    by (rule hits_destination) (simp add: scope_rule_def assms(1))
  then show False using assms by (simp add: scope_rule_def)
qed

end
