(* ===== verification/Packet_Surgery.thy ===== *)
theory Packet_Surgery
  imports Gateway
begin

text \<open>What the fault endpoint does to the bytes of a packet, \<^verbatim>\<open>internal/netfault/endpoint.go\<close>: corrupting the
payload, rewriting the advertised window and synthesising a reset; with \<^verbatim>\<open>PacketBytes\<close> of
\<^verbatim>\<open>packetview.go\<close>.

The accessors of gVisor's header and checksum packages are the fields of a record that every operation
takes; each setter maps the bytes of its header to the changed bytes. Shown: a corruption damages
exactly the configured window of the payload; what is parsed as an address is what is printed; a reset
is built for exactly the TCP packets with readable addresses, and acknowledges all of the segment.\<close>

unbundle bit_operations_syntax

record PacketBuffer =
  AsSlices :: "8 word list list"
  NetworkProtocolNumber :: nat

definition PacketBytes :: "PacketBuffer \<Rightarrow> 8 word list \<times> bool" where
  "PacketBytes pkt =
    (case AsSlices pkt of
       [] \<Rightarrow> ([], False)
     | [s] \<Rightarrow> (s, True)
     | slices \<Rightarrow> (concat slices, False))"

definition pkt_Size :: "PacketBuffer \<Rightarrow> int" where
  "pkt_Size pkt = int (length (concat (AsSlices pkt)))"

record IPv4Fields =
  TotalLength :: "16 word"
  TTL :: nat
  IProtocol :: nat
  SrcAddr :: "8 word list"
  DstAddr :: "8 word list"

record TCPFields =
  FSrcPort :: "16 word"
  FDstPort :: "16 word"
  SeqNum :: "32 word"
  AckNum :: "32 word"
  DataOffset :: nat
  FFlags :: "8 word"
  FWindowSize :: "16 word"

text \<open>The setters and checksums, beside the accessors that the parser uses; and the next byte of the seeded
generator.\<close>

record codec = headers +
  ip_src_addr :: "8 word list \<Rightarrow> 8 word list"
  ip_dst_addr :: "8 word list \<Rightarrow> 8 word list"
  ip_encode :: "IPv4Fields \<Rightarrow> 8 word list \<Rightarrow> 8 word list"
  ip_set_sum :: "16 word \<Rightarrow> 8 word list \<Rightarrow> 8 word list"
  ip_sum :: "8 word list \<Rightarrow> 16 word"
  tcp_encode :: "TCPFields \<Rightarrow> 8 word list \<Rightarrow> 8 word list"
  tcp_set_sum :: "16 word \<Rightarrow> 8 word list \<Rightarrow> 8 word list"
  udp_set_sum :: "16 word \<Rightarrow> 8 word list \<Rightarrow> 8 word list"
  tcp_set_win :: "16 word \<Rightarrow> 8 word list \<Rightarrow> 8 word list"
  pseudo_sum :: "nat \<Rightarrow> 8 word list \<Rightarrow> 8 word list \<Rightarrow> 16 word \<Rightarrow> 16 word"
  sum16 :: "8 word list \<Rightarrow> 16 word \<Rightarrow> 16 word"
  rnd_byte :: "rng \<Rightarrow> 8 word \<times> rng"

section \<open>Checksums and corruption\<close>

definition recomputeChecksum :: "codec \<Rightarrow> 8 word list \<Rightarrow> 8 word list \<Rightarrow> Protocol \<Rightarrow> 8 word list" where
  "recomputeChecksum h ip rest proto =
    (let src = ip_src_addr h ip; dst = ip_dst_addr h ip in
     if proto = ProtoTCP then
       let t = tcp_set_sum h 0 rest; xsum = pseudo_sum h 6 src dst (word_of_nat (length rest))
       in tcp_set_sum h (NOT (sum16 h t xsum)) t
     else if proto = ProtoUDP then
       let u = udp_set_sum h 0 rest; xsum = pseudo_sum h 17 src dst (word_of_nat (length rest))
       in udp_set_sum h (NOT (sum16 h u xsum)) u
     else rest)"

definition payload_off :: "codec \<Rightarrow> Protocol \<Rightarrow> 8 word list \<Rightarrow> nat option" where
  "payload_off h proto rest =
    (if proto = ProtoTCP then (if length rest < 20 then None else Some (tcp_off h rest))
     else if proto = ProtoUDP then (if length rest < 8 then None else Some 8)
     else None)"

fun corrupt_loop :: "(rng \<Rightarrow> 8 word \<times> rng) \<Rightarrow> string \<Rightarrow> nat list \<Rightarrow> 8 word list \<Rightarrow> rng \<Rightarrow> 8 word list \<times> rng" where
  "corrupt_loop rb m [] payload g = (payload, g)"
| "corrupt_loop rb m (i # is) payload g =
    (if m = ''zero'' then corrupt_loop rb m is (payload[i := 0]) g
     else if m = ''random'' then (let (b, g') = rb g in corrupt_loop rb m is (payload[i := b]) g')
     else corrupt_loop rb m is (payload[i := payload ! i XOR 0xFF]) g)"

text \<open>The packet and the generator afterwards, and whether the mutation was skipped and counted. A rule that
passed validation has no negative offset or length.\<close>

definition corrupt :: "codec \<Rightarrow> PRule \<Rightarrow> PacketView \<Rightarrow> PacketBuffer \<Rightarrow> rng \<Rightarrow> PacketBuffer \<times> rng \<times> bool" where
  "corrupt h r pv pkt g =
    (let (b, aliased) = PacketBytes pkt in
     if \<not> aliased then (pkt, g, True)
     else if length b < 20 then (pkt, g, False)
     else
       let hlen = ip_hlen h b in
       if length b < hlen then (pkt, g, False)
       else
         let rest = drop hlen b in
         case payload_off h (Proto pv) rest of
           None \<Rightarrow> (pkt, g, False)
         | Some off \<Rightarrow>
             if length rest < off then (pkt, g, False)
             else
               let payload = drop off rest; start = CorruptOffset r in
               if int (length payload) \<le> start then (pkt, g, False)
               else
                 let stop = (if int (length payload) < start + CorruptLength r then int (length payload)
                             else start + CorruptLength r);
                     (payload', g') = corrupt_loop (rnd_byte h) (CorruptMode r) [nat start..<nat stop] payload g;
                     rest1 = take off rest @ payload';
                     rest2 = (if Checksum r = ''fix''
                              then recomputeChecksum h (take hlen b @ rest1) rest1 (Proto pv) else rest1)
                 in (pkt\<lparr>AsSlices := [take hlen b @ rest2]\<rparr>, g', False))"

definition rewriteWindow :: "codec \<Rightarrow> PRule \<Rightarrow> PacketBuffer \<Rightarrow> PacketBuffer \<times> bool" where
  "rewriteWindow h r pkt =
    (let (b, aliased) = PacketBytes pkt in
     if \<not> aliased then (pkt, True)
     else if length b < 20 then (pkt, False)
     else
       let hlen = ip_hlen h b in
       if length b < hlen then (pkt, False)
       else
         let rest = drop hlen b in
         if ip_proto h b \<noteq> 6 \<or> length rest < 20 then (pkt, False)
         else
           let rest1 = tcp_set_win h (WindowSize r) rest;
               rest2 = recomputeChecksum h (take hlen b @ rest1) rest1 ProtoTCP
           in (pkt\<lparr>AsSlices := [take hlen b @ rest2]\<rparr>, False))"

section \<open>Resets\<close>

text \<open>\<^verbatim>\<open>parseIPv4\<close>: the text left, the number being read and the bytes read before it; no bytes for text that
is refused.\<close>

fun ipv4_loop :: "string \<Rightarrow> nat \<Rightarrow> 8 word list \<Rightarrow> 8 word list" where
  "ipv4_loop [] n out = (if length out \<noteq> 3 then [] else out @ [word_of_nat n])"
| "ipv4_loop (c # s) n out =
    (if is_digit c then
       (let m = n * 10 + digit_val c in if 255 < m then [] else ipv4_loop s m out)
     else if c = CHR ''.'' then
       (if 3 \<le> length out then [] else ipv4_loop s 0 (out @ [word_of_nat n]))
     else [])"

definition parseIPv4 :: "string \<Rightarrow> 8 word list" where
  "parseIPv4 s = ipv4_loop s 0 []"

definition ackNum :: "PacketView \<Rightarrow> 32 word" where
  "ackNum pv =
    (let a = PSeq pv + word_of_int (PayloadLen pv) in
     if HasFlags pv FlagSYN \<or> HasFlags pv FlagFIN then a + 1 else a)"

definition buildRST :: "codec \<Rightarrow> PacketView \<Rightarrow> PacketBuffer option" where
  "buildRST h pv =
    (if Proto pv \<noteq> ProtoTCP then None
     else
       let src = parseIPv4 (DstIP pv); dst = parseIPv4 (SrcIP pv) in
       if src = [] \<or> dst = [] then None
       else
         let ip = ip_encode h \<lparr>TotalLength = 40, TTL = 64, IProtocol = 6, SrcAddr = src, DstAddr = dst\<rparr> (replicate 20 0);
             ip1 = ip_set_sum h 0 ip;
             ip2 = ip_set_sum h (NOT (ip_sum h ip1)) ip1;
             t = tcp_encode h \<lparr>FSrcPort = DstPort pv, FDstPort = SrcPort pv, SeqNum = PAck pv, AckNum = ackNum pv,
                   DataOffset = 20, FFlags = FlagRST OR FlagACK, FWindowSize = 0\<rparr> (replicate 20 0);
             xsum = pseudo_sum h 6 src dst 20;
             t1 = tcp_set_sum h (NOT (sum16 h t xsum)) t
         in Some \<lparr>AsSlices = [ip2 @ t1], NetworkProtocolNumber = 0x0800\<rparr>)"

section \<open>What a corruption touches\<close>

lemma xor_changes: "b XOR 0xFF \<noteq> (b :: 8 word)"
proof
  assume "b XOR 0xFF = b"
  then have "b XOR b XOR 0xFF = 0" by simp
  then show False by (simp add: xor.assoc [symmetric])
qed

lemma corrupt_loop_flip:
  assumes "distinct is" "\<forall>i\<in>set is. i < length payload" "m \<noteq> ''zero''" "m \<noteq> ''random''"
  shows "corrupt_loop rb m is payload g =
    (map (\<lambda>i. if i \<in> set is then payload ! i XOR 0xFF else payload ! i) [0..<length payload], g)"
  using assms
proof (induction "is" arbitrary: payload)
  case Nil
  then show ?case by (simp add: map_nth)
next
  case (Cons k ks)
  then show ?case by (auto simp: nth_list_update intro!: nth_equalityI)
qed

lemma corrupt_loop_length: "length (fst (corrupt_loop rb m is payload g)) = length payload"
  by (induction "is" arbitrary: payload g) (auto simp: split_beta)

text \<open>The window of the packet that a rule aims at.\<close>

definition damaged :: "PRule \<Rightarrow> PacketView \<Rightarrow> nat \<Rightarrow> nat \<Rightarrow> bool" where
  "damaged r pv n i \<longleftrightarrow>
     int n - PayloadLen pv + CorruptOffset r \<le> int i \<and>
     int i < int n - PayloadLen pv + CorruptOffset r + CorruptLength r"

lemma Parse_payload:
  assumes "Parse (headers.truncate h) b dir = Some pv" "Proto pv \<in> {ProtoTCP, ProtoUDP}"
  shows "20 \<le> length b" "ip_hlen h b \<le> length b"
    "\<exists>off. payload_off h (Proto pv) (drop (ip_hlen h b) b) = Some off \<and> off \<le> length (drop (ip_hlen h b) b) \<and>
       PayloadLen pv = int (length (drop (ip_hlen h b) b) - off)"
  using assms
  by (auto simp: Parse_def payload_off_def base_view_def headers.defs ProtoTCP_def ProtoUDP_def ProtoICMP_def
      ProtoOther_def Let_def split: if_splits)

text \<open>C35. A corruption that flips bytes and leaves the checksum alone changes exactly the configured window of
the payload, cut off at the end of the packet: every byte inside differs, every byte outside, headers
included, stays, and so does the length.\<close>

theorem corruption_exact:
  assumes "PacketBytes pkt = (b, True)" and "Parse (headers.truncate h) b dir = Some pv"
    and "Proto pv \<in> {ProtoTCP, ProtoUDP}" and "Validate dur flo r = None" and "pAction r = PActionCorrupt"
    and "CorruptMode r = ''flip''" and "Checksum r = ''break''"
  shows "\<exists>b'. PacketBytes (fst (corrupt h r pv pkt g)) = (b', True) \<and> length b' = length b \<and>
    (\<forall>i<length b. b' ! i \<noteq> b ! i \<longleftrightarrow> damaged r pv (length b) i)"
proof -
  let ?rest = "drop (ip_hlen h b) b"
  note p = Parse_payload [OF assms(2,3)]
  then obtain off where off: "payload_off h (Proto pv) ?rest = Some off" "off \<le> length ?rest"
    "PayloadLen pv = int (length ?rest - off)" by blast
  have r: "0 \<le> CorruptOffset r" "0 < CorruptLength r"
    using assms(4,5) by (auto simp: Validate_def action_error_def split: if_splits)
  let ?pay = "drop off ?rest"
  let ?o = "CorruptOffset r"
  show ?thesis
  proof (cases "int (length ?pay) \<le> ?o")
    case True
    then have "corrupt h r pv pkt g = (pkt, g, False)"
      using p(1,2) off(1,2) by (simp add: corrupt_def assms(1))
    moreover have "\<not> damaged r pv (length b) i" if "i < length b" for i
      using True off(3) that by (auto simp: damaged_def)
    ultimately show ?thesis using assms(1) by auto
  next
    case False
    let ?stop = "if int (length ?pay) < ?o + CorruptLength r then int (length ?pay) else ?o + CorruptLength r"
    let ?is = "[nat ?o..<nat ?stop]"
    let ?new = "map (\<lambda>i. if i \<in> set ?is then ?pay ! i XOR 0xFF else ?pay ! i) [0..<length ?pay]"
    have loop: "corrupt_loop (rnd_byte h) ''flip'' ?is ?pay g = (?new, g)"
      by (rule corrupt_loop_flip) (auto split: if_splits)
    let ?b' = "take (ip_hlen h b) b @ take off ?rest @ ?new"
    have "fst (corrupt h r pv pkt g) = pkt\<lparr>AsSlices := [?b']\<rparr>"
    proof -
      have n: "\<not> length b < 20" "\<not> length b < ip_hlen h b" "\<not> length ?rest < off" "''break'' \<noteq> ''fix''"
        using p(1,2) off(2) by simp_all
      show ?thesis
        by (simp only: corrupt_def assms(1,6,7) Let_def prod.case n off(1) option.case False loop if_False simp_thms
            append_assoc fst_conv)
    qed
    then have "PacketBytes (fst (corrupt h r pv pkt g)) = (?b', True)" by (simp add: PacketBytes_def)
    moreover have "length ?b' = length b" using off(2) p(2) by simp
    moreover have "?b' ! i \<noteq> b ! i \<longleftrightarrow> damaged r pv (length b) i" if "i < length b" for i
    proof -
      let ?k = "ip_hlen h b + off"
      have len: "length (take (ip_hlen h b) b) = ip_hlen h b" "length (take off ?rest) = off" using p(2) off(2) by simp_all
      show ?thesis
      proof (cases "i < ?k")
        case True
        then have "?b' ! i = b ! i" using len off(2) by (auto simp: nth_append)
        moreover have "\<not> damaged r pv (length b) i" using True off(2,3) p(2) r by (auto simp: damaged_def)
        ultimately show ?thesis by simp
      next
        case False
        then have "?b' ! i = ?new ! (i - ?k)" using len by (simp add: nth_append)
        moreover have "i - ?k < length ?pay" using False that by simp
        ultimately have "?b' ! i \<noteq> b ! i \<longleftrightarrow> i - ?k \<in> set ?is"
          using False that by (simp add: xor_changes add.commute)
        also have "\<dots> \<longleftrightarrow> damaged r pv (length b) i"
          using False that off(2,3) p(2) r by (auto simp: damaged_def)
        finally show ?thesis .
      qed
    qed
    ultimately show ?thesis by blast
  qed
qed

text \<open>The accessors on the layout of the IPv4, TCP and UDP headers.\<close>

definition be16 :: "nat \<Rightarrow> 8 word list \<Rightarrow> 16 word" where
  "be16 i b = word_of_nat (unat (b ! i) * 256 + unat (b ! (i + 1)))"

definition be32 :: "nat \<Rightarrow> 8 word list \<Rightarrow> 32 word" where
  "be32 i b = word_of_nat (((unat (b ! i) * 256 + unat (b ! (i + 1))) * 256 + unat (b ! (i + 2))) * 256 + unat (b ! (i + 3)))"

definition put16 :: "nat \<Rightarrow> 16 word \<Rightarrow> 8 word list \<Rightarrow> 8 word list" where
  "put16 i v b = b[i := word_of_nat (unat v div 256), i + 1 := word_of_nat (unat v)]"

definition wire :: codec where
  "wire = \<lparr>ip_valid = \<lambda>b n. True, ip_hlen = \<lambda>b. unat (b ! 0 AND 15) * 4, ip_proto = \<lambda>b. unat (b ! 9),
     ip_src = \<lambda>b. dotted (take 4 (drop 12 b)), ip_dst = \<lambda>b. dotted (take 4 (drop 16 b)),
     tp_sport = be16 0, tp_dport = be16 2, tcp_off = \<lambda>b. unat (b ! 12) div 16 * 4, tcp_flags = \<lambda>b. b ! 13,
     tcp_seq = be32 4, tcp_ack = be32 8, tcp_win = be16 14,
     ip_src_addr = \<lambda>b. take 4 (drop 12 b), ip_dst_addr = \<lambda>b. take 4 (drop 16 b),
     ip_encode = \<lambda>f b. b, ip_set_sum = put16 10, ip_sum = \<lambda>b. 0, tcp_encode = \<lambda>f b. b,
     tcp_set_sum = put16 16, udp_set_sum = put16 6, tcp_set_win = put16 14,
     pseudo_sum = \<lambda>n s d l. l, sum16 = \<lambda>b x. x, rnd_byte = \<lambda>g. (0, g)\<rparr>"

definition datagram :: "8 word list" where
  "datagram = [0x45, 0, 0, 32, 0, 0, 0, 0, 64, 17, 0, 0, 10, 0, 0, 1, 10, 0, 0, 2,
     0, 80, 0, 81, 0, 12, 0, 0, 1, 2, 3, 4]"

definition datagram_view :: PacketView where
  "datagram_view = \<lparr>Proto = ''udp'', Dir = DirC2S, SrcIP = ''10.0.0.1'', DstIP = ''10.0.0.2'', SrcPort = 80,
     DstPort = 81, PayloadLen = 4, Payload = [1, 2, 3, 4], Flags = 0, PSeq = 0, PAck = 0, Window = 0, Index = 0,
     Flow = ''udp|10.0.0.1:80-10.0.0.2:81''\<rparr>"

lemma datagram_parses: "Parse (headers.truncate wire) datagram DirC2S = Some datagram_view"
  by code_simp

definition flip_rule :: PRule where
  "flip_rule = demo_prule\<lparr>pAction := PActionCorrupt, CorruptOffset := 1, CorruptLength := 2, CorruptMode := ''flip'',
     Checksum := ''break''\<rparr>"

theorem corruption_exact_witness:
  "\<exists>b'. PacketBytes (fst (corrupt wire flip_rule datagram_view \<lparr>AsSlices = [datagram], NetworkProtocolNumber = 2048\<rparr> None)) =
     (b', True) \<and> (\<forall>i<32. b' ! i \<noteq> datagram ! i \<longleftrightarrow> i = 29 \<or> i = 30)"
proof -
  have pkt: "PacketBytes \<lparr>AsSlices = [datagram], NetworkProtocolNumber = 2048\<rparr> = (datagram, True)"
    by (simp add: PacketBytes_def)
  have udp: "Proto datagram_view \<in> {ProtoTCP, ProtoUDP}" by (simp add: datagram_view_def ProtoUDP_def)
  have valid: "Validate (\<lambda>_. []) (\<lambda>_. []) flip_rule = None" "pAction flip_rule = PActionCorrupt"
    "CorruptMode flip_rule = ''flip''" "Checksum flip_rule = ''break''"
    by (simp_all add: Validate_def action_error_def flip_rule_def demo_prule_def fle_def)
  have len: "length datagram = 32" by (simp add: datagram_def)
  have "damaged flip_rule datagram_view 32 i \<longleftrightarrow> i = 29 \<or> i = 30" for i
    by (auto simp: damaged_def flip_rule_def datagram_view_def)
  with corruption_exact [OF pkt datagram_parses udp valid, of None] show ?thesis unfolding len by simp blast
qed

section \<open>Addresses and resets\<close>

lemma read_grows: "m \<le> foldl (\<lambda>a c. 10 * a + digit_val c) m ds"
proof (induction ds arbitrary: m)
  case (Cons c ds)
  have "m \<le> 10 * m + digit_val c" by simp
  also have "\<dots> \<le> foldl (\<lambda>a c. 10 * a + digit_val c) (10 * m + digit_val c) ds" by (rule Cons.IH)
  finally show ?case by simp
qed simp

lemma ipv4_loop_digits:
  assumes "\<forall>c\<in>set ds. is_digit c" "foldl (\<lambda>a c. 10 * a + digit_val c) n ds \<le> 255"
  shows "ipv4_loop (ds @ s) n out = ipv4_loop s (foldl (\<lambda>a c. 10 * a + digit_val c) n ds) out"
  using assms
proof (induction ds arbitrary: n)
  case (Cons c ds)
  from read_grows [of "10 * n + digit_val c" ds] have "10 * n + digit_val c \<le> 255" using Cons.prems(2) by simp
  then show ?case using Cons by (simp add: mult.commute)
qed simp

lemma ipv4_loop_byte:
  "ipv4_loop (show_nat (unat (b :: 8 word)) @ s) 0 out = ipv4_loop s (unat b) out"
  using ipv4_loop_digits [of "show_nat (unat b)" 0 s out] show_nat_digits [of "unat b"] read_show_nat [of "unat b"]
    unsigned_less [of b, where ?'a = nat] by (simp add: read_nat_def)

lemma parseIPv4_dotted: "parseIPv4 (dotted [a, b, c, d]) = [a, b, c, d]"
proof -
  have "\<not> is_digit CHR ''.''" by code_simp
  then show ?thesis using ipv4_loop_byte [of d "[]" "[a, b, c]"] by (simp add: parseIPv4_def dotted_def ipv4_loop_byte)
qed

lemma parseIPv4_length: "parseIPv4 s = [] \<or> length (parseIPv4 s) = 4"
proof -
  have "ipv4_loop s n out = [] \<or> length (ipv4_loop s n out) = 4" if "length out \<le> 3" for n out
    using that by (induction s n out rule: ipv4_loop.induct) (auto simp: Let_def)
  then show ?thesis by (simp add: parseIPv4_def)
qed

text \<open>A reset answers every TCP packet between readable addresses and nothing else; it covers the payload and
the flag that takes up a sequence number.\<close>

lemma reset_for_tcp:
  assumes "SrcIP pv = dotted [a, b, c, d]" "DstIP pv = dotted [a', b', c', d']"
  shows "buildRST h pv \<noteq> None \<longleftrightarrow> Proto pv = ProtoTCP"
  by (simp add: buildRST_def assms parseIPv4_dotted Let_def)

lemma reset_acknowledges:
  "ackNum pv - PSeq pv = word_of_int (PayloadLen pv) + of_bool (HasFlags pv FlagSYN \<or> HasFlags pv FlagFIN)"
  by (simp add: ackNum_def Let_def)

end
