(* ===== verification/Binary_Heap.thy ===== *)
theory Binary_Heap
  imports Go_Prelude "HOL-Library.Multiset"
begin

text \<open>The binary heap of Go's \<^verbatim>\<open>container/heap\<close> on a list, as \<^verbatim>\<open>internal/netfault/defer.go\<close> uses it: sifting
up and down, push and pop. The contract of a queue that releases the least element first is a locale;
the heap is shown to meet it for every order given by a key.\<close>

section \<open>The algorithms\<close>

definition swap :: "'a list \<Rightarrow> nat \<Rightarrow> nat \<Rightarrow> 'a list" where
  "swap xs i j = xs[j := xs ! i, i := xs ! j]"

fun heap_up :: "('a \<Rightarrow> 'a \<Rightarrow> bool) \<Rightarrow> 'a list \<Rightarrow> nat \<Rightarrow> 'a list" where
  "heap_up lt xs j =
    (let i = (j - 1) div 2 in
     if i = j \<or> \<not> lt (xs ! j) (xs ! i) then xs else heap_up lt (swap xs i j) i)"

declare heap_up.simps [simp del]

function heap_down :: "('a \<Rightarrow> 'a \<Rightarrow> bool) \<Rightarrow> 'a list \<Rightarrow> nat \<Rightarrow> nat \<Rightarrow> 'a list" where
  "heap_down lt xs i n =
    (let j1 = 2 * i + 1 in
     if n \<le> j1 then xs
     else
       let j2 = j1 + 1; j = (if j2 < n \<and> lt (xs ! j2) (xs ! j1) then j2 else j1) in
       if \<not> lt (xs ! j) (xs ! i) then xs else heap_down lt (swap xs i j) j n)"
  by pat_completeness auto
termination
  by (relation "measure (\<lambda>(_, _, i, n). n - i)") (auto split: if_splits)

declare heap_down.simps [simp del]

definition heap_push :: "('a \<Rightarrow> 'a \<Rightarrow> bool) \<Rightarrow> 'a list \<Rightarrow> 'a \<Rightarrow> 'a list" where
  "heap_push lt xs x = heap_up lt (xs @ [x]) (length xs)"

definition heap_pop :: "('a \<Rightarrow> 'a \<Rightarrow> bool) \<Rightarrow> 'a list \<Rightarrow> 'a \<times> 'a list" where
  "heap_pop lt xs =
    (let n = length xs - 1; ys = heap_down lt (swap xs 0 n) 0 n in (ys ! n, take n ys))"

section \<open>Swapping\<close>

lemma length_swap [simp]: "length (swap xs i j) = length xs"
  by (simp add: swap_def)

lemma mset_swap_elems: "i < length xs \<Longrightarrow> j < length xs \<Longrightarrow> mset (swap xs i j) = mset xs"
  by (simp add: swap_def mset_swap)

lemma nth_swap:
  "i < length xs \<Longrightarrow> j < length xs \<Longrightarrow> k < length xs \<Longrightarrow>
    swap xs i j ! k = (if k = i then xs ! j else if k = j then xs ! i else xs ! k)"
  by (simp add: swap_def nth_list_update)

lemma heap_up_elems: "j < length xs \<Longrightarrow> mset (heap_up lt xs j) = mset xs \<and> length (heap_up lt xs j) = length xs"
proof (induction lt xs j rule: heap_up.induct)
  case (1 lt xs j)
  let ?i = "(j - 1) div 2"
  show ?case
  proof (cases "?i = j \<or> \<not> lt (xs ! j) (xs ! ?i)")
    case True
    then show ?thesis by (subst (1 2) heap_up.simps) (simp add: Let_def)
  next
    case False
    have "?i < length xs" using "1.prems" by linarith
    with 1 False show ?thesis
      by (subst (1 2) heap_up.simps) (simp add: Let_def mset_swap_elems)
  qed
qed

lemma heap_down_elems:
  "i < n \<Longrightarrow> n \<le> length xs \<Longrightarrow> mset (heap_down lt xs i n) = mset xs \<and>
    length (heap_down lt xs i n) = length xs \<and> drop n (heap_down lt xs i n) = drop n xs"
proof (induction lt xs i n rule: heap_down.induct)
  case (1 lt xs i n)
  let ?j1 = "2 * i + 1"
  define j where "j = (if ?j1 + 1 < n \<and> lt (xs ! (?j1 + 1)) (xs ! ?j1) then ?j1 + 1 else ?j1)"
  show ?case
  proof (cases "n \<le> ?j1 \<or> \<not> lt (xs ! j) (xs ! i)")
    case True
    then show ?thesis by (subst (1 2 3) heap_down.simps) (auto simp: Let_def j_def)
  next
    case False
    then have j: "j < n" by (auto simp: j_def)
    have "heap_down lt xs i n = heap_down lt (swap xs i j) j n"
      using False by (subst heap_down.simps) (auto simp: Let_def j_def)
    moreover have "drop n (swap xs i j) = drop n xs" using j "1.prems" by (simp add: swap_def)
    ultimately show ?thesis
      using "1.IH" [OF refl _ refl j_def] False j "1.prems" by (simp add: mset_swap_elems)
  qed
qed

section \<open>The contract\<close>

text \<open>A queue that gives back its elements least key first.\<close>

locale release_queue =
  fixes push :: "'q \<Rightarrow> 'a \<Rightarrow> 'q"
    and pop :: "'q \<Rightarrow> 'a \<times> 'q"
    and elems :: "'q \<Rightarrow> 'a multiset"
    and inv :: "'q \<Rightarrow> bool"
    and key :: "'a \<Rightarrow> 'k::linorder"
  assumes push_inv: "inv q \<Longrightarrow> inv (push q x)"
    and push_elems: "inv q \<Longrightarrow> elems (push q x) = add_mset x (elems q)"
    and pop_inv: "inv q \<Longrightarrow> elems q \<noteq> {#} \<Longrightarrow> inv (snd (pop q))"
    and pop_elems: "inv q \<Longrightarrow> elems q \<noteq> {#} \<Longrightarrow> add_mset (fst (pop q)) (elems (snd (pop q))) = elems q"
    and pop_least: "inv q \<Longrightarrow> x \<in># elems q \<Longrightarrow> key (fst (pop q)) \<le> key x"
begin

text \<open>The first \<^term>\<open>n\<close> elements that come out.\<close>

primrec pops :: "nat \<Rightarrow> 'q \<Rightarrow> 'a list \<times> 'q" where
  "pops 0 q = ([], q)"
| "pops (Suc n) q = (let (x, q1) = pop q; (xs, q2) = pops n q1 in (x # xs, q2))"

lemma pops_all:
  assumes "inv q" "size (elems q) = n"
  shows "mset (fst (pops n q)) = elems q \<and> sorted (map key (fst (pops n q))) \<and> elems (snd (pops n q)) = {#}"
  using assms
proof (induction n arbitrary: q)
  case (Suc n)
  obtain x q1 where p: "pop q = (x, q1)" by force
  have ne: "elems q \<noteq> {#}" using Suc.prems(2) by auto
  have e: "add_mset x (elems q1) = elems q" using pop_elems [OF Suc.prems(1) ne] p by simp
  have i: "inv q1" using pop_inv [OF Suc.prems(1) ne] p by simp
  obtain xs q2 where d: "pops n q1 = (xs, q2)" by force
  have ih: "mset xs = elems q1" "sorted (map key xs)" "elems q2 = {#}"
    using Suc.IH [OF i] Suc.prems(2) d by (simp_all flip: e)
  have "key x \<le> key y" if "y \<in> set xs" for y
  proof -
    have "y \<in># elems q1" using that ih(1) by (metis set_mset_mset)
    then have "y \<in># elems q" by (simp flip: e)
    then show ?thesis using pop_least [OF Suc.prems(1)] p by simp
  qed
  then show ?case using ih e by (simp add: p d)
qed simp

end

section \<open>The heap meets it\<close>

definition parent :: "nat \<Rightarrow> nat" where
  "parent k = (k - 1) div 2"

lemma parent_less: "0 < k \<Longrightarrow> parent k < k"
  by (auto simp: parent_def)

lemma parent_children: "0 < k \<Longrightarrow> parent k = i \<longleftrightarrow> k = 2 * i + 1 \<or> k = 2 * i + 2"
  by (auto simp: parent_def)

text \<open>An order given by a key.\<close>

locale heap_order =
  fixes lt :: "'a \<Rightarrow> 'a \<Rightarrow> bool"
    and key :: "'a \<Rightarrow> 'k::linorder"
  assumes lt_key: "lt x y \<longleftrightarrow> key x < key y"
begin

definition heap :: "nat \<Rightarrow> 'a list \<Rightarrow> bool" where
  "heap n xs \<longleftrightarrow> (\<forall>k. 0 < k \<longrightarrow> k < n \<longrightarrow> key (xs ! parent k) \<le> key (xs ! k))"

text \<open>A heap save for the edge above position \<^term>\<open>j\<close>, and save for the edges below it.\<close>

definition up_heap :: "nat \<Rightarrow> 'a list \<Rightarrow> bool" where
  "up_heap j xs \<longleftrightarrow>
    (\<forall>k. 0 < k \<longrightarrow> k < length xs \<longrightarrow> k \<noteq> j \<longrightarrow> key (xs ! parent k) \<le> key (xs ! k)) \<and>
    (\<forall>k. 0 < j \<longrightarrow> 0 < k \<longrightarrow> k < length xs \<longrightarrow> parent k = j \<longrightarrow> key (xs ! parent j) \<le> key (xs ! k))"

definition down_heap :: "nat \<Rightarrow> nat \<Rightarrow> 'a list \<Rightarrow> bool" where
  "down_heap i n xs \<longleftrightarrow>
    (\<forall>k. 0 < k \<longrightarrow> k < n \<longrightarrow> parent k \<noteq> i \<longrightarrow> key (xs ! parent k) \<le> key (xs ! k)) \<and>
    (\<forall>k. 0 < i \<longrightarrow> 0 < k \<longrightarrow> k < n \<longrightarrow> parent k = i \<longrightarrow> key (xs ! parent i) \<le> key (xs ! k))"

lemma up_heap_swap:
  assumes u: "up_heap j xs" and j: "0 < j" "j < length xs" and l: "key (xs ! j) < key (xs ! parent j)"
  shows "up_heap (parent j) (swap xs (parent j) j)"
proof -
  define i where "i = parent j"
  let ?ys = "swap xs i j"
  have i: "i < j" "i < length xs" using j parent_less [of j] by (auto simp: i_def)
  have nth: "?ys ! k = (if k = i then xs ! j else if k = j then xs ! i else xs ! k)" if "k < length xs" for k
    using nth_swap [OF i(2) j(2) that] .
  have edge: "key (xs ! parent k) \<le> key (xs ! k)" if "0 < k" "k < length xs" "k \<noteq> j" for k
    using u that by (simp add: up_heap_def)
  have below: "key (xs ! i) \<le> key (xs ! k)" if "0 < k" "k < length xs" "parent k = j" for k
    using u that j by (simp add: up_heap_def i_def)
  have 1: "key (?ys ! parent k) \<le> key (?ys ! k)" if k: "0 < k" "k < length xs" "k \<noteq> i" for k
  proof -
    have pk: "parent k < length xs" "parent k < k" using k parent_less [of k] by auto
    show ?thesis
    proof (cases "k = j")
      case True
      then show ?thesis using l i j k by (simp add: nth flip: i_def)
    next
      case False
      have "key (xs ! j) \<le> key (xs ! k)" if "parent k = i"
        using edge [OF k(1,2) False] that l by (simp flip: i_def)
      then show ?thesis
        using False k pk edge [OF k(1,2) False] below [OF k(1,2)] by (simp add: nth)
    qed
  qed
  have 2: "key (?ys ! parent i) \<le> key (?ys ! k)" if k: "0 < i" "0 < k" "k < length xs" "parent k = i" for k
  proof -
    have p: "parent i < i" "parent i < length xs" using k(1) i parent_less [of i] by auto
    have up: "key (xs ! parent i) \<le> key (xs ! i)" using edge [OF k(1) i(2)] i by simp
    have "k \<noteq> i" using k parent_less [of k] by auto
    then show ?thesis using up p i k edge [OF k(2,3)] by (cases "k = j") (simp_all add: nth)
  qed
  show ?thesis using 1 2 by (simp add: up_heap_def i_def)
qed

lemma heap_up_heap: "up_heap j xs \<Longrightarrow> j < length xs \<Longrightarrow> heap (length xs) (heap_up lt xs j)"
proof (induction j arbitrary: xs rule: less_induct)
  case (less j)
  have step: "heap_up lt xs j = (if parent j = j \<or> \<not> lt (xs ! j) (xs ! parent j) then xs
      else heap_up lt (swap xs (parent j) j) (parent j))"
    by (subst heap_up.simps) (simp add: Let_def parent_def)
  show ?case
  proof (cases "0 < j \<and> key (xs ! j) < key (xs ! parent j)")
    case True
    then have p: "parent j < j" by (simp add: parent_less)
    then have "heap_up lt xs j = heap_up lt (swap xs (parent j) j) (parent j)"
      using True step lt_key [of "xs ! j" "xs ! parent j"] by simp
    then show ?thesis
      using less.IH [OF p up_heap_swap [OF less.prems(1) _ less.prems(2)]] True p less.prems(2) by simp
  next
    case False
    then have "heap_up lt xs j = xs"
      using step lt_key [of "xs ! j" "xs ! parent j"] by (cases "j = 0") (auto simp: parent_def)
    moreover have "heap (length xs) xs"
      using False less.prems by (auto simp: heap_def up_heap_def not_less)
    ultimately show ?thesis by simp
  qed
qed

lemma push_heap: "heap (length xs) xs \<Longrightarrow> heap (length (heap_push lt xs x)) (heap_push lt xs x)"
proof -
  assume h: "heap (length xs) xs"
  have "up_heap (length xs) (xs @ [x])"
    unfolding up_heap_def
  proof (intro conjI allI impI)
    fix k
    assume k: "0 < k" "k < length (xs @ [x])" "k \<noteq> length xs"
    then show "key ((xs @ [x]) ! parent k) \<le> key ((xs @ [x]) ! k)"
      using h parent_less [of k] by (simp add: heap_def nth_append)
  next
    fix k
    assume "0 < k" "k < length (xs @ [x])" "parent k = length xs"
    then show "key ((xs @ [x]) ! parent (length xs)) \<le> key ((xs @ [x]) ! k)"
      using parent_less [of k] by simp
  qed
  then show ?thesis
    using heap_up_heap [of "length xs" "xs @ [x]"] heap_up_elems [of "length xs" "xs @ [x]" lt]
    by (simp add: heap_push_def)
qed

lemma down_heap_swap:
  assumes d: "down_heap i n xs" and n: "n \<le> length xs" and j: "0 < j" "j < n" "parent j = i"
    and l: "key (xs ! j) < key (xs ! i)" and m: "\<And>k. 0 < k \<Longrightarrow> k < n \<Longrightarrow> parent k = i \<Longrightarrow> key (xs ! j) \<le> key (xs ! k)"
  shows "down_heap j n (swap xs i j)"
proof -
  let ?ys = "swap xs i j"
  have i: "i < j" "i < length xs" "j < length xs" using j n parent_less [of j] by auto
  have nth: "?ys ! k = (if k = i then xs ! j else if k = j then xs ! i else xs ! k)" if "k < length xs" for k
    using nth_swap [OF i(2,3) that] .
  have edge: "key (xs ! parent k) \<le> key (xs ! k)" if "0 < k" "k < n" "parent k \<noteq> i" for k
    using d that by (simp add: down_heap_def)
  have above: "key (xs ! parent i) \<le> key (xs ! k)" if "0 < i" "0 < k" "k < n" "parent k = i" for k
    using d that by (simp add: down_heap_def)
  have 1: "key (?ys ! parent k) \<le> key (?ys ! k)" if k: "0 < k" "k < n" "parent k \<noteq> j" for k
  proof -
    have pk: "parent k < length xs" "parent k < k" "k < length xs" using k n parent_less [of k] by auto
    show ?thesis
    proof (cases "parent k = i")
      case True
      then have "k \<noteq> i" using pk by auto
      then show ?thesis using True l m [OF k(1,2) True] pk i by (auto simp: nth)
    next
      case False
      have "key (xs ! parent i) \<le> key (xs ! j)" if "k = i" using above [of j] j k that by simp
      moreover have "k \<noteq> j" using False j by auto
      ultimately show ?thesis using False k pk i edge [OF k(1,2) False] by (simp add: nth)
    qed
  qed
  have 2: "key (?ys ! parent j) \<le> key (?ys ! k)" if k: "0 < k" "k < n" "parent k = j" for k
  proof -
    have pk: "k < length xs" "j < k" using k n parent_less [of k] by auto
    then show ?thesis using edge [OF k(1,2)] k i j(3) by (simp add: nth)
  qed
  show ?thesis using 1 2 by (simp add: down_heap_def)
qed

lemma heap_down_heap: "down_heap i n xs \<Longrightarrow> n \<le> length xs \<Longrightarrow> heap n (heap_down lt xs i n)"
proof (induction "n - i" arbitrary: i xs rule: less_induct)
  case less
  define j where "j = (if 2 * i + 2 < n \<and> lt (xs ! (2 * i + 2)) (xs ! (2 * i + 1)) then 2 * i + 2 else 2 * i + 1)"
  have step: "heap_down lt xs i n = (if n \<le> 2 * i + 1 \<or> \<not> lt (xs ! j) (xs ! i) then xs
      else heap_down lt (swap xs i j) j n)"
    by (subst heap_down.simps) (simp add: Let_def j_def)
  have m: "key (xs ! j) \<le> key (xs ! k)" if "0 < k" "k < n" "parent k = i" for k
    using that parent_children [of k i] by (auto simp: j_def lt_key)
  show ?case
  proof (cases "n \<le> 2 * i + 1 \<or> \<not> lt (xs ! j) (xs ! i)")
    case True
    then have "heap_down lt xs i n = xs" using step by simp
    moreover have "key (xs ! parent k) \<le> key (xs ! k)" if k: "0 < k" "k < n" for k
    proof (cases "parent k = i")
      case True
      then have "key (xs ! i) \<le> key (xs ! j)"
        using \<open>n \<le> 2 * i + 1 \<or> \<not> lt (xs ! j) (xs ! i)\<close> k parent_children [of k i] by (auto simp: lt_key)
      then show ?thesis using m [OF k True] True by simp
    next
      case False
      then show ?thesis using less.prems k by (simp add: down_heap_def)
    qed
    ultimately show ?thesis by (simp add: heap_def)
  next
    case False
    then have j: "j < n" "0 < j" "parent j = i" "i < j" "key (xs ! j) < key (xs ! i)"
      by (auto simp: j_def parent_def lt_key)
    have "down_heap j n (swap xs i j)" using down_heap_swap [OF less.prems j(2,1,3,5)] m by blast
    then have "heap n (heap_down lt (swap xs i j) j n)" using less.hyps j less.prems(2) by simp
    then show ?thesis using step False by simp
  qed
qed

lemma heap_root: "heap n xs \<Longrightarrow> k < n \<Longrightarrow> key (xs ! 0) \<le> key (xs ! k)"
proof (induction k rule: less_induct)
  case (less k)
  show ?case
  proof (cases "k = 0")
    case False
    then have "key (xs ! 0) \<le> key (xs ! parent k)"
      using less.IH [of "parent k"] less.prems parent_less [of k] by simp
    also have "\<dots> \<le> key (xs ! k)" using False less.prems by (simp add: heap_def)
    finally show ?thesis .
  qed simp
qed

lemma pop_heap:
  assumes h: "heap (length xs) xs" and ne: "xs \<noteq> []"
  shows "fst (heap_pop lt xs) = xs ! 0" "add_mset (fst (heap_pop lt xs)) (mset (snd (heap_pop lt xs))) = mset xs"
    "heap (length (snd (heap_pop lt xs))) (snd (heap_pop lt xs))"
proof -
  define n where "n = length xs - 1"
  define zs where "zs = swap xs 0 n"
  define ys where "ys = heap_down lt zs 0 n"
  have n: "n < length xs" "length xs = Suc n" using ne by (simp_all add: n_def)
  have z: "zs ! k = (if k = 0 then xs ! n else if k = n then xs ! 0 else xs ! k)" if "k < length xs" for k
    unfolding zs_def using nth_swap [of 0 xs n k] n that by simp
  have len: "length zs = Suc n" "mset zs = mset xs" using n by (simp_all add: zs_def mset_swap_elems)
  have ys: "mset ys = mset xs \<and> length ys = Suc n \<and> drop n ys = drop n zs"
  proof (cases "n = 0")
    case True
    then have "ys = zs" unfolding ys_def by (subst heap_down.simps) simp
    then show ?thesis using len by simp
  next
    case False
    then show ?thesis using heap_down_elems [of 0 n zs lt] len by (simp add: ys_def)
  qed
  have "zs ! n = xs ! 0" using z [OF n(1)] n by (cases "n = 0") simp_all
  then have last: "ys ! n = xs ! 0"
    using ys len by (metis Cons_nth_drop_Suc lessI list.inject)
  have "down_heap 0 n zs"
    unfolding down_heap_def
  proof (intro conjI allI impI)
    fix k
    assume k: "0 < k" "k < n" "parent k \<noteq> 0"
    then have "key (xs ! parent k) \<le> key (xs ! k)" using h n by (simp add: heap_def)
    then show "key (zs ! parent k) \<le> key (zs ! k)" using k n z parent_less [of k] by simp
  qed simp
  then have "heap n ys" using heap_down_heap len by (simp add: ys_def)
  then have "key (take n ys ! parent k) \<le> key (take n ys ! k)" if "0 < k" "k < n" for k
    using parent_less [of k] that by (simp add: heap_def)
  then have "heap n (take n ys)" by (simp add: heap_def)
  moreover have split: "ys = take n ys @ [ys ! n]" using ys by (metis lessI take_Suc_conv_app_nth take_all order_refl)
  moreover have pop: "heap_pop lt xs = (ys ! n, take n ys)"
    by (simp add: heap_pop_def Let_def ys_def zs_def n_def)
  ultimately show "fst (heap_pop lt xs) = xs ! 0"
    "heap (length (snd (heap_pop lt xs))) (snd (heap_pop lt xs))"
    using last ys by simp_all
  have "mset xs = mset (take n ys @ [ys ! n])" using ys split by metis
  then show "add_mset (fst (heap_pop lt xs)) (mset (snd (heap_pop lt xs))) = mset xs" by (simp add: pop)
qed

lemma root_least: "heap (length xs) xs \<Longrightarrow> x \<in># mset xs \<Longrightarrow> key (fst (heap_pop lt xs)) \<le> key x"
proof -
  assume h: "heap (length xs) xs" and x: "x \<in># mset xs"
  then obtain k where "k < length xs" "x = xs ! k" by (metis in_multiset_in_set in_set_conv_nth)
  moreover have "xs \<noteq> []" using x by auto
  ultimately show ?thesis using pop_heap(1) [OF h] heap_root [OF h] by simp
qed

end

sublocale heap_order \<subseteq> release_queue "heap_push lt" "heap_pop lt" mset "\<lambda>xs. heap (length xs) xs" key
proof
  fix q :: "'a list" and x :: 'a
  assume h: "heap (length q) q"
  show "heap (length (heap_push lt q x)) (heap_push lt q x)" using push_heap [OF h] .
  show "mset (heap_push lt q x) = add_mset x (mset q)"
    using heap_up_elems [of "length q" "q @ [x]" lt] by (simp add: heap_push_def)
  show "x \<in># mset q \<Longrightarrow> key (fst (heap_pop lt q)) \<le> key x" using root_least [OF h] .
  show "mset q \<noteq> {#} \<Longrightarrow> heap (length (snd (heap_pop lt q))) (snd (heap_pop lt q))"
    using pop_heap(3) [OF h] by simp
  show "mset q \<noteq> {#} \<Longrightarrow> add_mset (fst (heap_pop lt q)) (mset (snd (heap_pop lt q))) = mset q"
    using pop_heap(2) [OF h] by simp
qed

end
