(* ===== verification/Defer_Queue.thy ===== *)
theory Defer_Queue
  imports Binary_Heap "HOL-Library.Product_Lexorder"
begin

text \<open>Delayed packets, \<^verbatim>\<open>internal/netfault/defer.go\<close>: the heap of deadlines, the goroutine that releases what
is due, the flush on stop, and the buffer that holds a packet back behind later ones.

Instants are integers (nanoseconds); the position that the heap stores in its elements is never read
and is left out. The queue, its goroutine, the scheduling calls and the stop call form a step relation.
Shown: every accepted packet is released exactly once, by the stop at the latest; a parked goroutine is
always woken for the next deadline; packets with growing deadlines leave in the order they came.\<close>

section \<open>The queue\<close>

record 'p deferred =
  deadline :: int
  dseq :: nat
  fn :: 'p

definition Less :: "('p, 'z) deferred_scheme \<Rightarrow> ('p, 'z) deferred_scheme \<Rightarrow> bool" where
  "Less a b = (if deadline a = deadline b then dseq a < dseq b else deadline a < deadline b)"

record 'p deferQueue =
  dheap :: "'p deferred list"
  qseq :: nat
  timer :: "int option"
  wake :: bool
  stopped :: bool

definition newDeferQueue :: "'p deferQueue" where
  "newDeferQueue = \<lparr>dheap = [], qseq = 0, timer = None, wake = False, stopped = False\<rparr>"

text \<open>\<^verbatim>\<open>schedule\<close> is the push under the lock and the wake-up after it; other goroutines may run in between.\<close>

definition schedule_push :: "int \<Rightarrow> int \<Rightarrow> 'p \<Rightarrow> 'p deferQueue \<Rightarrow> bool \<times> 'p deferQueue" where
  "schedule_push now d f q =
    (if stopped q then (False, q)
     else
       let n = qseq q + 1 in
       (True, q\<lparr>qseq := n, dheap := heap_push Less (dheap q) \<lparr>deadline = now + d, dseq = n, fn = f\<rparr>\<rparr>))"

definition send_wake :: "'p deferQueue \<Rightarrow> 'p deferQueue" where
  "send_wake q = q\<lparr>wake := True\<rparr>"

text \<open>One pass of the loop in \<^verbatim>\<open>run\<close> under the lock: leave, run a packet, or arm the timer and wait.\<close>

datatype 'p run_act = Exit | Fire "'p deferred" | Park

definition run_pass :: "int \<Rightarrow> 'p deferQueue \<Rightarrow> 'p run_act \<times> 'p deferQueue" where
  "run_pass now q =
    (if stopped q then (Exit, q)
     else if dheap q \<noteq> [] \<and> deadline (dheap q ! 0) - now \<le> 0 then
       (let (d, h) = heap_pop Less (dheap q) in (Fire d, q\<lparr>dheap := h\<rparr>))
     else
       (Park, q\<lparr>timer := (if dheap q \<noteq> [] then Some (now + (deadline (dheap q ! 0) - now)) else None)\<rparr>))"

lemma heap_pop_shorter: "h \<noteq> [] \<Longrightarrow> length (snd (heap_pop lt h)) < length h"
  by (cases h) (auto simp: heap_pop_def Let_def)

function drain_heap :: "'p deferred list \<Rightarrow> 'p deferred list" where
  "drain_heap h = (if h = [] then [] else let (d, h') = heap_pop Less h in d # drain_heap h')"
  by pat_completeness auto
termination
proof (relation "measure length")
  fix h :: "'p deferred list" and x d h'
  assume "h \<noteq> []" "x = heap_pop Less h" "(d, h') = x"
  then show "(h', h) \<in> measure length" using heap_pop_shorter [of h Less] by (metis in_measure snd_conv)
qed simp

declare drain_heap.simps [simp del]

text \<open>\<^verbatim>\<open>stop\<close> up to the unlock: what it will run once the goroutine is gone.\<close>

definition stop_collect :: "'p deferQueue \<Rightarrow> 'p deferred list \<times> 'p deferQueue" where
  "stop_collect q = (drain_heap (dheap q), q\<lparr>stopped := True, timer := None, dheap := []\<rparr>)"

definition pending :: "'p deferQueue \<Rightarrow> nat" where
  "pending q = length (dheap q)"

section \<open>The heap's order\<close>

definition defer_key :: "'p deferred \<Rightarrow> int \<times> nat" where
  "defer_key d = (deadline d, dseq d)"

interpretation deadlines: heap_order Less defer_key
  by unfold_locales (auto simp: Less_def defer_key_def)

abbreviation heap_ok :: "'p deferred list \<Rightarrow> bool" where
  "heap_ok h \<equiv> deadlines.heap (length h) h"

lemma length_heap_down: "length (heap_down lt xs i n) = length xs"
  by (induction lt xs i n rule: heap_down.induct) (subst heap_down.simps, simp add: Let_def)

lemma drain_heap_pops: "drain_heap h = fst (deadlines.pops (length h) h)"
proof (induction h rule: drain_heap.induct)
  case (1 h)
  show ?case
  proof (cases h)
    case (Cons x xs)
    have "length (snd (heap_pop Less h)) = length xs" using Cons by (simp add: heap_pop_def Let_def length_heap_down)
    then show ?thesis
      using "1.IH" [OF _ refl surjective_pairing [symmetric]] Cons by (subst drain_heap.simps) (simp add: split_beta)
  qed (simp add: drain_heap.simps)
qed

lemma drain_heap_sorted:
  assumes "heap_ok h"
  shows "mset (drain_heap h) = mset h" "sorted (map defer_key (drain_heap h))"
  using deadlines.pops_all [OF assms, of "length h"] by (simp_all add: drain_heap_pops)

lemma fire_least:
  assumes "heap_ok h" "h \<noteq> []" "heap_pop Less h = (d, h')"
  shows "heap_ok h'" "mset h = add_mset d (mset h')" "\<And>x. x \<in> set h \<Longrightarrow> defer_key d \<le> defer_key x" "d = h ! 0"
  using deadlines.pop_heap [OF assms(1,2)] deadlines.root_least [OF assms(1)] assms(3) by auto

section \<open>The goroutines\<close>

datatype 'p run_pc = RLoop | RExec "'p deferred" | RSelect | RDone
datatype stop_pc = SIdle | SCollected | SClosed | SFlush

record 'p dsys =
  queue :: "'p deferQueue"
  rpc :: "'p run_pc"
  spc :: stop_pc
  unsent :: nat
  flush :: "'p deferred list"
  clock :: int
  accepted :: "'p deferred list"
  released :: "'p deferred list"

definition dsys_init :: "int \<Rightarrow> 'p dsys" where
  "dsys_init now = \<lparr>queue = newDeferQueue, rpc = RLoop, spc = SIdle, unsent = 0, flush = [], clock = now,
     accepted = [], released = []\<rparr>"

text \<open>\<^verbatim>\<open>accepted\<close> and \<^verbatim>\<open>released\<close> record what went in and what was run. A scheduling call whose push was
accepted and whose wake-up is still to come is counted in \<^verbatim>\<open>unsent\<close>.\<close>

inductive dstep :: "'p dsys \<Rightarrow> 'p dsys \<Rightarrow> bool" where
  sched: "schedule_push (clock s) d f (queue s) = (True, q') \<Longrightarrow>
    dstep s (s\<lparr>queue := q', unsent := unsent s + 1,
      accepted := accepted s @ [\<lparr>deadline = clock s + d, dseq = qseq q', fn = f\<rparr>]\<rparr>)"
| send: "0 < unsent s \<Longrightarrow> dstep s (s\<lparr>queue := send_wake (queue s), unsent := unsent s - 1\<rparr>)"
| tick: "clock s \<le> t \<Longrightarrow> dstep s (s\<lparr>clock := t\<rparr>)"
| timer_fires: "timer (queue s) = Some t \<Longrightarrow> t \<le> clock s \<Longrightarrow>
    dstep s (s\<lparr>queue := send_wake ((queue s)\<lparr>timer := None\<rparr>)\<rparr>)"
| run_exit: "rpc s = RLoop \<Longrightarrow> run_pass (clock s) (queue s) = (Exit, q') \<Longrightarrow> dstep s (s\<lparr>queue := q', rpc := RDone\<rparr>)"
| run_fire: "rpc s = RLoop \<Longrightarrow> run_pass (clock s) (queue s) = (Fire d, q') \<Longrightarrow>
    dstep s (s\<lparr>queue := q', rpc := RExec d\<rparr>)"
| run_park: "rpc s = RLoop \<Longrightarrow> run_pass (clock s) (queue s) = (Park, q') \<Longrightarrow>
    dstep s (s\<lparr>queue := q', rpc := RSelect\<rparr>)"
| run_exec: "rpc s = RExec d \<Longrightarrow> dstep s (s\<lparr>rpc := RLoop, released := released s @ [d]\<rparr>)"
| run_wake: "rpc s = RSelect \<Longrightarrow> wake (queue s) \<Longrightarrow>
    dstep s (s\<lparr>queue := (queue s)\<lparr>wake := False\<rparr>, rpc := RLoop\<rparr>)"
| run_done: "rpc s = RSelect \<Longrightarrow> spc s = SClosed \<Longrightarrow> dstep s (s\<lparr>rpc := RDone\<rparr>)"
| stop_collects: "\<not> stopped (queue s) \<Longrightarrow> stop_collect (queue s) = (ds, q') \<Longrightarrow>
    dstep s (s\<lparr>queue := q', flush := ds, spc := SCollected\<rparr>)"
| stop_closes: "spc s = SCollected \<Longrightarrow> dstep s (s\<lparr>queue := send_wake (queue s), spc := SClosed\<rparr>)"
| stop_joins: "spc s = SClosed \<Longrightarrow> rpc s = RDone \<Longrightarrow> dstep s (s\<lparr>spc := SFlush\<rparr>)"
| stop_runs: "spc s = SFlush \<Longrightarrow> flush s = d # ds \<Longrightarrow> dstep s (s\<lparr>flush := ds, released := released s @ [d]\<rparr>)"

inductive dreach :: "int \<Rightarrow> 'p dsys \<Rightarrow> bool" for t0 where
  start: "dreach t0 (dsys_init t0)"
| step: "dreach t0 s \<Longrightarrow> dstep s s' \<Longrightarrow> dreach t0 s'"

text \<open>The packet the goroutine has taken out and not run yet.\<close>

fun in_flight :: "'p run_pc \<Rightarrow> 'p deferred list" where
  "in_flight (RExec d) = [d]"
| "in_flight _ = []"

lemma in_flight_Nil: "(\<And>d. pc \<noteq> RExec d) \<Longrightarrow> in_flight pc = []"
  by (cases pc) auto

lemmas op_simps = schedule_push_def run_pass_def stop_collect_def send_wake_def Let_def

section \<open>Nothing is lost or released twice\<close>

definition account :: "'p dsys \<Rightarrow> bool" where
  "account s \<longleftrightarrow> heap_ok (dheap (queue s)) \<and>
     mset (accepted s) = mset (released s) + mset (in_flight (rpc s)) + mset (dheap (queue s)) + mset (flush s)"

definition phases :: "'p dsys \<Rightarrow> bool" where
  "phases s \<longleftrightarrow> (spc s = SIdle \<longleftrightarrow> \<not> stopped (queue s)) \<and> (stopped (queue s) \<longrightarrow> dheap (queue s) = []) \<and>
     (\<not> stopped (queue s) \<longrightarrow> flush s = []) \<and> (rpc s = RDone \<longrightarrow> stopped (queue s)) \<and>
     (spc s = SFlush \<longrightarrow> rpc s = RDone)"

lemma phases_step: "dstep s s' \<Longrightarrow> phases s \<Longrightarrow> phases s'"
  by (induction rule: dstep.induct) (auto simp: phases_def op_simps split: if_splits prod.splits)

lemma account_step: "dstep s s' \<Longrightarrow> account s \<Longrightarrow> phases s \<Longrightarrow> account s'"
proof (induction rule: dstep.induct)
  case (sched s d f q')
  then show ?case
    using deadlines.push_inv [of "dheap (queue s)"] deadlines.push_elems [of "dheap (queue s)"]
    by (auto simp: account_def op_simps split: if_splits)
next
  case (run_fire s d q')
  then have h: "heap_ok (dheap (queue s))" "dheap (queue s) \<noteq> []" "heap_pop Less (dheap (queue s)) = (d, dheap q')"
    "flush s = []"
    by (auto simp: account_def phases_def op_simps split: if_splits prod.splits)
  then show ?case using run_fire fire_least(1,2) [OF h(1-3)] by (auto simp: account_def op_simps)
next
  case (stop_collects s ds q')
  then show ?case
    using drain_heap_sorted(1) [of "dheap (queue s)"]
    by (auto simp: account_def phases_def op_simps deadlines.heap_def)
qed (auto simp: account_def phases_def op_simps split: if_splits prod.splits)

lemma account_init: "account (dsys_init t0)" "phases (dsys_init t0)"
  by (simp_all add: dsys_init_def newDeferQueue_def account_def phases_def deadlines.heap_def)

lemma dreach_account: "dreach t0 s \<Longrightarrow> account s \<and> phases s"
proof (induction rule: dreach.induct)
  case start
  then show ?case by (simp add: account_init)
next
  case (step s s')
  then show ?case using account_step phases_step by blast
qed

text \<open>C20. In every interleaving of scheduling calls, the releasing goroutine, the timer and the stop, each
accepted packet is exactly once among those released, the one being released, those queued and those
the stop will flush; and once the stop has flushed, exactly the accepted packets were released, each
once.\<close>

theorem deferred_released_once:
  assumes "dreach t0 s"
  shows "mset (accepted s) =
      mset (released s) + mset (in_flight (rpc s)) + mset (dheap (queue s)) + mset (flush s) \<and>
    (spc s = SFlush \<and> flush s = [] \<longrightarrow> mset (released s) = mset (accepted s))"
proof -
  have "account s" "phases s" using dreach_account [OF assms] by simp_all
  then show ?thesis by (auto simp: account_def phases_def)
qed

section \<open>No wake-up is lost\<close>

definition covered :: "'p dsys \<Rightarrow> bool" where
  "covered s \<longleftrightarrow> (rpc s = RSelect \<and> \<not> stopped (queue s) \<and> dheap (queue s) \<noteq> [] \<longrightarrow>
     wake (queue s) \<or> 0 < unsent s \<or>
     (\<exists>t. timer (queue s) = Some t \<and> (\<forall>x\<in>set (dheap (queue s)). t \<le> deadline x)))"

lemma root_deadline: "heap_ok h \<Longrightarrow> x \<in> set h \<Longrightarrow> deadline (h ! 0) \<le> deadline x"
  using deadlines.heap_root [of "length h" h] by (force simp: in_set_conv_nth defer_key_def less_eq_prod_def)

lemma covered_step: "dstep s s' \<Longrightarrow> covered s \<Longrightarrow> account s \<Longrightarrow> phases s \<Longrightarrow> covered s'"
proof (induction rule: dstep.induct)
  case (run_park s q')
  then show ?case
    using root_deadline [of "dheap (queue s)"] by (auto simp: covered_def account_def op_simps split: if_splits prod.splits)
qed (auto simp: covered_def phases_def op_simps split: if_splits prod.splits)

text \<open>C21. Whenever the releasing goroutine waits while packets are queued, it has been or will be woken in
time: a wake-up is pending, a scheduling call is about to send one, or the armed timer expires no later
than any queued deadline. After the stop it is released through the closed channel.\<close>

theorem deferred_no_lost_wakeup:
  assumes "dreach t0 s" and "rpc s = RSelect" and "dheap (queue s) \<noteq> []"
  shows "wake (queue s) \<or> 0 < unsent s \<or>
    (\<exists>t. timer (queue s) = Some t \<and> (\<forall>x\<in>set (dheap (queue s)). t \<le> deadline x))"
proof -
  have "covered s"
    using assms(1)
  proof (induction rule: dreach.induct)
    case start
    then show ?case by (simp add: covered_def dsys_init_def)
  next
    case (step s s')
    then show ?case using covered_step dreach_account by blast
  qed
  moreover have "phases s" using dreach_account [OF assms(1)] by simp
  ultimately show ?thesis using assms(2,3) by (auto simp: covered_def phases_def)
qed

section \<open>Release order\<close>

definition numbered :: "'p dsys \<Rightarrow> bool" where
  "numbered s \<longleftrightarrow> sorted_wrt (<) (map dseq (accepted s)) \<and> (\<forall>x\<in>set (accepted s). dseq x \<le> qseq (queue s))"

lemma numbered_step: "dstep s s' \<Longrightarrow> numbered s \<Longrightarrow> numbered s'"
  by (induction rule: dstep.induct)
    (fastforce simp: numbered_def op_simps sorted_wrt_append split: if_splits prod.splits)+

lemma key_sorted:
  assumes "sorted_wrt (<) (map dseq xs)" "sorted (map deadline xs)"
  shows "sorted_wrt (<) (map defer_key xs)"
  using assms by (induction xs) (auto simp: defer_key_def)

text \<open>The packets still to come, in the order they will leave.\<close>

definition in_line :: "'p dsys \<Rightarrow> bool" where
  "in_line s \<longleftrightarrow> sorted (map deadline (accepted s)) \<longrightarrow>
     (\<exists>rest. accepted s = released s @ in_flight (rpc s) @ rest @ flush s \<and> mset rest = mset (dheap (queue s)))"

lemma sorted_keys_unique:
  fixes f :: "'a \<Rightarrow> 'b::linorder"
  assumes "sorted_wrt (<) (map f xs)" "sorted (map f ys)" "mset ys = mset xs"
  shows "ys = xs"
proof -
  have eq: "mset (map f ys) = mset (map f xs)" using assms(3) by simp
  have "map f ys = map f xs"
    using properties_for_sort [OF eq assms(2)] sorted_sort_id strict_sorted_imp_sorted [OF assms(1)] by metis
  moreover have "inj_on f (set xs)" using assms(1) strict_sorted_iff distinct_map by blast
  moreover have "set ys = set xs" using assms(3) mset_eq_setD by blast
  ultimately show ?thesis by (simp add: inj_on_map_eq_map)
qed

lemma least_is_head:
  fixes f :: "'a \<Rightarrow> 'b::linorder"
  assumes "sorted_wrt (<) (map f xs)" "x \<in> set xs" "\<And>y. y \<in> set xs \<Longrightarrow> f x \<le> f y"
  shows "\<exists>ys. xs = x # ys"
proof (cases xs)
  case (Cons y ys)
  then have "f x \<le> f y" using assms(3) by simp
  moreover have "f y < f x" if "x \<in> set ys" using assms(1) Cons that by simp
  ultimately show ?thesis using assms(2) Cons by auto
qed (use assms(2) in simp)

lemma in_line_rest:
  assumes "in_line s" "numbered s" "sorted (map deadline (accepted s))"
  obtains rest where "accepted s = released s @ in_flight (rpc s) @ rest @ flush s"
    "mset rest = mset (dheap (queue s))" "sorted_wrt (<) (map defer_key rest)"
proof -
  obtain rest where r: "accepted s = released s @ in_flight (rpc s) @ rest @ flush s"
    "mset rest = mset (dheap (queue s))"
    using assms by (auto simp: in_line_def)
  moreover have "sorted_wrt (<) (map defer_key rest)"
    using key_sorted [of "accepted s"] assms(2,3) r(1) by (simp add: numbered_def sorted_wrt_append)
  ultimately show ?thesis using that by blast
qed

lemma in_line_step: "dstep s s' \<Longrightarrow> in_line s \<Longrightarrow> account s \<Longrightarrow> phases s \<Longrightarrow> numbered s \<Longrightarrow> in_line s'"
proof (induction rule: dstep.induct)
  case (sched s d f q')
  then have q: "\<not> stopped (queue s)" "flush s = []"
    "mset (dheap q') = add_mset \<lparr>deadline = clock s + d, dseq = qseq q', fn = f\<rparr> (mset (dheap (queue s)))"
    using deadlines.push_elems [of "dheap (queue s)"]
    by (auto simp: phases_def account_def op_simps split: if_splits)
  show ?case
    unfolding in_line_def
  proof (intro impI)
    let ?x = "\<lparr>deadline = clock s + d, dseq = qseq q', fn = f\<rparr>"
    let ?s = "s\<lparr>queue := q', unsent := unsent s + 1, accepted := accepted s @ [?x]\<rparr>"
    assume "sorted (map deadline (accepted ?s))"
    then have "sorted (map deadline (accepted s))" by (simp add: sorted_append)
    then obtain rest where "accepted s = released s @ in_flight (rpc s) @ rest @ flush s"
      "mset rest = mset (dheap (queue s))"
      using sched.prems(1) by (auto simp: in_line_def)
    then have "accepted ?s = released ?s @ in_flight (rpc ?s) @ (rest @ [?x]) @ flush ?s \<and>
      mset (rest @ [?x]) = mset (dheap (queue ?s))"
      using q by simp
    then show "\<exists>rest. accepted ?s = released ?s @ in_flight (rpc ?s) @ rest @ flush ?s \<and>
      mset rest = mset (dheap (queue ?s))" by blast
  qed
next
  case (run_fire s d q')
  then have h: "heap_ok (dheap (queue s))" "dheap (queue s) \<noteq> []" "heap_pop Less (dheap (queue s)) = (d, dheap q')"
    by (auto simp: account_def op_simps split: if_splits prod.splits)
  note least = fire_least(2,3) [OF h]
  show ?case
    unfolding in_line_def
  proof (intro impI)
    assume "sorted (map deadline (accepted (s\<lparr>queue := q', rpc := RExec d\<rparr>)))"
    then obtain rest where r: "accepted s = released s @ in_flight (rpc s) @ rest @ flush s"
      "mset rest = mset (dheap (queue s))" "sorted_wrt (<) (map defer_key rest)"
      using in_line_rest [OF run_fire.prems(1,4)] by auto
    have same: "set rest = set (dheap (queue s))" using r(2) mset_eq_setD by blast
    have "d \<in> set rest" unfolding same using least(1) by (metis set_mset_mset union_single_eq_member)
    then obtain ys where "rest = d # ys" using least_is_head [OF r(3)] least(2) same by blast
    then show "\<exists>rest. accepted (s\<lparr>queue := q', rpc := RExec d\<rparr>) =
        released (s\<lparr>queue := q', rpc := RExec d\<rparr>) @ in_flight (rpc (s\<lparr>queue := q', rpc := RExec d\<rparr>)) @
        rest @ flush (s\<lparr>queue := q', rpc := RExec d\<rparr>) \<and>
      mset rest = mset (dheap (queue (s\<lparr>queue := q', rpc := RExec d\<rparr>)))"
      using r(1,2) run_fire.hyps(1) least(1) by auto
  qed
next
  case (stop_collects s ds q')
  then have e: "ds = drain_heap (dheap (queue s))" "dheap q' = []" "flush s = []" "heap_ok (dheap (queue s))"
    by (auto simp: op_simps phases_def account_def)
  show ?case
    unfolding in_line_def
  proof (intro impI)
    assume "sorted (map deadline (accepted (s\<lparr>queue := q', flush := ds, spc := SCollected\<rparr>)))"
    then obtain rest where r: "accepted s = released s @ in_flight (rpc s) @ rest @ flush s"
      "mset rest = mset (dheap (queue s))" "sorted_wrt (<) (map defer_key rest)"
      using in_line_rest [OF stop_collects.prems(1,4)] by auto
    then have "ds = rest" using sorted_keys_unique [OF r(3)] drain_heap_sorted [OF e(4)] e(1) by simp
    then show "\<exists>rest. accepted (s\<lparr>queue := q', flush := ds, spc := SCollected\<rparr>) =
        released (s\<lparr>queue := q', flush := ds, spc := SCollected\<rparr>) @
        in_flight (rpc (s\<lparr>queue := q', flush := ds, spc := SCollected\<rparr>)) @
        rest @ flush (s\<lparr>queue := q', flush := ds, spc := SCollected\<rparr>) \<and>
      mset rest = mset (dheap (queue (s\<lparr>queue := q', flush := ds, spc := SCollected\<rparr>)))"
      using r(1) e by simp
  qed
next
  case (stop_runs s d ds)
  then show ?case by (auto simp: in_line_def phases_def)
qed (auto simp: in_line_def phases_def op_simps split: if_splits prod.splits)

text \<open>If deadlines grow with arrival (as they do for packets delayed by the same amount), the packets
are released in exactly the order in which they were scheduled, ties included, the flush of the stop
among them.\<close>

theorem deferred_release_order:
  assumes "dreach t0 s" and "sorted (map deadline (accepted s))"
  shows "\<exists>rest. accepted s = released s @ rest"
proof -
  have "in_line s \<and> numbered s"
    using assms(1)
  proof (induction rule: dreach.induct)
    case start
    then show ?case by (simp add: in_line_def numbered_def dsys_init_def newDeferQueue_def)
  next
    case (step s s')
    then show ?case using in_line_step numbered_step dreach_account by blast
  qed
  then show ?thesis using assms(2) by (auto simp: in_line_def)
qed

text \<open>A run with two packets delayed by the same amount: both are scheduled, the first is released, the
queue is stopped and flushes the second.\<close>

definition demo_packet1 :: "nat deferred" where
  "demo_packet1 = \<lparr>deadline = 0, dseq = 1, fn = 7\<rparr>"

definition demo_packet2 :: "nat deferred" where
  "demo_packet2 = \<lparr>deadline = 0, dseq = 2, fn = 8\<rparr>"

definition demo_dsys :: "nat deferred list \<Rightarrow> bool \<Rightarrow> bool \<Rightarrow> nat run_pc \<Rightarrow> stop_pc \<Rightarrow> nat deferred list \<Rightarrow>
    nat deferred list \<Rightarrow> nat dsys" where
  "demo_dsys h w st pc sp fl rel =
    \<lparr>queue = \<lparr>dheap = h, qseq = 2, timer = None, wake = w, stopped = st\<rparr>, rpc = pc, spc = sp, unsent = 2,
     flush = fl, clock = 0, accepted = [demo_packet1, demo_packet2], released = rel\<rparr>"

lemma demo_heap:
  "heap_push Less [] demo_packet1 = [demo_packet1]"
  "heap_push Less [demo_packet1] demo_packet2 = [demo_packet1, demo_packet2]"
  "heap_pop Less [demo_packet1, demo_packet2] = (demo_packet1, [demo_packet2])"
  "drain_heap [demo_packet2] = [demo_packet2]"
  by code_simp+

lemma demo_fields [simp]:
  "\<lparr>deadline = 0, dseq = Suc 0, fn = 7\<rparr> = demo_packet1" "\<lparr>deadline = 0, dseq = Suc (Suc 0), fn = 8\<rparr> = demo_packet2" "\<lparr>deadline = 0, dseq = 2, fn = 8\<rparr> = demo_packet2"
  "deadline demo_packet1 = 0" "deadline demo_packet2 = 0"
  by (simp_all add: demo_packet1_def demo_packet2_def)

lemmas demo_simps = demo_dsys_def op_simps demo_heap

lemma demo_scheduled: "dreach 0 (demo_dsys [demo_packet1, demo_packet2] False False RLoop SIdle [] [])"
proof -
  define q1 :: "nat deferQueue" where
    "q1 = \<lparr>dheap = [demo_packet1], qseq = 1, timer = None, wake = False, stopped = False\<rparr>"
  define s1 :: "nat dsys" where
    "s1 = \<lparr>queue = q1, rpc = RLoop, spc = SIdle, unsent = 1, flush = [], clock = 0, accepted = [demo_packet1],
       released = []\<rparr>"
  have "dstep (dsys_init 0) s1"
    using dstep.sched [of "dsys_init 0" 0 7 q1]
    by (simp add: demo_simps dsys_init_def newDeferQueue_def s1_def q1_def)
  moreover have "dstep s1 (demo_dsys [demo_packet1, demo_packet2] False False RLoop SIdle [] [])"
    using dstep.sched [of s1 0 8 "\<lparr>dheap = [demo_packet1, demo_packet2], qseq = 2, timer = None, wake = False,
      stopped = False\<rparr>"]
    by (simp add: demo_simps s1_def q1_def numeral_2_eq_2)
  ultimately show ?thesis using dreach.start dreach.step by blast
qed

lemma demo_fired: "dreach 0 (demo_dsys [demo_packet2] False False RLoop SIdle [] [demo_packet1])"
proof -
  have "dstep (demo_dsys [demo_packet1, demo_packet2] False False RLoop SIdle [] [])
      (demo_dsys [demo_packet2] False False (RExec demo_packet1) SIdle [] [])"
    using dstep.run_fire [of "demo_dsys [demo_packet1, demo_packet2] False False RLoop SIdle [] []" demo_packet1
        "\<lparr>dheap = [demo_packet2], qseq = 2, timer = None, wake = False, stopped = False\<rparr>"]
    by (simp add: demo_simps)
  moreover have "dstep (demo_dsys [demo_packet2] False False (RExec demo_packet1) SIdle [] [])
      (demo_dsys [demo_packet2] False False RLoop SIdle [] [demo_packet1])"
    using dstep.run_exec [of "demo_dsys [demo_packet2] False False (RExec demo_packet1) SIdle [] []" demo_packet1]
    by (simp add: demo_dsys_def)
  ultimately show ?thesis using demo_scheduled dreach.step by blast
qed

lemma demo_flushed: "dreach 0 (demo_dsys [] True True RDone SFlush [] [demo_packet1, demo_packet2])"
proof -
  have "dstep (demo_dsys [demo_packet2] False False RLoop SIdle [] [demo_packet1])
      (demo_dsys [] False True RLoop SCollected [demo_packet2] [demo_packet1])"
    using dstep.stop_collects [of "demo_dsys [demo_packet2] False False RLoop SIdle [] [demo_packet1]" "[demo_packet2]"]
    by (simp add: demo_simps)
  moreover have "dstep (demo_dsys [] False True RLoop SCollected [demo_packet2] [demo_packet1])
      (demo_dsys [] True True RLoop SClosed [demo_packet2] [demo_packet1])"
    using dstep.stop_closes [of "demo_dsys [] False True RLoop SCollected [demo_packet2] [demo_packet1]"]
    by (simp add: demo_dsys_def send_wake_def)
  moreover have "dstep (demo_dsys [] True True RLoop SClosed [demo_packet2] [demo_packet1])
      (demo_dsys [] True True RDone SClosed [demo_packet2] [demo_packet1])"
    using dstep.run_exit [of "demo_dsys [] True True RLoop SClosed [demo_packet2] [demo_packet1]"]
    by (simp add: demo_dsys_def run_pass_def)
  moreover have "dstep (demo_dsys [] True True RDone SClosed [demo_packet2] [demo_packet1])
      (demo_dsys [] True True RDone SFlush [demo_packet2] [demo_packet1])"
    using dstep.stop_joins [of "demo_dsys [] True True RDone SClosed [demo_packet2] [demo_packet1]"]
    by (simp add: demo_dsys_def)
  moreover have "dstep (demo_dsys [] True True RDone SFlush [demo_packet2] [demo_packet1])
      (demo_dsys [] True True RDone SFlush [] [demo_packet1, demo_packet2])"
    using dstep.stop_runs [of "demo_dsys [] True True RDone SFlush [demo_packet2] [demo_packet1]"]
    by (simp add: demo_dsys_def)
  ultimately show ?thesis using demo_fired dreach.step by blast
qed

theorem deferred_released_once_witness:
  "\<exists>s :: nat dsys. dreach 0 s \<and> spc s = SFlush \<and> flush s = [] \<and> mset (released s) = mset (accepted s) \<and>
     length (accepted s) = 2"
  using deferred_released_once [OF demo_flushed] demo_flushed
  by (intro exI [of _ "demo_dsys [] True True RDone SFlush [] [demo_packet1, demo_packet2]"])
    (simp add: demo_dsys_def)

theorem deferred_no_lost_wakeup_witness:
  "\<exists>s :: nat dsys. dreach 0 s \<and> rpc s = RSelect \<and> dheap (queue s) \<noteq> [] \<and> \<not> wake (queue s) \<and>
     (0 < unsent s \<or> (\<exists>t. timer (queue s) = Some t \<and> (\<forall>x\<in>set (dheap (queue s)). t \<le> deadline x)))"
proof -
  define q1 :: "nat deferQueue" where
    "q1 = \<lparr>dheap = [\<lparr>deadline = 5, dseq = 1, fn = 7\<rparr>], qseq = 1, timer = None, wake = False, stopped = False\<rparr>"
  define s1 :: "nat dsys" where
    "s1 = \<lparr>queue = q1, rpc = RLoop, spc = SIdle, unsent = 1, flush = [], clock = 0,
       accepted = [\<lparr>deadline = 5, dseq = 1, fn = 7\<rparr>], released = []\<rparr>"
  have push: "heap_push Less [] x = [x]" for x :: "nat deferred"
    by (simp add: heap_push_def heap_up.simps [of Less "[x]" 0])
  have "dstep (dsys_init 0) s1"
    using dstep.sched [of "dsys_init 0" 5 7 q1]
    by (simp add: op_simps push dsys_init_def newDeferQueue_def s1_def q1_def)
  moreover have "dstep s1 (s1\<lparr>queue := q1\<lparr>timer := Some 5\<rparr>, rpc := RSelect\<rparr>)"
    using dstep.run_park [of s1 "q1\<lparr>timer := Some 5\<rparr>"] by (simp add: op_simps s1_def q1_def)
  ultimately have r: "dreach 0 (s1\<lparr>queue := q1\<lparr>timer := Some 5\<rparr>, rpc := RSelect\<rparr>)"
    using dreach.start dreach.step by blast
  from deferred_no_lost_wakeup [OF r] r show ?thesis
    by (intro exI [of _ "s1\<lparr>queue := q1\<lparr>timer := Some 5\<rparr>, rpc := RSelect\<rparr>"]) (simp add: s1_def q1_def)
qed

theorem deferred_release_order_witness:
  "\<exists>s :: nat dsys. dreach 0 s \<and> sorted (map deadline (accepted s)) \<and> released s \<noteq> [] \<and>
     (\<exists>rest. accepted s = released s @ rest)"
proof -
  have "sorted (map deadline (accepted (demo_dsys [demo_packet2] False False RLoop SIdle [] [demo_packet1])))"
    by (simp add: demo_dsys_def)
  from deferred_release_order [OF demo_fired this] this demo_fired show ?thesis
    by (intro exI [of _ "demo_dsys [demo_packet2] False False RLoop SIdle [] [demo_packet1]"])
      (simp add: demo_dsys_def)
qed

section \<open>The reorder buffer\<close>

text \<open>One packet per flow is held until \<^verbatim>\<open>by\<close> further packets of the flow were seen.\<close>

record 'p heldPacket =
  remaining :: int
  hrelease :: 'p

type_synonym 'p reorderBuffer = "string \<rightharpoonup> 'p heldPacket"

definition newReorderBuffer :: "'p reorderBuffer" where
  "newReorderBuffer = Map.empty"

definition hold :: "string \<Rightarrow> int \<Rightarrow> 'p \<Rightarrow> 'p reorderBuffer \<Rightarrow> bool \<times> 'p reorderBuffer" where
  "hold flow by_n p rb =
    (case rb flow of
       Some _ \<Rightarrow> (False, rb)
     | None \<Rightarrow> (True, rb(flow \<mapsto> \<lparr>remaining = by_n, hrelease = p\<rparr>)))"

definition advance :: "string \<Rightarrow> 'p reorderBuffer \<Rightarrow> 'p option \<times> 'p reorderBuffer" where
  "advance flow rb =
    (case rb flow of
       None \<Rightarrow> (None, rb)
     | Some h \<Rightarrow>
         let h' = h\<lparr>remaining := remaining h - 1\<rparr> in
         if 0 < remaining h' then (None, rb(flow \<mapsto> h')) else (Some (hrelease h'), rb(flow := None)))"

text \<open>\<^verbatim>\<open>drain\<close>, for the order in which Go happens to walk the map.\<close>

fun rb_drain :: "string list \<Rightarrow> 'p reorderBuffer \<Rightarrow> 'p list \<times> 'p reorderBuffer" where
  "rb_drain [] rb = ([], rb)"
| "rb_drain (k # ks) rb =
    (case rb k of
       None \<Rightarrow> rb_drain ks rb
     | Some h \<Rightarrow> let (out, rb') = rb_drain ks (rb(k := None)) in (hrelease h # out, rb'))"

text \<open>A held packet leaves with the packet that makes up the count, and not before.\<close>

primrec advances :: "nat \<Rightarrow> string \<Rightarrow> 'p reorderBuffer \<Rightarrow> 'p option list \<times> 'p reorderBuffer" where
  "advances 0 flow rb = ([], rb)"
| "advances (Suc n) flow rb =
    (let (r, rb1) = advance flow rb; (rs, rb2) = advances n flow rb1 in (r # rs, rb2))"

lemma advances_held:
  assumes "rb flow = Some h" "remaining h = int (Suc n)"
  shows "fst (advances (Suc n) flow rb) = replicate n None @ [Some (hrelease h)] \<and>
    snd (advances (Suc n) flow rb) = rb(flow := None)"
  using assms
proof (induction n arbitrary: rb h)
  case (Suc n)
  let ?h = "h\<lparr>remaining := remaining h - 1\<rparr>"
  have "advance flow rb = (None, rb(flow \<mapsto> ?h))" using Suc.prems by (simp add: advance_def Let_def)
  moreover have "fst (advances (Suc n) flow (rb(flow \<mapsto> ?h))) = replicate n None @ [Some (hrelease ?h)] \<and>
    snd (advances (Suc n) flow (rb(flow \<mapsto> ?h))) = (rb(flow \<mapsto> ?h))(flow := None)"
    using Suc.prems by (intro Suc.IH) simp_all
  ultimately show ?case
    by (subst (1 2) advances.simps(2)) (simp add: split_beta fun_upd_upd del: advances.simps)
qed (simp add: advance_def Let_def)

lemma hold_then_advance:
  assumes "rb flow = None" "hold flow (int (Suc n)) p rb = (ok, rb')"
  shows "ok \<and> fst (advances (Suc n) flow rb') = replicate n None @ [Some p] \<and>
    snd (advances (Suc n) flow rb') = rb"
  using assms advances_held [of rb' flow "\<lparr>remaining = int (Suc n), hrelease = p\<rparr>" n]
  by (auto simp: hold_def fun_upd_idem)

end
