(* ===== verification/Shaper.thy ===== *)
theory Shaper
  imports Go_Prelude
begin

text \<open>The bandwidth shaper, \<^verbatim>\<open>internal/netfault/shape.go\<close>: rates as a specification writes them, and the
single-server queue that paces one direction of the link.

Floating-point arithmetic is a parameter: \<^term>\<open>fl\<close> rounds an exact result to a float64, \<^term>\<open>conv\<close> is the
conversion of a float64 to an integer number of nanoseconds, \<^term>\<open>pf\<close> is the standard library's number
parser. Instants are nanoseconds; the zero time of a fresh shaper is \<^const>\<open>None\<close>. Shown: waits are bounded
by the backlog, transmissions never overlap, and an idle link sends at once.\<close>

section \<open>Rates\<close>

definition cut_suffix :: "string \<Rightarrow> string \<Rightarrow> string option" where
  "cut_suffix s suf = (if has_suffix s suf then Some (trim_suffix s suf) else None)"

definition bit_units :: "(string \<times> rat) list" where
  "bit_units = [(''gbps'', 10 ^ 9), (''gbit'', 10 ^ 9), (''mbps'', 10 ^ 6), (''mbit'', 10 ^ 6), (''kbps'', 10 ^ 3),
     (''kbit'', 10 ^ 3), (''bps'', 1), (''bit'', 1)]"

definition byte_units :: "(string \<times> rat) list" where
  "byte_units = [(''gb/s'', 10 ^ 9), (''mb/s'', 10 ^ 6), (''kb/s'', 10 ^ 3), (''b/s'', 1)]"

definition fscale :: "(rat \<Rightarrow> float64) \<Rightarrow> float64 \<Rightarrow> rat \<Rightarrow> float64" where
  "fscale fl v k = (case v of Fin x \<Rightarrow> fl (x * k) | _ \<Rightarrow> v)"

definition parsePositiveFloat ::
  "(string \<Rightarrow> float64 option) \<Rightarrow> (float64 \<Rightarrow> string) \<Rightarrow> string \<Rightarrow> float64 res" where
  "parsePositiveFloat pf show_float s =
    (let t = trim_space s in
     if t = [] then Inl ''missing a number before the unit''
     else case pf t of
       None \<Rightarrow> Inl (go_quote t @ '' is not a number'')
     | Some v \<Rightarrow> if fle v (Fin 0) then Inl (''must be positive, got '' @ show_float v) else Inr v)"

fun find_unit :: "string \<Rightarrow> (string \<times> rat) list \<Rightarrow> (string \<times> rat) option" where
  "find_unit lower [] = None"
| "find_unit lower ((suffix, umult) # us) =
    (case cut_suffix lower suffix of Some num \<Rightarrow> Some (num, umult) | None \<Rightarrow> find_unit lower us)"

definition ParseRate ::
  "(rat \<Rightarrow> float64) \<Rightarrow> (string \<Rightarrow> float64 option) \<Rightarrow> (float64 \<Rightarrow> string) \<Rightarrow> string \<Rightarrow> float64 res" where
  "ParseRate fl pf show_float s =
    (let raw = trim_space s; lower = to_lower raw in
     if raw = [] then Inl ''rate is empty; want e.g. \"1mbit\", \"512kbps\" or \"2MB/s\"''
     else case find_unit lower byte_units of
       Some (num, umult) \<Rightarrow>
         (case parsePositiveFloat pf show_float num of
            Inl e \<Rightarrow> Inl (''rate '' @ go_quote raw @ '': '' @ e)
          | Inr v \<Rightarrow> Inr (fscale fl v umult))
     | None \<Rightarrow>
         (case find_unit lower bit_units of
            Some (num, umult) \<Rightarrow>
              (case parsePositiveFloat pf show_float num of
                 Inl e \<Rightarrow> Inl (''rate '' @ go_quote raw @ '': '' @ e)
               | Inr v \<Rightarrow> Inr (fscale fl (fscale fl v umult) (1 / 8)))
          | None \<Rightarrow>
              Inl (''rate '' @ go_quote raw @
                '' has no unit; want bits (\"1mbit\", \"512kbps\", \"1gbit\") or bytes (\"2MB/s\", \"64kB/s\")'')))"

section \<open>Pacing\<close>

definition DefaultShaperBacklog :: int where
  "DefaultShaperBacklog = 250000000"

record shaper =
  bytesPerSec :: float64
  maxBacklog :: int
  nextFree :: "int option"
  admitted :: int
  dropped :: int
  backlogPeakNanos :: int

definition newShaper :: "float64 \<Rightarrow> int \<Rightarrow> shaper" where
  "newShaper bps mb = \<lparr>bytesPerSec = bps, maxBacklog = (if mb \<le> 0 then DefaultShaperBacklog else mb),
     nextFree = None, admitted = 0, dropped = 0, backlogPeakNanos = 0\<rparr>"

definition fdiv :: "(rat \<Rightarrow> float64) \<Rightarrow> int \<Rightarrow> float64 \<Rightarrow> float64" where
  "fdiv fl n y =
    (case y of
       Fin b \<Rightarrow> if b = 0 then PInf else fl (of_int n / b)
     | NaN \<Rightarrow> NaN
     | _ \<Rightarrow> Fin 0)"

definition txTime :: "(rat \<Rightarrow> float64) \<Rightarrow> (float64 \<Rightarrow> int) \<Rightarrow> float64 \<Rightarrow> int \<Rightarrow> int" where
  "txTime fl conv bps sz = conv (fscale fl (fdiv fl sz bps) (10 ^ 9))"

definition admit :: "(rat \<Rightarrow> float64) \<Rightarrow> (float64 \<Rightarrow> int) \<Rightarrow> int \<Rightarrow> int \<Rightarrow> shaper \<Rightarrow> int option \<times> shaper" where
  "admit fl conv sz now s =
    (if sz \<le> 0 then (Some 0, s)
     else
       let free = (case nextFree s of None \<Rightarrow> now | Some t \<Rightarrow> if t < now then now else t);
           s1 = s\<lparr>nextFree := Some free\<rparr>;
           backlog = free - now
       in
         if maxBacklog s < backlog then (None, s1\<lparr>dropped := dropped s + 1\<rparr>)
         else
           (Some backlog,
            s1\<lparr>backlogPeakNanos := (if backlogPeakNanos s < backlog then backlog else backlogPeakNanos s),
               nextFree := Some (free + txTime fl conv (bytesPerSec s) sz), admitted := admitted s + 1\<rparr>))"

record ShaperStats =
  Admitted :: int
  Dropped :: int
  PeakBacklog :: int

definition stats :: "shaper \<Rightarrow> ShaperStats" where
  "stats s = \<lparr>Admitted = admitted s, Dropped = dropped s, PeakBacklog = backlogPeakNanos s\<rparr>"

section \<open>What pacing guarantees\<close>

text \<open>A run: packets with their sizes and arrival times. Each gives nothing (dropped) or the instants at
which its transmission starts and ends.\<close>

fun transmit ::
  "(rat \<Rightarrow> float64) \<Rightarrow> (float64 \<Rightarrow> int) \<Rightarrow> (int \<times> int) list \<Rightarrow> shaper \<Rightarrow> (int \<times> int) option list \<times> shaper" where
  "transmit fl conv [] s = ([], s)"
| "transmit fl conv ((sz, now) # ps) s =
    (let (w, s') = admit fl conv sz now s; (rs, s'') = transmit fl conv ps s'
     in (map_option (\<lambda>wait. (now + wait, now + wait + txTime fl conv (bytesPerSec s) sz)) w # rs, s''))"

definition slots :: "(int \<times> int) option list \<Rightarrow> (int \<times> int) list" where
  "slots rs = map the (filter (\<lambda>r. r \<noteq> None) rs)"

lemma slots_Cons [simp]: "slots (None # rs) = slots rs" "slots (Some p # rs) = p # slots rs" "slots [] = []"
  by (simp_all add: slots_def)

lemma admit_effect:
  assumes "0 < sz" "0 \<le> txTime fl conv (bytesPerSec s) sz" "admit fl conv sz now s = (w, s')"
  shows "bytesPerSec s' = bytesPerSec s" "maxBacklog s' = maxBacklog s"
    "\<And>wait. w = Some wait \<Longrightarrow> 0 \<le> wait \<and> wait \<le> maxBacklog s \<and>
       nextFree s' = Some (now + wait + txTime fl conv (bytesPerSec s) sz) \<and>
       (\<forall>t. nextFree s = Some t \<longrightarrow> t \<le> now + wait)"
    "w = None \<Longrightarrow> \<exists>t. nextFree s' = Some t \<and> (\<forall>t0. nextFree s = Some t0 \<longrightarrow> t0 \<le> t)"
  using assms by (auto simp: admit_def Let_def split: if_splits option.splits)

lemma transmit_spaced:
  assumes "\<forall>p\<in>set ps. 0 < fst p \<and> 0 \<le> txTime fl conv (bytesPerSec s) (fst p)"
    "transmit fl conv ps s = (rs, s')"
  shows "sorted_wrt (\<lambda>a b. snd a \<le> fst b) (slots rs) \<and> (\<forall>p\<in>set (slots rs). fst p \<le> snd p) \<and>
    (\<forall>t. nextFree s = Some t \<longrightarrow> (\<forall>p\<in>set (slots rs). t \<le> fst p))"
  using assms
proof (induction ps arbitrary: s rs s')
  case (Cons p ps)
  obtain sz now where p: "p = (sz, now)" by force
  obtain w s1 where a: "admit fl conv sz now s = (w, s1)" by force
  obtain rs2 where t: "transmit fl conv ps s1 = (rs2, s')" using Cons.prems(2) a by (auto simp: p split: prod.splits)
  have pos: "0 < sz" "0 \<le> txTime fl conv (bytesPerSec s) sz" using Cons.prems(1) p by auto
  note eff = admit_effect [OF pos a]
  have ih: "sorted_wrt (\<lambda>a b. snd a \<le> fst b) (slots rs2)" "\<forall>p\<in>set (slots rs2). fst p \<le> snd p"
    "\<And>t p. nextFree s1 = Some t \<Longrightarrow> p \<in> set (slots rs2) \<Longrightarrow> t \<le> fst p"
    using Cons.IH [OF _ t] Cons.prems(1) eff(1) by auto
  show ?case
  proof (cases w)
    case None
    then have "rs = None # rs2" using Cons.prems(2) a t by (simp add: p)
    then show ?thesis using ih eff(4) [OF None] by force
  next
    case (Some wait)
    then have rs: "rs = Some (now + wait, now + wait + txTime fl conv (bytesPerSec s) sz) # rs2"
      using Cons.prems(2) a t by (simp add: p)
    have e: "nextFree s1 = Some (now + wait + txTime fl conv (bytesPerSec s) sz)"
      "\<And>t. nextFree s = Some t \<Longrightarrow> t \<le> now + wait"
      using eff(3) [OF Some] by auto
    have "t \<le> fst q" if "nextFree s = Some t" "q \<in> set (slots rs2)" for t q
      using e(2) [OF that(1)] ih(3) [OF e(1) that(2)] pos(2) by linarith
    then show ?thesis using ih e pos(2) by (auto simp: rs)
  qed
qed simp

lemma transmit_each:
  assumes "\<forall>p\<in>set ps. 0 < fst p \<and> 0 \<le> txTime fl conv (bytesPerSec s) (fst p)"
    "transmit fl conv ps s = (rs, s')"
  shows "length rs = length ps \<and> (\<forall>k<length ps. \<forall>b e. rs ! k = Some (b, e) \<longrightarrow>
    snd (ps ! k) \<le> b \<and> b \<le> snd (ps ! k) + maxBacklog s)"
  using assms
proof (induction ps arbitrary: s rs s')
  case (Cons p ps)
  obtain sz now where p: "p = (sz, now)" by force
  obtain w s1 where a: "admit fl conv sz now s = (w, s1)" by force
  obtain rs2 where t: "transmit fl conv ps s1 = (rs2, s')" using Cons.prems(2) a by (auto simp: p split: prod.splits)
  have pos: "0 < sz" "0 \<le> txTime fl conv (bytesPerSec s) sz" using Cons.prems(1) p by auto
  note eff = admit_effect [OF pos a]
  have ih: "length rs2 = length ps \<and> (\<forall>k<length ps. \<forall>b e. rs2 ! k = Some (b, e) \<longrightarrow>
    snd (ps ! k) \<le> b \<and> b \<le> snd (ps ! k) + maxBacklog s)"
    using Cons.IH [OF _ t] Cons.prems(1) eff(1,2) by simp
  moreover have "rs = map_option (\<lambda>wait. (now + wait, now + wait + txTime fl conv (bytesPerSec s) sz)) w # rs2"
    using Cons.prems(2) a t by (simp add: p)
  ultimately show ?case using eff(3) by (auto simp: p All_less_Suc2)
qed simp

text \<open>C36. For any arrivals and sizes, the transmissions a shaper grants never overlap (so no more than the
configured rate leaves the link), each starts no earlier than its packet arrived, and a packet that is
not dropped waits at most the configured backlog.\<close>

theorem shaper_paces:
  assumes "\<forall>p\<in>set ps. 0 < fst p \<and> 0 \<le> txTime fl conv (bytesPerSec s) (fst p)"
    and "transmit fl conv ps s = (rs, s')"
  shows "sorted_wrt (\<lambda>a b. snd a \<le> fst b) (slots rs) \<and>
    (\<forall>k<length ps. \<forall>b e. rs ! k = Some (b, e) \<longrightarrow>
       snd (ps ! k) \<le> b \<and> b \<le> snd (ps ! k) + maxBacklog s)"
  using transmit_spaced [OF assms] transmit_each [OF assms] by blast

definition conv_trunc :: "float64 \<Rightarrow> int" where
  "conv_trunc v = (case v of Fin x \<Rightarrow> \<lfloor>x\<rfloor> | _ \<Rightarrow> 0)"

theorem shaper_paces_witness:
  "fst (transmit Fin conv_trunc [(1000, 0), (1000, 0), (1000, 0)] (newShaper (Fin 1000000) 1000000)) =
     [Some (0, 1000000), Some (1000000, 2000000), None] \<and>
   sorted_wrt (\<lambda>a b. snd a \<le> fst b)
     (slots (fst (transmit Fin conv_trunc [(1000, 0), (1000, 0), (1000, 0)] (newShaper (Fin 1000000) 1000000))))"
proof -
  let ?s = "newShaper (Fin 1000000) 1000000"
  have tx: "txTime Fin conv_trunc (Fin 1000000) 1000 = 1000000"
    by (simp add: txTime_def fdiv_def fscale_def conv_trunc_def)
  obtain s' where t: "transmit Fin conv_trunc [(1000, 0), (1000, 0), (1000, 0)] ?s =
      ([Some (0, 1000000), Some (1000000, 2000000), None], s')"
    by (simp add: admit_def newShaper_def tx Let_def)
  have "\<forall>p\<in>set [(1000, 0), (1000, 0), (1000, 0)]. 0 < fst p \<and> 0 \<le> txTime Fin conv_trunc (bytesPerSec ?s) (fst p)"
    by (simp add: newShaper_def tx)
  from shaper_paces [OF this t] show ?thesis unfolding t by simp
qed

text \<open>An idle link adds no delay.\<close>

lemma admit_idle:
  "0 < sz \<Longrightarrow> 0 \<le> maxBacklog s \<Longrightarrow> (\<And>t. nextFree s = Some t \<Longrightarrow> t \<le> now) \<Longrightarrow> fst (admit fl conv sz now s) = Some 0"
  by (auto simp: admit_def Let_def split: option.split)

text \<open>A rate that is not a number passes the positivity check.\<close>

lemma nan_rate_accepted:
  "pf ''nan'' = Some NaN \<Longrightarrow> ParseRate fl pf show_float ''nanmbit'' = Inr NaN"
  by (simp add: ParseRate_def parsePositiveFloat_def trim_space_def is_space_def to_lower_def lower_char_def
      byte_units_def bit_units_def cut_suffix_def has_suffix_def trim_suffix_def fle_def fscale_def Let_def)

end
