(* ===== verification/Endpoint.thy ===== *)
theory Endpoint
  imports Packet_Surgery Defer_Queue Shaper
begin

text \<open>The fault endpoint, \<^verbatim>\<open>internal/netfault/endpoint.go\<close>: every packet passes the shaper of its direction and
the rules, and is forwarded, dropped, delayed, duplicated, held back, damaged or answered.

A release callback is a value: the shaper it was wrapped with, if any, and where it leads. Shapers and
write batches are shared by reference in the source; here they live in lists and are named by their
position. A packet is held by one owner at a time and is only changed by the call that handles it.
\<^verbatim>\<open>handle\<close> runs in two steps, up to the decision and from there on, so that other calls, the timer and
\<^verbatim>\<open>Close\<close> can come in between. Shown: with no rules and no shaper the endpoint is transparent; no packet
is lost or invented but by a rule or a full shaper; closing delivers everything held, except what an
overlapping call holds back afterwards.\<close>

section \<open>State\<close>

datatype sink = ToStack nat | ToBatch nat
type_synonym releaser = "nat option \<times> sink"
type_synonym closure = "releaser \<times> PacketBuffer"

record pkt_event =
  eAction :: PAction
  eDirection :: Direction
  eProtocol :: Protocol
  eSrc :: string
  eDst :: string
  eLen :: int
  eFlags :: "string list"
  eFlow :: string
  eRuleLabel :: string

record egressBatch =
  blist :: "PacketBuffer list"
  bsealed :: bool

text \<open>\<^verbatim>\<open>delivered\<close> is what the dispatcher got and \<^verbatim>\<open>written\<close> the lists given to the lower endpoint;
\<^verbatim>\<open>shed\<close> records the packets that a full shaper let go.\<close>

record FaultEndpoint =
  dispatcher :: bool
  rules :: "PRule list option"
  deferQ :: "closure deferQueue"
  reorder :: "closure reorderBuffer"
  onEvent :: bool
  decider :: "pdecider option"
  rnd :: rng
  whereEvals :: nat
  mutationsSkipped :: nat
  flows :: "string \<rightharpoonup> int"
  ep_stopped :: bool
  shapers :: "shaper list"
  shapeC2S :: "nat option"
  shapeS2C :: "nat option"
  mtuOverride :: "32 word"
  batches :: "egressBatch list"
  delivered :: "(nat \<times> PacketBuffer) list"
  written :: "PacketBuffer list list"
  lower_closed :: bool
  shed :: "PacketBuffer list"
  events :: "pkt_event list"

definition ep_New :: "rng \<Rightarrow> bool \<Rightarrow> pdecider option \<Rightarrow> FaultEndpoint" where
  "ep_New seed on dec = \<lparr>dispatcher = False, rules = None, deferQ = newDeferQueue, reorder = newReorderBuffer,
     onEvent = on, decider = dec, rnd = seed, whereEvals = 0, mutationsSkipped = 0, flows = Map.empty,
     ep_stopped = False, shapers = [], shapeC2S = None, shapeS2C = None, mtuOverride = 0, batches = [],
     delivered = [], written = [], lower_closed = False, shed = [], events = []\<rparr>"

definition SetRules :: "PRule list option \<Rightarrow> FaultEndpoint \<Rightarrow> FaultEndpoint" where
  "SetRules rs e = e\<lparr>rules := rs\<rparr>"

definition WhereEvaluations :: "FaultEndpoint \<Rightarrow> nat" where "WhereEvaluations e = whereEvals e"
definition MutationsSkipped :: "FaultEndpoint \<Rightarrow> nat" where "MutationsSkipped e = mutationsSkipped e"

text \<open>The closure in \<^verbatim>\<open>SetBandwidth\<close> that stores a shaper: for both directions two of them are made.\<close>

definition fresh_shaper :: "float64 \<Rightarrow> int \<Rightarrow> FaultEndpoint \<Rightarrow> nat option \<times> FaultEndpoint" where
  "fresh_shaper bps mb e =
    (if fle bps (Fin 0) then (None, e)
     else (Some (length (shapers e)), e\<lparr>shapers := shapers e @ [newShaper bps mb]\<rparr>))"

definition SetBandwidth :: "Direction \<Rightarrow> float64 \<Rightarrow> int \<Rightarrow> FaultEndpoint \<Rightarrow> FaultEndpoint" where
  "SetBandwidth dir bps mb e =
    (case dir of
       DirC2S \<Rightarrow> (let (k, e1) = fresh_shaper bps mb e in e1\<lparr>shapeC2S := k\<rparr>)
     | DirS2C \<Rightarrow> (let (k, e1) = fresh_shaper bps mb e in e1\<lparr>shapeS2C := k\<rparr>)
     | DirBoth \<Rightarrow>
         (let (k, e1) = fresh_shaper bps mb e; (k', e2) = fresh_shaper bps mb (e1\<lparr>shapeC2S := k\<rparr>)
          in e2\<lparr>shapeS2C := k'\<rparr>))"

definition SetMTU :: "32 word \<Rightarrow> FaultEndpoint \<Rightarrow> FaultEndpoint" where
  "SetMTU mtu e = e\<lparr>mtuOverride := mtu\<rparr>"

definition MTU :: "32 word \<Rightarrow> FaultEndpoint \<Rightarrow> 32 word" where
  "MTU lower e = (if 0 < mtuOverride e then mtuOverride e else lower)"

definition shaper_of :: "Direction \<Rightarrow> FaultEndpoint \<Rightarrow> nat option" where
  "shaper_of dir e = (if dir = DirC2S then shapeC2S e else shapeS2C e)"

definition ShaperStatsFor :: "Direction \<Rightarrow> FaultEndpoint \<Rightarrow> ShaperStats option" where
  "ShaperStatsFor dir e = map_option (\<lambda>k. stats (shapers e ! k)) (shaper_of dir e)"

definition ClearShapers :: "FaultEndpoint \<Rightarrow> FaultEndpoint" where
  "ClearShapers e = e\<lparr>shapeC2S := None, shapeS2C := None, mtuOverride := 0\<rparr>"

definition Attach :: "FaultEndpoint \<Rightarrow> FaultEndpoint" where
  "Attach e = e\<lparr>dispatcher := True\<rparr>"

section \<open>Releasing a packet\<close>

definition writeDown :: "PacketBuffer \<Rightarrow> FaultEndpoint \<Rightarrow> FaultEndpoint" where
  "writeDown p e = e\<lparr>written := written e @ [[p]]\<rparr>"

definition batch_release :: "nat \<Rightarrow> PacketBuffer \<Rightarrow> FaultEndpoint \<Rightarrow> FaultEndpoint" where
  "batch_release i p e =
    (let b = batches e ! i in
     if \<not> bsealed b then e\<lparr>batches := (batches e)[i := b\<lparr>blist := blist b @ [p]\<rparr>]\<rparr>
     else writeDown p e)"

definition batch_seal :: "nat \<Rightarrow> FaultEndpoint \<Rightarrow> FaultEndpoint" where
  "batch_seal i e =
    (let b = batches e ! i; e1 = e\<lparr>batches := (batches e)[i := \<lparr>blist = [], bsealed = True\<rparr>]\<rparr> in
     if blist b = [] then e1 else e1\<lparr>written := written e1 @ [blist b]\<rparr>)"

definition send_to :: "sink \<Rightarrow> PacketBuffer \<Rightarrow> FaultEndpoint \<Rightarrow> FaultEndpoint" where
  "send_to t p e =
    (case t of
       ToStack proto \<Rightarrow> e\<lparr>delivered := delivered e @ [(proto, p)]\<rparr>
     | ToBatch i \<Rightarrow> batch_release i p e)"

definition schedule :: "int \<Rightarrow> int \<Rightarrow> closure \<Rightarrow> FaultEndpoint \<Rightarrow> bool \<times> FaultEndpoint" where
  "schedule now d c e =
    (let (ok, q) = schedule_push now d c (deferQ e) in
     if ok then (True, e\<lparr>deferQ := send_wake q\<rparr>) else (False, e))"

definition paced :: "Direction \<Rightarrow> sink \<Rightarrow> FaultEndpoint \<Rightarrow> releaser" where
  "paced dir t e = (shaper_of dir e, t)"

text \<open>Calling what \<^verbatim>\<open>paced\<close> returned.\<close>

definition run_release ::
  "(rat \<Rightarrow> float64) \<Rightarrow> (float64 \<Rightarrow> int) \<Rightarrow> int \<Rightarrow> closure \<Rightarrow> FaultEndpoint \<Rightarrow> FaultEndpoint" where
  "run_release fl conv now c e =
    (let ((sh, t), p) = c in
     case sh of
       None \<Rightarrow> send_to t p e
     | Some k \<Rightarrow>
         (let (w, s') = admit fl conv (pkt_Size p) now (shapers e ! k); e1 = e\<lparr>shapers := (shapers e)[k := s']\<rparr> in
         case w of
           None \<Rightarrow> e1\<lparr>shed := shed e1 @ [p]\<rparr>
         | Some wait \<Rightarrow>
             if wait \<le> 0 then send_to t p e1
             else
               let (ok, e2) = schedule now wait ((None, t), p) e1 in
               if ok then e2 else send_to t p e2))"

fun run_all ::
  "(rat \<Rightarrow> float64) \<Rightarrow> (float64 \<Rightarrow> int) \<Rightarrow> int \<Rightarrow> closure list \<Rightarrow> FaultEndpoint \<Rightarrow> FaultEndpoint" where
  "run_all fl conv now [] e = e"
| "run_all fl conv now (c # cs) e = run_all fl conv now cs (run_release fl conv now c e)"

text \<open>One firing of the timer goroutine, if a packet is due.\<close>

definition ep_tick :: "(rat \<Rightarrow> float64) \<Rightarrow> (float64 \<Rightarrow> int) \<Rightarrow> int \<Rightarrow> FaultEndpoint \<Rightarrow> FaultEndpoint" where
  "ep_tick fl conv now e =
    (case run_pass now (deferQ e) of
       (Fire d, q) \<Rightarrow> run_release fl conv now (fn d) (e\<lparr>deferQ := q\<rparr>)
     | (_, q) \<Rightarrow> e\<lparr>deferQ := q\<rparr>)"

definition ep_Close ::
  "(rat \<Rightarrow> float64) \<Rightarrow> (float64 \<Rightarrow> int) \<Rightarrow> int \<Rightarrow> string list \<Rightarrow> FaultEndpoint \<Rightarrow> FaultEndpoint" where
  "ep_Close fl conv now order e =
    (if ep_stopped e then e
     else
       let (held, rb) = rb_drain order (reorder e);
           e1 = run_all fl conv now held (e\<lparr>ep_stopped := True, reorder := rb\<rparr>);
           (ds, q) = stop_collect (deferQ e1);
           e2 = run_all fl conv now (map fn ds) (e1\<lparr>deferQ := q\<rparr>)
       in e2\<lparr>lower_closed := True\<rparr>)"

section \<open>Handling a packet\<close>

definition nextIndex :: "string \<Rightarrow> FaultEndpoint \<Rightarrow> int \<times> FaultEndpoint" where
  "nextIndex flow e =
    (let n = (case flows e flow of None \<Rightarrow> 0 | Some n \<Rightarrow> n) + 1 in (n - 1, e\<lparr>flows := (flows e)(flow \<mapsto> n)\<rparr>))"

definition ep_emit :: "PRule \<Rightarrow> PacketView \<Rightarrow> FaultEndpoint \<Rightarrow> FaultEndpoint" where
  "ep_emit r pv e =
    (if \<not> onEvent e then e
     else e\<lparr>events := events e @ [\<lparr>eAction = pAction r, eDirection = Dir pv, eProtocol = Proto pv, eSrc = SrcIP pv,
            eDst = DstIP pv, eLen = PayloadLen pv, eFlags = FlagNames (Flags pv), eFlow = Flow pv,
            eRuleLabel = pLabel r\<rparr>]\<rparr>)"

text \<open>A packet on its way through \<^verbatim>\<open>handle\<close>: the callback fixed at the start, the sink of synthesised packets,
and the decision, which is none for a packet the rules never see.\<close>

datatype decision = Untouched | Seen "PRule option" PacketView

record handling =
  hpkt :: PacketBuffer
  hrel :: releaser
  hrev :: "nat option"
  hdec :: decision

text \<open>\<^verbatim>\<open>handle\<close> up to the decision. \<^verbatim>\<open>hrev\<close> is the protocol under which a synthesised packet is delivered to
the stack, for an outbound packet; for an inbound one it is written down the wire.\<close>

definition handle_decide ::
  "codec \<Rightarrow> Direction \<Rightarrow> sink \<Rightarrow> nat option \<Rightarrow> PacketBuffer \<Rightarrow> FaultEndpoint \<Rightarrow> handling \<times> FaultEndpoint" where
  "handle_decide h dir t rv p e =
    (let j = \<lparr>hpkt = p, hrel = paced dir t e, hrev = rv, hdec = Untouched\<rparr> in
     if Rules (rules e) = [] \<or> ep_stopped e then (j, e)
     else
       case Parse (headers.truncate h) (fst (PacketBytes p)) dir of
         None \<Rightarrow> (j, e)
       | Some pv0 \<Rightarrow>
           let (n, e1) = nextIndex (Flow pv0) e;
               pv = pv0\<lparr>Index := n\<rparr>;
               (i, rs, g, evals) = decide (decider e1) pv (rules e1) (rnd e1) (whereEvals e1)
           in (j\<lparr>hdec := Seen (map_option (\<lambda>i. Rules rs ! i) i) pv\<rparr>,
               e1\<lparr>rules := rs, rnd := g, whereEvals := evals\<rparr>))"

definition send_reverse :: "nat option \<Rightarrow> PacketBuffer \<Rightarrow> FaultEndpoint \<Rightarrow> FaultEndpoint" where
  "send_reverse rv p e =
    (case rv of
       None \<Rightarrow> writeDown p e
     | Some proto \<Rightarrow> if dispatcher e then e\<lparr>delivered := delivered e @ [(proto, p)]\<rparr> else e)"

fun release_times ::
  "(rat \<Rightarrow> float64) \<Rightarrow> (float64 \<Rightarrow> int) \<Rightarrow> int \<Rightarrow> closure \<Rightarrow> nat \<Rightarrow> FaultEndpoint \<Rightarrow> FaultEndpoint" where
  "release_times fl conv now c 0 e = e"
| "release_times fl conv now c (Suc n) e = release_times fl conv now c n (run_release fl conv now c e)"

text \<open>The switch on the action of the rule.\<close>

definition act ::
  "codec \<Rightarrow> (rat \<Rightarrow> float64) \<Rightarrow> (float64 \<Rightarrow> int) \<Rightarrow> int \<Rightarrow> PRule \<Rightarrow> PacketView \<Rightarrow> handling \<Rightarrow> FaultEndpoint \<Rightarrow> FaultEndpoint" where
  "act h fl conv now r pv j e =
    (let c = (hrel j, hpkt j) in
     case pAction r of
       PActionPass \<Rightarrow> run_release fl conv now c e
     | PActionDrop \<Rightarrow> e
     | PActionDelay \<Rightarrow>
         (let (ok, e1) = schedule now (pDelay r) c e in if ok then e1 else run_release fl conv now c e1)
     | PActionDuplicate \<Rightarrow> release_times fl conv now c (nat (DuplicateCount r)) e
     | PActionReorder \<Rightarrow>
         (let (ok, rb) = hold (Flow pv) (ReorderBy r) c (reorder e) in
          if ok then e\<lparr>reorder := rb\<rparr> else run_release fl conv now c e)
     | PActionCorrupt \<Rightarrow>
         (let (p', g, skipped) = corrupt h r pv (hpkt j) (rnd e) in
          run_release fl conv now (hrel j, p')
            (e\<lparr>rnd := g, mutationsSkipped := (if skipped then mutationsSkipped e + 1 else mutationsSkipped e)\<rparr>))
     | PActionReset \<Rightarrow>
         (case buildRST h pv of None \<Rightarrow> e | Some rst \<Rightarrow> send_reverse (hrev j) rst e)
     | PActionWindow \<Rightarrow>
         (let (p', skipped) = rewriteWindow h r (hpkt j) in
          run_release fl conv now (hrel j, p')
            (e\<lparr>mutationsSkipped := (if skipped then mutationsSkipped e + 1 else mutationsSkipped e)\<rparr>)))"

text \<open>\<^verbatim>\<open>handle\<close> from the decision on: the hold of the flow is advanced first, and the packet it lets go is
released when the call returns.\<close>

definition handle_act ::
  "codec \<Rightarrow> (rat \<Rightarrow> float64) \<Rightarrow> (float64 \<Rightarrow> int) \<Rightarrow> int \<Rightarrow> handling \<Rightarrow> FaultEndpoint \<Rightarrow> FaultEndpoint" where
  "handle_act h fl conv now j e =
    (case hdec j of
       Untouched \<Rightarrow> run_release fl conv now (hrel j, hpkt j) e
     | Seen rule pv \<Rightarrow>
         (let (late, rb) = advance (Flow pv) (reorder e);
             e1 = e\<lparr>reorder := rb\<rparr>;
             e2 = (case rule of
                     None \<Rightarrow> run_release fl conv now (hrel j, hpkt j) e1
                   | Some r \<Rightarrow> act h fl conv now r pv j (ep_emit r pv e1))
         in case late of None \<Rightarrow> e2 | Some c \<Rightarrow> run_release fl conv now c e2))"

definition handle ::
  "codec \<Rightarrow> (rat \<Rightarrow> float64) \<Rightarrow> (float64 \<Rightarrow> int) \<Rightarrow> int \<Rightarrow> Direction \<Rightarrow> sink \<Rightarrow> nat option \<Rightarrow> PacketBuffer \<Rightarrow>
    FaultEndpoint \<Rightarrow> FaultEndpoint" where
  "handle h fl conv now dir t rv p e =
    (let (j, e1) = handle_decide h dir t rv p e in handle_act h fl conv now j e1)"

definition DeliverNetworkPacket ::
  "codec \<Rightarrow> (rat \<Rightarrow> float64) \<Rightarrow> (float64 \<Rightarrow> int) \<Rightarrow> int \<Rightarrow> nat \<Rightarrow> PacketBuffer \<Rightarrow> FaultEndpoint \<Rightarrow> FaultEndpoint" where
  "DeliverNetworkPacket h fl conv now proto p e =
    (if \<not> dispatcher e then e else handle h fl conv now DirC2S (ToStack proto) None p e)"

fun write_loop ::
  "codec \<Rightarrow> (rat \<Rightarrow> float64) \<Rightarrow> (float64 \<Rightarrow> int) \<Rightarrow> int \<Rightarrow> nat \<Rightarrow> PacketBuffer list \<Rightarrow> FaultEndpoint \<Rightarrow> FaultEndpoint" where
  "write_loop h fl conv now i [] e = e"
| "write_loop h fl conv now i (p # ps) e =
    write_loop h fl conv now i ps (handle h fl conv now DirS2C (ToBatch i) (Some 0x0800) p e)"

definition WritePackets ::
  "codec \<Rightarrow> (rat \<Rightarrow> float64) \<Rightarrow> (float64 \<Rightarrow> int) \<Rightarrow> int \<Rightarrow> PacketBuffer list \<Rightarrow> FaultEndpoint \<Rightarrow> nat \<times> FaultEndpoint" where
  "WritePackets h fl conv now pkts e =
    (let i = length (batches e);
         e1 = e\<lparr>batches := batches e @ [\<lparr>blist = [], bsealed = False\<rparr>]\<rparr>
     in (length pkts, batch_seal i (write_loop h fl conv now i pkts e1)))"

section \<open>Without rules and shapers\<close>

lemma plain_handle:
  assumes "Rules (rules e) = []" "shapeC2S e = None" "shapeS2C e = None"
  shows "handle h fl conv now dir t rv p e = send_to t p e"
  by (simp add: handle_def handle_decide_def handle_act_def paced_def shaper_of_def run_release_def Let_def assms)

lemma plain_write_loop:
  assumes "Rules (rules e) = []" "shapeC2S e = None" "shapeS2C e = None"
    "i < length (batches e)" "\<not> bsealed (batches e ! i)"
  shows "write_loop h fl conv now i ps e =
    e\<lparr>batches := (batches e)[i := (batches e ! i)\<lparr>blist := blist (batches e ! i) @ ps\<rparr>]\<rparr>"
  using assms
  by (induction ps arbitrary: e) (simp_all add: plain_handle send_to_def batch_release_def Let_def)

text \<open>With no rules installed and no shaper set, the endpoint is transparent: an inbound packet reaches the
stack as it is, and a list of outbound packets is written as one list, in order and unchanged.\<close>

theorem endpoint_transparent:
  assumes "Rules (rules e) = []" and "shapeC2S e = None" and "shapeS2C e = None" and "dispatcher e"
    and "pkts \<noteq> []"
  shows "delivered (DeliverNetworkPacket h fl conv now proto p e) = delivered e @ [(proto, p)] \<and>
    written (DeliverNetworkPacket h fl conv now proto p e) = written e \<and>
    fst (WritePackets h fl conv now pkts e) = length pkts \<and>
    written (snd (WritePackets h fl conv now pkts e)) = written e @ [pkts] \<and>
    delivered (snd (WritePackets h fl conv now pkts e)) = delivered e"
proof -
  let ?e = "e\<lparr>batches := batches e @ [\<lparr>blist = [], bsealed = False\<rparr>]\<rparr>"
  let ?i = "length (batches e)"
  have "write_loop h fl conv now ?i pkts ?e =
    ?e\<lparr>batches := (batches ?e)[?i := (batches ?e ! ?i)\<lparr>blist := blist (batches ?e ! ?i) @ pkts\<rparr>]\<rparr>"
    using assms(1-3) by (intro plain_write_loop) simp_all
  then have "written (snd (WritePackets h fl conv now pkts e)) = written e @ [pkts]"
    "delivered (snd (WritePackets h fl conv now pkts e)) = delivered e"
    using assms(5) by (simp_all add: WritePackets_def batch_seal_def Let_def)
  then show ?thesis
    using assms by (simp add: DeliverNetworkPacket_def plain_handle send_to_def WritePackets_def Let_def)
qed

theorem endpoint_transparent_witness:
  "written (snd (WritePackets wire Fin conv_trunc 0 [\<lparr>AsSlices = [datagram], NetworkProtocolNumber = 2048\<rparr>]
     (Attach (ep_New None False None)))) = [[\<lparr>AsSlices = [datagram], NetworkProtocolNumber = 2048\<rparr>]]"
  using endpoint_transparent [of "Attach (ep_New None False None)"
      "[\<lparr>AsSlices = [datagram], NetworkProtocolNumber = 2048\<rparr>]" wire Fin conv_trunc 0 0 undefined]
  by (simp add: Attach_def ep_New_def Rules_def)

section \<open>Conservation\<close>

text \<open>All packets the endpoint has in hand or has passed on.\<close>

definition held_back :: "closure reorderBuffer \<Rightarrow> PacketBuffer multiset" where
  "held_back rb = image_mset (\<lambda>k. snd (hrelease (the (rb k)))) (mset_set (dom rb))"

definition stock :: "FaultEndpoint \<Rightarrow> PacketBuffer multiset" where
  "stock e = image_mset snd (mset (delivered e)) + mset (concat (written e)) + mset (concat (map blist (batches e))) +
     image_mset (\<lambda>d. snd (fn d)) (mset (dheap (deferQ e))) + held_back (reorder e) + mset (shed e)"

fun sink_fits :: "nat \<Rightarrow> sink \<Rightarrow> bool" where
  "sink_fits n (ToStack _) = True"
| "sink_fits n (ToBatch i) = (i < n)"

abbreviation sink_ok :: "FaultEndpoint \<Rightarrow> sink \<Rightarrow> bool" where
  "sink_ok e t \<equiv> sink_fits (length (batches e)) t"

definition ep_wf :: "FaultEndpoint \<Rightarrow> bool" where
  "ep_wf e \<longleftrightarrow> heap_ok (dheap (deferQ e)) \<and> finite (dom (reorder e)) \<and>
     (\<forall>d\<in>set (dheap (deferQ e)). sink_ok e (snd (fst (fn d)))) \<and>
     (\<forall>hp\<in>ran (reorder e). sink_ok e (snd (fst (hrelease hp)))) \<and>
     (stopped (deferQ e) \<longrightarrow> dheap (deferQ e) = []) \<and>
     (\<forall>b\<in>set (batches e). bsealed b \<longrightarrow> blist b = [])"

lemma mset_concat_upd:
  "i < length bs \<Longrightarrow> mset (concat (map f (bs[i := b]))) + mset (f (bs ! i)) = mset (concat (map f bs)) + mset (f b)"
  by (induction bs arbitrary: i) (auto split: nat.splits)

lemma batch_push:
  assumes "i < length bs"
  shows "mset (concat (map blist (bs[i := (bs ! i)\<lparr>blist := blist (bs ! i) @ [p]\<rparr>]))) =
    add_mset p (mset (concat (map blist bs)))"
  using mset_concat_upd [OF assms, of blist "(bs ! i)\<lparr>blist := blist (bs ! i) @ [p]\<rparr>"] by simp

lemma send_to_stock: "sink_ok e t \<Longrightarrow> stock (send_to t p e) = add_mset p (stock e)"
  by (auto simp: send_to_def stock_def batch_release_def writeDown_def batch_push Let_def split: sink.splits)

lemma send_to_keeps [simp]:
  "deferQ (send_to t p e) = deferQ e" "reorder (send_to t p e) = reorder e" "ep_stopped (send_to t p e) = ep_stopped e"
  "length (batches (send_to t p e)) = length (batches e)" "shapers (send_to t p e) = shapers e"
  by (auto simp: send_to_def batch_release_def writeDown_def Let_def split: sink.splits)

lemma set_upd_sealed:
  "\<forall>b\<in>set bs. bsealed b \<longrightarrow> blist b = [] \<Longrightarrow> (bsealed x \<longrightarrow> blist x = []) \<Longrightarrow>
   \<forall>b\<in>set (bs[i := x]). bsealed b \<longrightarrow> blist b = []"
  using set_update_subset_insert [of bs i x] by auto

lemma send_to_sealed:
  "\<forall>b\<in>set (batches e). bsealed b \<longrightarrow> blist b = [] \<Longrightarrow> \<forall>b\<in>set (batches (send_to t p e)). bsealed b \<longrightarrow> blist b = []"
  by (cases t) (auto simp: send_to_def batch_release_def writeDown_def Let_def dest!: subsetD [OF set_update_subset_insert])

lemma send_to_wf: "ep_wf e \<Longrightarrow> ep_wf (send_to t p e)"
  using send_to_sealed [of e t p] by (simp add: ep_wf_def)

lemma schedule_effect:
  assumes "schedule now d c e = (ok, e')" "ep_wf e" "sink_ok e (snd (fst c))"
  shows "ep_wf e'" "ok \<Longrightarrow> stock e' = add_mset (snd c) (stock e)" "\<not> ok \<Longrightarrow> e' = e"
    "batches e' = batches e" "ep_stopped e' = ep_stopped e" "stopped (deferQ e') = stopped (deferQ e)"
proof -
  have h: "heap_ok (dheap (deferQ e))" using assms(2) by (simp add: ep_wf_def)
  let ?x = "\<lparr>deadline = now + d, dseq = qseq (deferQ e) + 1, fn = c\<rparr>"
  let ?q = "send_wake ((deferQ e)\<lparr>qseq := qseq (deferQ e) + 1, dheap := heap_push Less (dheap (deferQ e)) ?x\<rparr>)"
  have e': "(ok, e') = (if stopped (deferQ e) then (False, e) else (True, e\<lparr>deferQ := ?q\<rparr>))"
    using assms(1) by (auto simp: schedule_def schedule_push_def Let_def split: if_splits)
  have "set (heap_push Less (dheap (deferQ e)) ?x) = insert ?x (set (dheap (deferQ e)))"
    by (metis deadlines.push_elems [OF h] set_mset_mset set_mset_add_mset_insert)
  then have "ep_wf (e\<lparr>deferQ := ?q\<rparr>)" if "\<not> stopped (deferQ e)"
    using assms(2,3) that deadlines.push_inv [OF h, of ?x]
    by (simp add: ep_wf_def send_wake_def)
  then show "ep_wf e'" using e' assms(2) by (simp split: if_splits)
  have "stock (e\<lparr>deferQ := ?q\<rparr>) = add_mset (snd c) (stock e)"
    using deadlines.push_elems [OF h, of ?x] by (simp add: stock_def send_wake_def)
  then show "ok \<Longrightarrow> stock e' = add_mset (snd c) (stock e)" using e' by (simp split: if_splits)
  show "\<not> ok \<Longrightarrow> e' = e" "batches e' = batches e" "ep_stopped e' = ep_stopped e"
    "stopped (deferQ e') = stopped (deferQ e)"
    using e' by (simp_all add: send_wake_def split: if_splits)
qed

lemma stock_shapers [simp]: "stock (e\<lparr>shapers := s\<rparr>) = stock e" "ep_wf (e\<lparr>shapers := s\<rparr>) = ep_wf e"
  by (simp_all add: stock_def ep_wf_def)

lemma stock_shed: "stock (e\<lparr>shed := shed e @ [p]\<rparr>) = add_mset p (stock e)" "ep_wf (e\<lparr>shed := xs\<rparr>) = ep_wf e"
  by (simp_all add: stock_def ep_wf_def)

text \<open>A released packet is passed on, put off or shed, and nothing else changes hands.\<close>

definition took :: "PacketBuffer multiset \<Rightarrow> FaultEndpoint \<Rightarrow> FaultEndpoint \<Rightarrow> bool" where
  "took ps e e' \<longleftrightarrow> ep_wf e' \<and> stock e' = ps + stock e \<and> length (batches e') = length (batches e) \<and>
     ep_stopped e' = ep_stopped e \<and> stopped (deferQ e') = stopped (deferQ e)"

lemma took_refl: "ep_wf e \<Longrightarrow> took {#} e e"
  by (simp add: took_def)

lemma took_trans: "took ps e e1 \<Longrightarrow> took qs e1 e2 \<Longrightarrow> took (ps + qs) e e2"
  by (simp add: took_def ac_simps)

lemma took_send: "ep_wf e \<Longrightarrow> sink_ok e t \<Longrightarrow> took {#p#} e (send_to t p e)"
  by (simp add: took_def send_to_wf send_to_stock)

lemma took_release:
  assumes "ep_wf e" "sink_ok e (snd (fst c))"
  shows "took {#snd c#} e (run_release fl conv now c e)"
proof -
  obtain sh t p where c: "c = ((sh, t), p)" by (metis prod.collapse)
  have t: "sink_ok e t" using assms(2) c by simp
  show ?thesis
  proof (cases sh)
    case None
    then show ?thesis using took_send [OF assms(1) t] by (simp add: run_release_def c)
  next
    case (Some k)
    obtain w s' where a: "admit fl conv (pkt_Size p) now (shapers e ! k) = (w, s')" by force
    let ?e = "e\<lparr>shapers := (shapers e)[k := s']\<rparr>"
    have wf: "ep_wf ?e" "sink_ok ?e t" using assms(1) t by simp_all
    have lift: "took {#p#} e x" if "took {#p#} ?e x" for x using that by (simp add: took_def)
    show ?thesis
    proof (cases w)
      case None
      have "took {#p#} ?e (?e\<lparr>shed := shed ?e @ [p]\<rparr>)"
        using wf(1) stock_shed(1) [of ?e p] by (simp add: took_def stock_shed(2) del: stock_shapers)
      then show ?thesis using lift by (simp add: run_release_def c Some None a Let_def)
    next
      case (Some wait)
      obtain ok e2 where s: "schedule now wait ((None, t), p) ?e = (ok, e2)" by force
      note eff = schedule_effect [OF s wf(1)]
      have "took {#p#} ?e (if wait \<le> 0 then send_to t p ?e else if ok then e2 else send_to t p e2)"
        using eff wf(2) took_send [OF wf] by (auto simp: took_def)
      from lift [OF this] show ?thesis by (simp add: run_release_def c \<open>sh = Some k\<close> Some a s Let_def split: if_splits)
    qed
  qed
qed

lemma took_all:
  assumes "ep_wf e" "\<forall>c\<in>set cs. sink_ok e (snd (fst c))"
  shows "took (image_mset snd (mset cs)) e (run_all fl conv now cs e)"
  using assms
proof (induction cs arbitrary: e)
  case (Cons c cs)
  let ?e = "run_release fl conv now c e"
  have r: "took {#snd c#} e ?e" using Cons.prems by (simp add: took_release)
  then have "took (image_mset snd (mset cs)) ?e (run_all fl conv now cs ?e)"
    using Cons.prems(2) by (intro Cons.IH) (simp_all add: took_def)
  from took_trans [OF r this] show ?case by simp
qed (simp add: took_refl)

lemma took_times:
  assumes "ep_wf e" "sink_ok e (snd (fst c))"
  shows "took (replicate_mset n (snd c)) e (release_times fl conv now c n e)"
  using assms
proof (induction n arbitrary: e)
  case (Suc n)
  let ?e = "run_release fl conv now c e"
  have r: "took {#snd c#} e ?e" using Suc.prems by (simp add: took_release)
  then have "took (replicate_mset n (snd c)) ?e (release_times fl conv now c n ?e)"
    using Suc.prems(2) by (intro Suc.IH) (simp_all add: took_def)
  from took_trans [OF r this] show ?case by simp
qed (simp add: took_refl)

text \<open>What the action of a rule owes for the packet it decides on.\<close>

definition act_due :: "codec \<Rightarrow> PRule \<Rightarrow> PacketView \<Rightarrow> handling \<Rightarrow> FaultEndpoint \<Rightarrow> PacketBuffer multiset" where
  "act_due h r pv j e =
    (case pAction r of
       PActionDrop \<Rightarrow> {#}
     | PActionDuplicate \<Rightarrow> replicate_mset (nat (DuplicateCount r)) (hpkt j)
     | PActionCorrupt \<Rightarrow> {#fst (corrupt h r pv (hpkt j) (rnd e))#}
     | PActionReset \<Rightarrow>
         (case buildRST h pv of
            None \<Rightarrow> {#} | Some rst \<Rightarrow> if hrev j = None \<or> dispatcher e then {#rst#} else {#})
     | PActionWindow \<Rightarrow> {#fst (rewriteWindow h r (hpkt j))#}
     | _ \<Rightarrow> {#hpkt j#})"

definition due :: "codec \<Rightarrow> handling \<Rightarrow> FaultEndpoint \<Rightarrow> PacketBuffer multiset" where
  "due h j e =
    (case hdec j of
       Seen (Some r) pv \<Rightarrow> act_due h r pv j e
     | _ \<Rightarrow> {#hpkt j#})"

lemma stock_counters [simp]:
  "stock (e\<lparr>rnd := g, mutationsSkipped := n\<rparr>) = stock e" "ep_wf (e\<lparr>rnd := g, mutationsSkipped := n\<rparr>) = ep_wf e"
  "stock (e\<lparr>rnd := g\<rparr>) = stock e" "ep_wf (e\<lparr>rnd := g\<rparr>) = ep_wf e"
  "stock (e\<lparr>mutationsSkipped := n\<rparr>) = stock e" "ep_wf (e\<lparr>mutationsSkipped := n\<rparr>) = ep_wf e"
  by (simp_all add: stock_def ep_wf_def)

lemma took_reverse:
  assumes "ep_wf e"
  shows "took (if rv = None \<or> dispatcher e then {#p#} else {#}) e (send_reverse rv p e)"
  using assms by (auto simp: send_reverse_def writeDown_def took_def stock_def ep_wf_def split: option.splits)

lemma held_back_upd:
  assumes "finite (dom rb)" "rb k = None"
  shows "held_back (rb(k \<mapsto> x)) = add_mset (snd (hrelease x)) (held_back rb)"
proof -
  have "k \<notin> dom rb" using assms(2) by auto
  then have "image_mset (\<lambda>i. snd (hrelease (the ((rb(k \<mapsto> x)) i)))) (mset_set (dom rb)) = held_back rb"
    unfolding held_back_def using assms(1) by (intro image_mset_cong) auto
  then show ?thesis using assms(1) \<open>k \<notin> dom rb\<close> by (simp add: held_back_def)
qed

lemma took_hold:
  assumes "ep_wf e" "sink_ok e (snd (fst c))" "hold flow n c (reorder e) = (ok, rb)" "ok"
  shows "took {#snd c#} e (e\<lparr>reorder := rb\<rparr>)"
proof -
  have rb: "rb = (reorder e)(flow \<mapsto> \<lparr>remaining = n, hrelease = c\<rparr>)" "reorder e flow = None"
    using assms(3,4) by (auto simp: hold_def split: option.splits)
  have "ep_wf (e\<lparr>reorder := rb\<rparr>)" using assms(1,2) rb by (auto simp: ep_wf_def)
  moreover have "finite (dom (reorder e))" using assms(1) by (simp add: ep_wf_def)
  ultimately show ?thesis using held_back_upd [of "reorder e" flow] rb by (simp add: took_def stock_def)
qed

lemma took_act:
  assumes "ep_wf e" "sink_ok e (snd (hrel j))"
  shows "took (act_due h r pv j e) e (act h fl conv now r pv j e)"
proof -
  let ?c = "(hrel j, hpkt j)"
  have rel: "took {#hpkt j#} e (run_release fl conv now ?c e)" using took_release [OF assms(1), of ?c] assms(2) by simp
  have changed: "took {#q#} e (run_release fl conv now (hrel j, q) e')"
    if "stock e' = stock e" "ep_wf e'" "batches e' = batches e" "ep_stopped e' = ep_stopped e" "deferQ e' = deferQ e" for q e'
    using took_release [OF that(2), of "(hrel j, q)"] that assms(2) by (simp add: took_def)
  show ?thesis
  proof (cases "pAction r")
    case PActionPass
    then show ?thesis using rel by (simp add: act_def act_due_def)
  next
    case PActionDrop
    then show ?thesis using assms(1) by (simp add: act_def act_due_def took_refl)
  next
    case PActionDelay
    obtain ok e1 where s: "schedule now (pDelay r) ?c e = (ok, e1)" by force
    note eff = schedule_effect [OF s assms(1)]
    have "took {#hpkt j#} e (if ok then e1 else run_release fl conv now ?c e1)"
      using eff assms(2) rel by (cases ok) (simp_all add: took_def)
    then show ?thesis by (simp add: act_def act_due_def PActionDelay s)
  next
    case PActionDuplicate
    then show ?thesis using took_times [OF assms(1), of ?c] assms(2) by (simp add: act_def act_due_def)
  next
    case PActionReorder
    obtain ok rb where s: "hold (Flow pv) (ReorderBy r) ?c (reorder e) = (ok, rb)" by force
    have "took {#hpkt j#} e (if ok then e\<lparr>reorder := rb\<rparr> else run_release fl conv now ?c e)"
      using took_hold [OF assms(1) _ s] assms(2) rel by (cases ok) simp_all
    then show ?thesis by (simp add: act_def act_due_def PActionReorder s)
  next
    case PActionCorrupt
    obtain p' g sk where s: "corrupt h r pv (hpkt j) (rnd e) = (p', g, sk)" by (metis prod.collapse)
    show ?thesis using assms(1) by (auto simp: act_def act_due_def PActionCorrupt s intro!: changed)
  next
    case PActionReset
    then show ?thesis
      using took_refl [OF assms(1)] took_reverse [OF assms(1)] by (auto simp: act_def act_due_def split: option.splits)
  next
    case PActionWindow
    obtain p' sk where s: "rewriteWindow h r (hpkt j) = (p', sk)" by force
    show ?thesis using assms(1) by (auto simp: act_def act_due_def PActionWindow s intro!: changed)
  qed
qed

lemma held_back_del:
  assumes "finite (dom rb)" "rb k = Some x"
  shows "held_back rb = add_mset (snd (hrelease x)) (held_back (rb(k := None)))"
proof -
  have "rb = (rb(k := None))(k \<mapsto> x)" using assms(2) by auto
  then show ?thesis using held_back_upd [of "rb(k := None)" k x] assms(1) by simp
qed

lemma advance_effect:
  assumes "advance flow (reorder e) = (late, rb)" "ep_wf e"
  shows "ep_wf (e\<lparr>reorder := rb\<rparr>)" "stock e = image_mset snd (mset (case late of None \<Rightarrow> [] | Some c \<Rightarrow> [c])) + stock (e\<lparr>reorder := rb\<rparr>)"
    "\<And>c. late = Some c \<Longrightarrow> sink_ok e (snd (fst c))"
proof -
  have f: "finite (dom (reorder e))" using assms(2) by (simp add: ep_wf_def)
  have ok: "sink_ok e (snd (fst (hrelease hp)))" if "reorder e k = Some hp" for k hp
    using assms(2) that by (auto simp: ep_wf_def intro: ranI)
  then show "\<And>c. late = Some c \<Longrightarrow> sink_ok e (snd (fst c))"
    using assms(1) by (auto simp: advance_def Let_def split: option.splits if_splits)
  have "finite (dom rb)" "\<forall>hp\<in>ran rb. sink_ok e (snd (fst (hrelease hp)))"
    using assms(1) f ok by (auto simp: advance_def Let_def ran_def split: option.splits if_splits)
  then show "ep_wf (e\<lparr>reorder := rb\<rparr>)" using assms(2) by (simp add: ep_wf_def)
  have "held_back (reorder e) = image_mset snd (mset (case late of None \<Rightarrow> [] | Some c \<Rightarrow> [c])) + held_back rb"
  proof (cases "reorder e flow")
    case (Some x)
    let ?x = "x\<lparr>remaining := remaining x - 1\<rparr>"
    have "held_back ((reorder e)(flow \<mapsto> ?x)) = held_back (reorder e)"
      using held_back_del [OF f Some] held_back_upd [of "(reorder e)(flow := None)" flow ?x] f by simp
    then show ?thesis
      using assms(1) Some held_back_del [OF f Some] by (auto simp: advance_def Let_def split: if_splits)
  qed (use assms(1) in \<open>simp add: advance_def\<close>)
  then show "stock e = image_mset snd (mset (case late of None \<Rightarrow> [] | Some c \<Rightarrow> [c])) + stock (e\<lparr>reorder := rb\<rparr>)"
    by (simp add: stock_def)
qed

lemma emit_keeps_ep [simp]:
  "ep_wf (ep_emit r pv e) = ep_wf e" "stock (ep_emit r pv e) = stock e" "batches (ep_emit r pv e) = batches e"
  "ep_stopped (ep_emit r pv e) = ep_stopped e" "deferQ (ep_emit r pv e) = deferQ e" "rnd (ep_emit r pv e) = rnd e" "dispatcher (ep_emit r pv e) = dispatcher e"
  by (simp_all add: ep_emit_def ep_wf_def stock_def)

lemma act_due_emit: "act_due h r pv j (ep_emit r' pv' (e\<lparr>reorder := rb\<rparr>)) = act_due h r pv j e"
  by (cases "buildRST h pv"; cases "pAction r") (simp_all add: act_due_def)

lemma took_handle_act:
  assumes "ep_wf e" "sink_ok e (snd (hrel j))"
  shows "took (due h j e) e (handle_act h fl conv now j e)"
proof (cases "hdec j")
  case Untouched
  then show ?thesis using took_release [OF assms(1), of "(hrel j, hpkt j)"] assms(2) by (simp add: handle_act_def due_def)
next
  case (Seen rule pv)
  obtain late rb where a: "advance (Flow pv) (reorder e) = (late, rb)" by force
  let ?e = "e\<lparr>reorder := rb\<rparr>"
  note adv = advance_effect [OF a assms(1)]
  define e2 where "e2 = (case rule of None \<Rightarrow> run_release fl conv now (hrel j, hpkt j) ?e
    | Some r \<Rightarrow> act h fl conv now r pv j (ep_emit r pv ?e))"
  have "took (due h j e) ?e e2"
  proof (cases rule)
    case None
    then show ?thesis
      using took_release [OF adv(1), of "(hrel j, hpkt j)"] assms(2) by (simp add: e2_def due_def Seen)
  next
    case (Some r)
    have "took (act_due h r pv j (ep_emit r pv ?e)) (ep_emit r pv ?e) (act h fl conv now r pv j (ep_emit r pv ?e))"
      using adv(1) assms(2) by (intro took_act) simp_all
    then show ?thesis
      by (simp add: e2_def due_def Seen Some took_def act_due_emit)
  qed
  moreover have "took (image_mset snd (mset (case late of None \<Rightarrow> [] | Some c \<Rightarrow> [c]))) e2
      (case late of None \<Rightarrow> e2 | Some c \<Rightarrow> run_release fl conv now c e2)"
    using calculation adv(3) took_refl [of e2] took_release [of e2] by (cases late) (auto simp: took_def)
  ultimately have "took (due h j e + image_mset snd (mset (case late of None \<Rightarrow> [] | Some c \<Rightarrow> [c]))) ?e
      (case late of None \<Rightarrow> e2 | Some c \<Rightarrow> run_release fl conv now c e2)"
    by (rule took_trans)
  then show ?thesis using adv(2) by (simp add: handle_act_def Seen a e2_def [symmetric] took_def ac_simps)
qed

lemma handle_decide_keeps:
  assumes "handle_decide h dir t rv p e = (j, e')"
  shows "stock e' = stock e" "ep_wf e' = ep_wf e" "batches e' = batches e" "snd (hrel j) = t"
  using assms
  by (auto simp: handle_decide_def nextIndex_def paced_def stock_def ep_wf_def Let_def split: if_splits option.splits prod.splits)

lemma took_tick: "ep_wf e \<Longrightarrow> took {#} e (ep_tick fl conv now e)"
proof -
  assume wf: "ep_wf e"
  obtain a q where q: "run_pass now (deferQ e) = (a, q)" by force
  have h: "heap_ok (dheap (deferQ e))" using wf by (simp add: ep_wf_def)
  show ?thesis
  proof (cases a)
    case (Fire d)
    then have d: "dheap (deferQ e) \<noteq> []" "heap_pop Less (dheap (deferQ e)) = (d, dheap q)" "stopped q = stopped (deferQ e)"
      using q by (auto simp: run_pass_def split: if_splits prod.splits)
    note least = fire_least(1,2) [OF h d(1,2)]
    have sub: "set (dheap (deferQ e)) = insert d (set (dheap q))"
      using least(2) by (metis set_mset_mset set_mset_add_mset_insert)
    have "ep_wf (e\<lparr>deferQ := q\<rparr>)" using wf least(1) sub d(1,3) by (simp add: ep_wf_def)
    moreover have "sink_ok e (snd (fst (fn d)))" using wf sub by (simp add: ep_wf_def)
    ultimately have "took {#snd (fn d)#} (e\<lparr>deferQ := q\<rparr>) (run_release fl conv now (fn d) (e\<lparr>deferQ := q\<rparr>))"
      by (intro took_release) simp_all
    moreover have "stock e = add_mset (snd (fn d)) (stock (e\<lparr>deferQ := q\<rparr>))" using least(2) by (simp add: stock_def)
    ultimately show ?thesis using d(3) by (simp add: ep_tick_def q Fire took_def)
  next
    case Exit
    then have "q = deferQ e" using q by (auto simp: run_pass_def split: if_splits prod.splits)
    then show ?thesis using wf by (simp add: ep_tick_def q Exit took_def)
  next
    case Park
    then have "dheap q = dheap (deferQ e)" "stopped q = stopped (deferQ e)"
      using q by (auto simp: run_pass_def split: if_splits prod.splits)
    then show ?thesis using wf by (simp add: ep_tick_def q Park took_def ep_wf_def stock_def)
  qed
qed

lemma rb_drain_effect:
  assumes "rb_drain ks rb = (out, rb')" "finite (dom rb)"
  shows "held_back rb = image_mset snd (mset out) + held_back rb' \<and> dom rb' = dom rb - set ks \<and>
    (\<forall>c\<in>set out. \<exists>hp\<in>ran rb. c = hrelease hp)"
  using assms
proof (induction ks arbitrary: rb out)
  case (Cons k ks)
  show ?case
  proof (cases "rb k")
    case None
    then show ?thesis using Cons.IH [of rb out] Cons.prems by auto
  next
    case (Some hp)
    define rb1 where "rb1 = rb(k := None)"
    have rb1: "dom rb1 = dom rb - {k}" "ran rb1 \<subseteq> ran rb" "held_back rb = add_mset (snd (hrelease hp)) (held_back rb1)"
      using held_back_del [OF Cons.prems(2) Some] by (auto simp: rb1_def ran_def)
    obtain out1 where o: "rb_drain ks rb1 = (out1, rb')" "out = hrelease hp # out1"
      using Cons.prems(1) Some by (auto simp: rb1_def split: prod.splits)
    have "finite (dom rb1)" using Cons.prems(2) rb1(1) by simp
    note IH = Cons.IH [OF o(1) this]
    have hp: "hp \<in> ran rb" using Some by (rule ranI)
    show ?thesis
    proof (intro conjI)
      show "held_back rb = image_mset snd (mset out) + held_back rb'" using IH rb1(3) o(2) by simp
      show "dom rb' = dom rb - set (k # ks)" using IH rb1(1) by (simp add: Diff_insert2 [symmetric])
      show "\<forall>c\<in>set out. \<exists>hp\<in>ran rb. c = hrelease hp" using IH rb1(2) o(2) hp by (simp add: subset_iff) blast
    qed
  qed
qed simp

lemma schedule_reorder [simp]: "reorder (snd (schedule now d c e)) = reorder e"
  by (simp add: schedule_def split_beta)

lemma run_release_reorder [simp]: "reorder (run_release fl conv now c e) = reorder e"
  by (simp add: run_release_def split_beta Let_def split: option.split)

lemma run_all_reorder [simp]: "reorder (run_all fl conv now cs e) = reorder e"
  by (induction cs arbitrary: e) simp_all

lemma empty_heap_ok: "deadlines.heap 0 []"
  by (simp add: deadlines.heap_def)

lemma Close_effect:
  assumes "ep_wf e" "set order = dom (reorder e)" "\<not> ep_stopped e"
  shows "ep_wf (ep_Close fl conv now order e) \<and> stock (ep_Close fl conv now order e) = stock e \<and>
    length (batches (ep_Close fl conv now order e)) = length (batches e) \<and>
    ep_stopped (ep_Close fl conv now order e) \<and> stopped (deferQ (ep_Close fl conv now order e)) \<and>
    reorder (ep_Close fl conv now order e) = Map.empty"
proof -
  obtain held rb where d: "rb_drain order (reorder e) = (held, rb)" by force
  have f: "finite (dom (reorder e))" using assms(1) by (simp add: ep_wf_def)
  note eff = rb_drain_effect [OF d f]
  then have rb: "rb = Map.empty" using assms(2) by (metis Diff_cancel dom_eq_empty_conv)
  have held: "\<forall>c\<in>set held. sink_ok e (snd (fst c))" using eff assms(1) by (auto simp: ep_wf_def)
  let ?e0 = "e\<lparr>ep_stopped := True, reorder := rb\<rparr>"
  let ?e1 = "run_all fl conv now held ?e0"
  have "ep_wf ?e0" using assms(1) rb by (simp add: ep_wf_def)
  then have t1: "took (image_mset snd (mset held)) ?e0 ?e1" using held by (intro took_all) simp_all
  have s0: "stock e = image_mset snd (mset held) + stock ?e0" using eff by (simp add: stock_def)
  let ?ds = "drain_heap (dheap (deferQ ?e1))"
  let ?q = "snd (stop_collect (deferQ ?e1))"
  let ?e2 = "run_all fl conv now (map fn ?ds) (?e1\<lparr>deferQ := ?q\<rparr>)"
  have h: "heap_ok (dheap (deferQ ?e1))" using t1 by (simp add: took_def ep_wf_def)
  note ds = drain_heap_sorted(1) [OF h]
  have "ep_wf (?e1\<lparr>deferQ := ?q\<rparr>)"
    using t1 rb by (simp add: took_def ep_wf_def stop_collect_def empty_heap_ok)
  moreover have "\<forall>c\<in>set (map fn ?ds). sink_ok ?e1 (snd (fst c))"
  proof -
    have "ep_wf ?e1" using t1 by (simp only: took_def)
    then show ?thesis unfolding set_map mset_eq_setD [OF ds] by (simp add: ep_wf_def)
  qed
  ultimately have t2: "took (image_mset snd (mset (map fn ?ds))) (?e1\<lparr>deferQ := ?q\<rparr>) ?e2"
    by (intro took_all) simp_all
  have s1: "stock ?e1 = image_mset snd (mset (map fn ?ds)) + stock (?e1\<lparr>deferQ := ?q\<rparr>)"
    using ds by (simp add: stock_def stop_collect_def image_mset.compositionality comp_def)
  have c: "ep_Close fl conv now order e = ?e2\<lparr>lower_closed := True\<rparr>"
    using assms(3) by (simp add: ep_Close_def d stop_collect_def Let_def)
  have l: "ep_wf (x\<lparr>lower_closed := True\<rparr>) = ep_wf x" "stock (x\<lparr>lower_closed := True\<rparr>) = stock x" for x
    by (simp_all add: ep_wf_def stock_def)
  have "stopped ?q" by (simp add: stop_collect_def)
  then show ?thesis unfolding c using t1 t2 s0 s1 rb by (simp add: took_def l ac_simps)
qed

section \<open>Concurrent use\<close>

text \<open>Calls of \<^verbatim>\<open>handle\<close> that have decided and not yet acted are pending; any of them, the timer goroutine, a
configuration call or \<^verbatim>\<open>Close\<close> may go next, at any instant. \<^verbatim>\<open>owed\<close> adds up what the decided packets are
due. A batch is sealed by the call that opened it, when its packets have been handled.\<close>

record esys =
  ep :: FaultEndpoint
  jobs :: "handling list"
  owed :: "PacketBuffer multiset"

inductive estep :: "codec \<Rightarrow> (rat \<Rightarrow> float64) \<Rightarrow> (float64 \<Rightarrow> int) \<Rightarrow> esys \<Rightarrow> esys \<Rightarrow> bool" for h fl conv where
  inbound: "dispatcher (ep s) \<Longrightarrow> handle_decide h DirC2S (ToStack proto) None p (ep s) = (j, e') \<Longrightarrow>
    estep h fl conv s (s\<lparr>ep := e', jobs := jobs s @ [j]\<rparr>)"
| open_batch: "estep h fl conv s (s\<lparr>ep := (ep s)\<lparr>batches := batches (ep s) @ [\<lparr>blist = [], bsealed = False\<rparr>]\<rparr>\<rparr>)"
| outbound: "i < length (batches (ep s)) \<Longrightarrow> \<not> bsealed (batches (ep s) ! i) \<Longrightarrow>
    handle_decide h DirS2C (ToBatch i) (Some 0x0800) p (ep s) = (j, e') \<Longrightarrow>
    estep h fl conv s (s\<lparr>ep := e', jobs := jobs s @ [j]\<rparr>)"
| acts: "jobs s = xs @ j # ys \<Longrightarrow>
    estep h fl conv s (s\<lparr>ep := handle_act h fl conv now j (ep s), jobs := xs @ ys, owed := owed s + due h j (ep s)\<rparr>)"
| seal: "i < length (batches (ep s)) \<Longrightarrow> \<forall>j\<in>set (jobs s). snd (hrel j) \<noteq> ToBatch i \<Longrightarrow>
    estep h fl conv s (s\<lparr>ep := batch_seal i (ep s)\<rparr>)"
| timer: "estep h fl conv s (s\<lparr>ep := ep_tick fl conv now (ep s)\<rparr>)"
| set_rules: "estep h fl conv s (s\<lparr>ep := SetRules rs (ep s)\<rparr>)"
| set_bandwidth: "estep h fl conv s (s\<lparr>ep := SetBandwidth dir bps mb (ep s)\<rparr>)"
| set_mtu: "estep h fl conv s (s\<lparr>ep := SetMTU mtu (ep s)\<rparr>)"
| clear_shapers: "estep h fl conv s (s\<lparr>ep := ClearShapers (ep s)\<rparr>)"
| attach: "estep h fl conv s (s\<lparr>ep := Attach (ep s)\<rparr>)"
| close: "set order = dom (reorder (ep s)) \<Longrightarrow> estep h fl conv s (s\<lparr>ep := ep_Close fl conv now order (ep s)\<rparr>)"

inductive ereach :: "codec \<Rightarrow> (rat \<Rightarrow> float64) \<Rightarrow> (float64 \<Rightarrow> int) \<Rightarrow> esys \<Rightarrow> bool" for h fl conv where
  start: "ereach h fl conv \<lparr>ep = ep_New seed on dec, jobs = [], owed = {#}\<rparr>"
| step: "ereach h fl conv s \<Longrightarrow> estep h fl conv s s' \<Longrightarrow> ereach h fl conv s'"

definition esys_inv :: "esys \<Rightarrow> bool" where
  "esys_inv s \<longleftrightarrow> ep_wf (ep s) \<and> stock (ep s) = owed s \<and> (\<forall>j\<in>set (jobs s). sink_ok (ep s) (snd (hrel j))) \<and>
     stopped (deferQ (ep s)) = ep_stopped (ep s)"

lemma config_keeps:
  "stock (SetRules rs e) = stock e" "ep_wf (SetRules rs e) = ep_wf e" "batches (SetRules rs e) = batches e"
  "stock (SetBandwidth dir bps mb e) = stock e" "ep_wf (SetBandwidth dir bps mb e) = ep_wf e"
  "batches (SetBandwidth dir bps mb e) = batches e"
  "stock (SetMTU mtu e) = stock e" "ep_wf (SetMTU mtu e) = ep_wf e" "batches (SetMTU mtu e) = batches e"
  "stock (ClearShapers e) = stock e" "ep_wf (ClearShapers e) = ep_wf e" "batches (ClearShapers e) = batches e"
  "stock (Attach e) = stock e" "ep_wf (Attach e) = ep_wf e" "batches (Attach e) = batches e"
  "deferQ (SetRules rs e) = deferQ e" "deferQ (SetBandwidth dir bps mb e) = deferQ e" "deferQ (SetMTU mtu e) = deferQ e"
  "deferQ (ClearShapers e) = deferQ e" "deferQ (Attach e) = deferQ e"
  "ep_stopped (SetRules rs e) = ep_stopped e" "ep_stopped (SetBandwidth dir bps mb e) = ep_stopped e"
  "ep_stopped (SetMTU mtu e) = ep_stopped e" "ep_stopped (ClearShapers e) = ep_stopped e" "ep_stopped (Attach e) = ep_stopped e"
  by (simp_all add: SetRules_def SetBandwidth_def fresh_shaper_def SetMTU_def ClearShapers_def Attach_def stock_def
      ep_wf_def split: Direction.split)

lemma seal_keeps:
  assumes "i < length (batches e)" "ep_wf e"
  shows "stock (batch_seal i e) = stock e" "ep_wf (batch_seal i e)" "length (batches (batch_seal i e)) = length (batches e)"
    "deferQ (batch_seal i e) = deferQ e" "ep_stopped (batch_seal i e) = ep_stopped e"
proof -
  have "mset (concat (map blist ((batches e)[i := \<lparr>blist = [], bsealed = True\<rparr>]))) + mset (blist (batches e ! i)) =
    mset (concat (map blist (batches e)))"
    using mset_concat_upd [OF assms(1), of blist "\<lparr>blist = [], bsealed = True\<rparr>"] by simp
  then show "stock (batch_seal i e) = stock e" by (auto simp: batch_seal_def stock_def Let_def ac_simps)
  show "ep_wf (batch_seal i e)"
    using assms(2) set_upd_sealed [of "batches e" "\<lparr>blist = [], bsealed = True\<rparr>" i]
    by (simp add: batch_seal_def ep_wf_def Let_def)
qed (simp_all add: batch_seal_def Let_def)

lemma esys_inv_took:
  "esys_inv s \<Longrightarrow> took ps (ep s) e \<Longrightarrow> set js \<subseteq> set (jobs s) \<Longrightarrow> esys_inv (s\<lparr>ep := e, jobs := js, owed := owed s + ps\<rparr>)"
  by (auto simp: esys_inv_def took_def ac_simps)

lemma esys_inv_decide:
  assumes "esys_inv s" "handle_decide h dir t rv p (ep s) = (j, e')" "sink_ok (ep s) t"
  shows "esys_inv (s\<lparr>ep := e', jobs := jobs s @ [j]\<rparr>)"
proof -
  have "deferQ e' = deferQ (ep s)" "ep_stopped e' = ep_stopped (ep s)"
    using assms(2) by (auto simp: handle_decide_def nextIndex_def Let_def split: if_splits option.splits prod.splits)
  then show ?thesis using assms handle_decide_keeps [OF assms(2)] by (auto simp: esys_inv_def)
qed

lemma esys_inv_step: "estep h fl conv s s' \<Longrightarrow> esys_inv s \<Longrightarrow> esys_inv s'"
proof (induction rule: estep.induct)
  case (inbound s proto p j e')
  then show ?case using esys_inv_decide by simp
next
  case (open_batch s)
  have "sink_fits n t \<Longrightarrow> sink_fits (Suc n) t" for n t by (cases t) simp_all
  then show ?case using open_batch by (auto simp: esys_inv_def ep_wf_def stock_def)
next
  case (outbound i s p j e')
  then show ?case using esys_inv_decide [of s] by simp
next
  case (acts s xs j ys now)
  have "took (due h j (ep s)) (ep s) (handle_act h fl conv now j (ep s))"
    using acts by (intro took_handle_act) (auto simp: esys_inv_def)
  then show ?case using esys_inv_took [OF acts(2), of _ _ "xs @ ys"] acts(1) by auto
next
  case (seal i s)
  then show ?case using seal_keeps [of i "ep s"] by (simp add: esys_inv_def)
next
  case (timer s now)
  then have "took {#} (ep s) (ep_tick fl conv now (ep s))" by (intro took_tick) (simp add: esys_inv_def)
  then show ?case using esys_inv_took [OF timer, of "{#}" _ "jobs s"] by simp
next
  case (close order s now)
  show ?case
  proof (cases "ep_stopped (ep s)")
    case True
    then show ?thesis using close by (simp add: ep_Close_def)
  next
    case False
    then show ?thesis
      using Close_effect [OF _ close(1) False, of fl conv now] close(2) by (simp add: esys_inv_def)
  qed
qed (simp_all add: esys_inv_def config_keeps)

lemma esys_inv_reach: "ereach h fl conv s \<Longrightarrow> esys_inv s"
proof (induction rule: ereach.induct)
  case (start seed on dec)
  then show ?case
    by (simp add: esys_inv_def ep_New_def ep_wf_def stock_def held_back_def newDeferQueue_def newReorderBuffer_def empty_heap_ok)
next
  case (step s s')
  then show ?case using esys_inv_step by blast
qed

text \<open>C19. Under every interleaving of inbound and outbound packets, timer firings, configuration calls, seals
and the close, what the rules owe for the packets they decided on is exactly what was delivered to the
stack, written to the wire or collected in a batch, is waiting for its deadline or behind other
packets, or was shed by a full shaper. Once the endpoint is closed, its batches are sealed and nothing
is held behind other packets, all of it has been delivered, written or shed.\<close>

theorem endpoint_conserves:
  assumes "ereach h fl conv s"
  shows "owed s = image_mset snd (mset (delivered (ep s))) + mset (concat (written (ep s))) +
      mset (concat (map blist (batches (ep s)))) + image_mset (\<lambda>d. snd (fn d)) (mset (dheap (deferQ (ep s)))) +
      held_back (reorder (ep s)) + mset (shed (ep s)) \<and>
    (ep_stopped (ep s) \<and> reorder (ep s) = Map.empty \<and> (\<forall>b\<in>set (batches (ep s)). bsealed b) \<longrightarrow>
      owed s = image_mset snd (mset (delivered (ep s))) + mset (concat (written (ep s))) + mset (shed (ep s)))"
proof -
  have i: "esys_inv s" using assms by (rule esys_inv_reach)
  then have "dheap (deferQ (ep s)) = []" if "ep_stopped (ep s)" using that by (auto simp: esys_inv_def ep_wf_def)
  moreover have "mset (concat (map blist (batches (ep s)))) = {#}" if "\<forall>b\<in>set (batches (ep s)). bsealed b"
    using i that by (auto simp: esys_inv_def ep_wf_def)
  ultimately show ?thesis using i by (auto simp: esys_inv_def stock_def held_back_def simp del: concat_eq_Nil_conv mset_zero_iff)
qed

text \<open>The sequential calls are runs of these steps.\<close>

lemma handle_steps:
  assumes "handle_decide h dir t rv p e = (j, e1)"
    "estep h fl conv \<lparr>ep = e, jobs = [], owed = w\<rparr> \<lparr>ep = e1, jobs = [j], owed = w\<rparr>"
  shows "(estep h fl conv)\<^sup>*\<^sup>* \<lparr>ep = e, jobs = [], owed = w\<rparr>
    \<lparr>ep = handle h fl conv now dir t rv p e, jobs = [], owed = w + due h j e1\<rparr>"
proof -
  have "estep h fl conv \<lparr>ep = e1, jobs = [j], owed = w\<rparr>
      \<lparr>ep = handle_act h fl conv now j e1, jobs = [], owed = w + due h j e1\<rparr>"
    using estep.acts [of "\<lparr>ep = e1, jobs = [j], owed = w\<rparr>" "[]" j "[]" h fl conv now] by simp
  then show ?thesis using assms by (simp add: handle_def)
qed

lemma DeliverNetworkPacket_steps:
  "\<exists>w'. (estep h fl conv)\<^sup>*\<^sup>* \<lparr>ep = e, jobs = [], owed = w\<rparr>
     \<lparr>ep = DeliverNetworkPacket h fl conv now proto p e, jobs = [], owed = w'\<rparr>"
proof (cases "dispatcher e")
  case True
  obtain j e1 where d: "handle_decide h DirC2S (ToStack proto) None p e = (j, e1)" by force
  have "estep h fl conv \<lparr>ep = e, jobs = [], owed = w\<rparr> \<lparr>ep = e1, jobs = [j], owed = w\<rparr>"
    using estep.inbound [of "\<lparr>ep = e, jobs = [], owed = w\<rparr>", OF _ , of h proto p j e1 fl conv] True d by simp
  from handle_steps [OF d this] True show ?thesis by (auto simp: DeliverNetworkPacket_def)
qed (auto simp: DeliverNetworkPacket_def)

definition seals :: "FaultEndpoint \<Rightarrow> bool list" where
  "seals e = map bsealed (batches e)"

lemma seals_send [simp]: "seals (send_to t p e) = seals e"
proof (cases t)
  case (ToBatch i)
  have "(map bsealed (batches e))[i := bsealed (batches e ! i)] = map bsealed (batches e)"
    by (cases "i < length (batches e)") (simp_all add: list_update_beyond map_update [symmetric])
  then show ?thesis
    by (cases "bsealed (batches e ! i)")
      (simp_all add: ToBatch send_to_def seals_def batch_release_def writeDown_def map_update Let_def)
qed (simp add: send_to_def seals_def)

lemma seals_release [simp]: "seals (run_release fl conv now c e) = seals e"
proof -
  have "seals (snd (schedule now d c e)) = seals e" for d c e by (simp add: schedule_def seals_def split_beta)
  moreover have "seals (e\<lparr>shapers := s\<rparr>) = seals e" "seals (e\<lparr>shed := x\<rparr>) = seals e" for e s x by (simp_all add: seals_def)
  ultimately show ?thesis by (simp add: run_release_def split_beta Let_def split: option.split)
qed

lemma seals_times [simp]: "seals (release_times fl conv now c n e) = seals e"
  by (induction n arbitrary: e) simp_all

lemma seals_act [simp]: "seals (act h fl conv now r pv j e) = seals e"
proof -
  have "seals (snd (schedule now d c e)) = seals e" for d c e by (simp add: schedule_def seals_def split_beta)
  moreover have "seals (send_reverse rv p e) = seals e" for rv p e
    by (simp add: send_reverse_def writeDown_def seals_def split: option.split)
  moreover have "seals (e\<lparr>reorder := rb\<rparr>) = seals e" "seals (e\<lparr>rnd := g, mutationsSkipped := n\<rparr>) = seals e"
    "seals (e\<lparr>mutationsSkipped := n\<rparr>) = seals e" "seals (e\<lparr>rnd := g\<rparr>) = seals e" for e rb g n by (simp_all add: seals_def)
  ultimately show ?thesis by (cases "pAction r") (simp_all add: act_def split_beta Let_def split: option.split)
qed

lemma seals_handle: "seals (handle h fl conv now dir t rv p e) = seals e"
proof -
  obtain j e1 where d: "handle_decide h dir t rv p e = (j, e1)" by force
  have "seals (e\<lparr>reorder := rb\<rparr>) = seals e" "seals (ep_emit r pv e) = seals e" for e rb r pv
    by (simp_all add: seals_def)
  then have "seals (handle_act h fl conv now j e1) = seals e1"
    by (simp add: handle_act_def split_beta Let_def split: decision.split option.split)
  then show ?thesis using handle_decide_keeps(3) [OF d] by (simp add: handle_def d seals_def)
qed

lemma write_loop_steps:
  assumes "i < length (batches e)" "\<not> bsealed (batches e ! i)"
  shows "\<exists>w'. (estep h fl conv)\<^sup>*\<^sup>* \<lparr>ep = e, jobs = [], owed = w\<rparr>
     \<lparr>ep = write_loop h fl conv now i ps e, jobs = [], owed = w'\<rparr> \<and> i < length (batches (write_loop h fl conv now i ps e))"
  using assms
proof (induction ps arbitrary: e w)
  case (Cons p ps)
  obtain j e1 where d: "handle_decide h DirS2C (ToBatch i) (Some 0x0800) p e = (j, e1)" by force
  let ?e = "handle h fl conv now DirS2C (ToBatch i) (Some 0x0800) p e"
  have "estep h fl conv \<lparr>ep = e, jobs = [], owed = w\<rparr> \<lparr>ep = e1, jobs = [j], owed = w\<rparr>"
    using estep.outbound [of i "\<lparr>ep = e, jobs = [], owed = w\<rparr>" h p j e1 fl conv] Cons.prems d by simp
  note r = handle_steps [OF d this, of now]
  have "map bsealed (batches ?e) = map bsealed (batches e)" using seals_handle by (simp add: seals_def)
  then have "i < length (batches ?e)" "\<not> bsealed (batches ?e ! i)"
    using Cons.prems by (metis length_map, metis length_map nth_map)
  from Cons.IH [OF this] r show ?case by (simp) (meson rtranclp_trans)
qed auto

lemma WritePackets_steps:
  "\<exists>w'. (estep h fl conv)\<^sup>*\<^sup>* \<lparr>ep = e, jobs = [], owed = w\<rparr>
     \<lparr>ep = snd (WritePackets h fl conv now pkts e), jobs = [], owed = w'\<rparr>"
proof -
  let ?e = "e\<lparr>batches := batches e @ [\<lparr>blist = [], bsealed = False\<rparr>]\<rparr>"
  let ?i = "length (batches e)"
  let ?x = "write_loop h fl conv now ?i pkts ?e"
  have "estep h fl conv \<lparr>ep = e, jobs = [], owed = w\<rparr> \<lparr>ep = ?e, jobs = [], owed = w\<rparr>"
    using estep.open_batch [of h fl conv "\<lparr>ep = e, jobs = [], owed = w\<rparr>"] by simp
  moreover obtain w' where x: "(estep h fl conv)\<^sup>*\<^sup>* \<lparr>ep = ?e, jobs = [], owed = w\<rparr> \<lparr>ep = ?x, jobs = [], owed = w'\<rparr>"
    "?i < length (batches ?x)"
    using write_loop_steps [of ?i ?e h fl conv w now pkts] by auto
  moreover have "estep h fl conv \<lparr>ep = ?x, jobs = [], owed = w'\<rparr> \<lparr>ep = batch_seal ?i ?x, jobs = [], owed = w'\<rparr>"
    using estep.seal [of ?i "\<lparr>ep = ?x, jobs = [], owed = w'\<rparr>" h fl conv] x(2) by simp
  ultimately have "(estep h fl conv)\<^sup>*\<^sup>* \<lparr>ep = e, jobs = [], owed = w\<rparr> \<lparr>ep = batch_seal ?i ?x, jobs = [], owed = w'\<rparr>"
    by (meson converse_rtranclp_into_rtranclp rtranclp.rtrancl_into_rtrancl)
  then show ?thesis by (auto simp: WritePackets_def Let_def)
qed

definition demo_pkt :: PacketBuffer where
  "demo_pkt = \<lparr>AsSlices = [datagram], NetworkProtocolNumber = 2048\<rparr>"

definition demo_ep :: FaultEndpoint where
  "demo_ep = Attach (ep_New None False None)"

lemma demo_ep_reach: "ereach wire Fin conv_trunc \<lparr>ep = demo_ep, jobs = [], owed = {#}\<rparr>"
  using ereach.step [OF ereach.start estep.attach, of wire Fin conv_trunc None False None] by (simp add: demo_ep_def)

lemma ereach_steps: "ereach h fl conv s \<Longrightarrow> (estep h fl conv)\<^sup>*\<^sup>* s s' \<Longrightarrow> ereach h fl conv s'"
  by (rotate_tac, induction rule: rtranclp_induct) (auto intro: ereach.step)

theorem endpoint_conserves_witness:
  "\<exists>s. ereach wire Fin conv_trunc s \<and> owed s = {#demo_pkt#} \<and> ep_stopped (ep s) \<and>
     image_mset snd (mset (delivered (ep s))) + mset (concat (written (ep s))) + mset (shed (ep s)) = owed s"
proof -
  let ?e = "demo_ep\<lparr>delivered := [(2048, demo_pkt)]\<rparr>"
  have "estep wire Fin conv_trunc \<lparr>ep = demo_ep, jobs = [], owed = {#}\<rparr>
      \<lparr>ep = demo_ep, jobs = [\<lparr>hpkt = demo_pkt, hrel = (None, ToStack 2048), hrev = None, hdec = Untouched\<rparr>], owed = {#}\<rparr>"
    (is "estep _ _ _ _ ?s1")
    using estep.inbound [of "\<lparr>ep = demo_ep, jobs = [], owed = {#}\<rparr>" wire 2048 demo_pkt _ _ Fin conv_trunc]
    by (simp add: handle_decide_def demo_ep_def Attach_def ep_New_def Rules_def paced_def shaper_of_def)
  moreover have "estep wire Fin conv_trunc ?s1 \<lparr>ep = ?e, jobs = [], owed = {#demo_pkt#}\<rparr>" (is "estep _ _ _ _ ?s2")
    using estep.acts [of ?s1 "[]" _ "[]" wire Fin conv_trunc 0]
    by (simp add: handle_act_def run_release_def send_to_def due_def demo_ep_def Attach_def ep_New_def)
  moreover have "estep wire Fin conv_trunc ?s2 \<lparr>ep = ep_Close Fin conv_trunc 0 [] ?e, jobs = [], owed = {#demo_pkt#}\<rparr>"
    (is "estep _ _ _ _ ?s3")
    using estep.close [of "[]" ?s2 wire Fin conv_trunc 0]
    by (simp add: demo_ep_def Attach_def ep_New_def newReorderBuffer_def)
  ultimately have r: "ereach wire Fin conv_trunc ?s3" using demo_ep_reach by (meson ereach.step)
  have "ep_stopped (ep ?s3)" "reorder (ep ?s3) = Map.empty" "batches (ep ?s3) = []"
    by (simp_all add: demo_ep_def Attach_def ep_New_def newReorderBuffer_def ep_Close_def stop_collect_def newDeferQueue_def
        drain_heap.simps)
  with endpoint_conserves [OF r] r show ?thesis by (intro exI [of _ ?s3]) auto
qed

section \<open>A packet held back after the close\<close>

text \<open>A call that decided before the close and acts after it leaves its packet in the reorder buffer, which
nothing drains any more: later packets are not looked at.\<close>

lemma closed_buffer_frozen:
  assumes "estep h fl conv s s'" "ep_stopped (ep s)" "\<forall>j\<in>set (jobs s). hdec j = Untouched"
  shows "reorder (ep s') = reorder (ep s) \<and> ep_stopped (ep s') \<and> (\<forall>j\<in>set (jobs s'). hdec j = Untouched)"
proof -
  have stopped: "ep_stopped (run_release fl conv now c e) = ep_stopped e" for now c e
  proof -
    have "ep_stopped (snd (schedule now d c e)) = ep_stopped e" for d c e by (simp add: schedule_def split_beta)
    then show ?thesis by (simp add: run_release_def split_beta Let_def split: option.split)
  qed
  have decide: "e' = ep s \<and> hdec j = Untouched" if "handle_decide h dir t rv p (ep s) = (j, e')" for dir t rv p j e'
    using that assms(2) by (auto simp: handle_decide_def)
  show ?thesis
    using assms(1)
  proof cases
    case (acts xs j ys now)
    then have "hdec j = Untouched" using assms(3) by simp
    then show ?thesis using acts assms(2,3) by (simp add: handle_act_def stopped)
  next
    case (timer now)
    then show ?thesis using assms(2,3) by (auto simp: ep_tick_def stopped split: prod.split run_act.split)
  next
    case (inbound proto p j e')
    then show ?thesis using decide [OF inbound(3)] assms(2,3) by simp
  next
    case (outbound i p j e')
    then show ?thesis using decide [OF outbound(4)] assms(2,3) by simp
  qed (use assms(2,3) in \<open>auto simp: batch_seal_def SetRules_def SetBandwidth_def fresh_shaper_def SetMTU_def
      ClearShapers_def Attach_def ep_Close_def Let_def split: Direction.split\<close>)
qed

definition reorder_rule :: PRule where
  "reorder_rule = demo_prule\<lparr>pAction := PActionReorder, pMatch := empty_match, pTrigger := PTriggerAlways, ReorderBy := 1\<rparr>"

lemma late_hold_stranded:
  "\<exists>s. ereach wire Fin conv_trunc s \<and> ep_stopped (ep s) \<and> jobs s = [] \<and> held_back (reorder (ep s)) = {#demo_pkt#}"
proof -
  let ?e1 = "demo_ep\<lparr>rules := Some [reorder_rule]\<rparr>"
  let ?r = "reorder_rule\<lparr>pcounter := 1, fired := 1\<rparr>"
  let ?j = "\<lparr>hpkt = demo_pkt, hrel = (None, ToStack 2048), hrev = None, hdec = Seen (Some ?r) datagram_view\<rparr>"
  let ?e2 = "demo_ep\<lparr>rules := Some [?r], flows := [Flow datagram_view \<mapsto> 1]\<rparr>"
  let ?e3 = "ep_Close Fin conv_trunc 0 [] ?e2"
  have "estep wire Fin conv_trunc \<lparr>ep = demo_ep, jobs = [], owed = {#}\<rparr> \<lparr>ep = ?e1, jobs = [], owed = {#}\<rparr>"
    using estep.set_rules [of wire Fin conv_trunc "\<lparr>ep = demo_ep, jobs = [], owed = {#}\<rparr>"] by (simp add: SetRules_def)
  moreover have "handle_decide wire DirC2S (ToStack 2048) None demo_pkt ?e1 = (?j, ?e2)"
  proof -
    have "PacketBytes demo_pkt = (datagram, True)" by (simp add: PacketBytes_def demo_pkt_def)
    then show ?thesis
      by (simp add: handle_decide_def datagram_parses Rules_def demo_ep_def Attach_def ep_New_def paced_def shaper_of_def
          nextIndex_def decide_def consult_def pkt_Matches_def matchesDeclarative_def reorder_rule_def demo_prule_def
          empty_match_def shouldTrigger_def rollProbability_def fle_def datagram_view_def Let_def)
  qed
  then have "estep wire Fin conv_trunc \<lparr>ep = ?e1, jobs = [], owed = {#}\<rparr> \<lparr>ep = ?e2, jobs = [?j], owed = {#}\<rparr>"
    using estep.inbound [of "\<lparr>ep = ?e1, jobs = [], owed = {#}\<rparr>" wire 2048 demo_pkt ?j ?e2 Fin conv_trunc]
    by (simp add: demo_ep_def Attach_def)
  moreover have "estep wire Fin conv_trunc \<lparr>ep = ?e2, jobs = [?j], owed = {#}\<rparr> \<lparr>ep = ?e3, jobs = [?j], owed = {#}\<rparr>"
    using estep.close [of "[]" "\<lparr>ep = ?e2, jobs = [?j], owed = {#}\<rparr>" wire Fin conv_trunc 0]
    by (simp add: demo_ep_def Attach_def ep_New_def newReorderBuffer_def)
  moreover have "estep wire Fin conv_trunc \<lparr>ep = ?e3, jobs = [?j], owed = {#}\<rparr>
      \<lparr>ep = handle_act wire Fin conv_trunc 0 ?j ?e3, jobs = [], owed = due wire ?j ?e3\<rparr>" (is "estep _ _ _ _ ?s")
    using estep.acts [of "\<lparr>ep = ?e3, jobs = [?j], owed = {#}\<rparr>" "[]" ?j "[]" wire Fin conv_trunc 0] by simp
  ultimately have "ereach wire Fin conv_trunc ?s" using demo_ep_reach by (meson ereach.step)
  moreover have "ep_stopped (ep ?s)" "held_back (reorder (ep ?s)) = {#demo_pkt#}"
    by (simp_all add: demo_ep_def Attach_def ep_New_def newReorderBuffer_def ep_Close_def stop_collect_def newDeferQueue_def
        drain_heap.simps handle_act_def advance_def act_def ep_emit_def reorder_rule_def hold_def held_back_def)
  ultimately show ?thesis by (intro exI [of _ ?s]) simp
qed

section \<open>The link controls of the gateway\<close>

text \<open>\<^verbatim>\<open>internal/netfault/gateway.go\<close>: the controls act on the endpoint of a started gateway; the first
component is the error.\<close>

definition gw_SetBandwidth ::
  "(rat \<Rightarrow> float64) \<Rightarrow> (string \<Rightarrow> float64 option) \<Rightarrow> (float64 \<Rightarrow> string) \<Rightarrow> string \<Rightarrow> Direction \<Rightarrow> int \<Rightarrow>
    FaultEndpoint option \<Rightarrow> string option \<times> FaultEndpoint option" where
  "gw_SetBandwidth fl pf show_float rate dir mb g =
    (case g of
       None \<Rightarrow> (Some ''bandwidth: gateway is not started'', None)
     | Some e \<Rightarrow>
         if rate = [] then (None, Some (SetBandwidth dir (Fin 0) 0 e))
         else
           (case ParseRate fl pf show_float rate of
              Inl err \<Rightarrow> (Some (''bandwidth: '' @ err), Some e)
            | Inr bps \<Rightarrow> (None, Some (SetBandwidth dir bps mb e))))"

definition gw_SetMTU :: "32 word \<Rightarrow> FaultEndpoint option \<Rightarrow> string option \<times> FaultEndpoint option" where
  "gw_SetMTU mtu g =
    (case g of None \<Rightarrow> (Some ''mtu: gateway is not started'', None) | Some e \<Rightarrow> (None, Some (SetMTU mtu e)))"

definition gw_ShaperStats :: "Direction \<Rightarrow> FaultEndpoint option \<Rightarrow> ShaperStats option" where
  "gw_ShaperStats dir g = Option.bind g (ShaperStatsFor dir)"

definition gw_ClearShapers :: "FaultEndpoint option \<Rightarrow> FaultEndpoint option" where
  "gw_ClearShapers g = map_option ClearShapers g"

text \<open>A rate that is accepted is in force for the chosen direction, with the default backlog when none is
given; clearing undoes both controls.\<close>

lemma bandwidth_in_force:
  assumes "gw_SetBandwidth fl pf show_float rate DirBoth mb (Some e) = (None, Some e')" "rate \<noteq> []"
    "ParseRate fl pf show_float rate = Inr bps" "\<not> fle bps (Fin 0)" "dir \<noteq> DirBoth"
  shows "\<exists>k. shaper_of dir e' = Some k \<and> shapers e' ! k = newShaper bps mb \<and>
    gw_ShaperStats dir (Some e') = Some \<lparr>Admitted = 0, Dropped = 0, PeakBacklog = 0\<rparr>"
proof -
  have e': "e' = SetBandwidth DirBoth bps mb e" using assms(1-3) by (simp add: gw_SetBandwidth_def)
  show ?thesis
    using assms(4,5) unfolding e'
    by (cases dir) (simp_all add: SetBandwidth_def fresh_shaper_def shaper_of_def gw_ShaperStats_def ShaperStatsFor_def
        stats_def newShaper_def nth_append)
qed

lemma cleared_link:
  "shaper_of dir (ClearShapers e) = None" "MTU lower (ClearShapers e) = lower" "gw_ShaperStats dir (gw_ClearShapers (Some e)) = None"
  by (simp_all add: ClearShapers_def shaper_of_def MTU_def gw_ShaperStats_def gw_ClearShapers_def ShaperStatsFor_def)

end
