(* ===== verification/Plan_Tree.thy ===== *)
theory Plan_Tree
  imports Plan_Leaf "HOL-Library.AList"
begin

text \<open>The plan tree, \<^verbatim>\<open>internal/plan/plan.go\<close> and \<^verbatim>\<open>enumerate.go\<close>, with the discovery of tests in
\<^verbatim>\<open>internal/star/runtime.go\<close> and the cells of a fault matrix in \<^verbatim>\<open>internal/star/builtins.go\<close>.

A Go map is a list of entries with distinct keys, in the order in which a \<^verbatim>\<open>range\<close> happens to visit them.
Shown: the tests of the plan do not depend on any such order; they are distinct, and without choices
their instances are exactly the tests that a run discovers.\<close>

section \<open>What the plan reads\<close>

record MatrixInfo =
  ScenarioName :: string
  FaultName :: string

text \<open>Of a fault assumption the plan looks at the name and at the services its rules and proxy rules target,
if they have a target.\<close>

record FaultAssumptionDef =
  faName :: string
  faRules :: "string option list"
  faProxyRules :: "string option list"

record FaultScenarioDef =
  fsName :: string
  fsFaults :: "FaultAssumptionDef list"
  fsExpect :: "string option"
  fsMatrix :: "MatrixInfo option"

record TestConfig =
  tcExpect :: "string option"
  tcTimeout :: int

record loaded =
  globals :: "string list"
  scenarios :: "string list"
  faultScenarios :: "(string \<times> FaultScenarioDef) list"
  testConfigs :: "(string \<times> TestConfig) list"
  chooseAxes :: "string \<rightharpoonup> ChooseAxis list"

definition test_name :: "string \<Rightarrow> string" where
  "test_name name = ''test_'' @ name"

section \<open>The tree\<close>

datatype PlanTestKind = KindDef | KindScenario | KindFaultScenario | KindFaultMatrix | KindTestBuiltin
datatype PlanCompositionKind = CompositionFaultMatrix | CompositionChoose

record PlanAxis =
  axName :: string
  axValues :: "string list"
  axEstimated :: bool

record PlanComposition =
  cKind :: PlanCompositionKind
  cAxes :: "PlanAxis list"

record PlanTest =
  ptName :: string
  ptKind :: PlanTestKind
  Instances :: int
  Compositions :: "PlanComposition list"
  MatrixCells :: "string list"
  ptFaults :: "string list"
  ptExpect :: string
  ptTimeout :: string
  Estimated :: bool

definition plan_entry :: "string \<Rightarrow> PlanTestKind \<Rightarrow> int \<Rightarrow> PlanTest" where
  "plan_entry name kind n = \<lparr>ptName = name, ptKind = kind, Instances = n, Compositions = [], MatrixCells = [],
     ptFaults = [], ptExpect = [], ptTimeout = [], Estimated = False\<rparr>"

definition applyChooseAxes :: "ChooseAxis list \<Rightarrow> PlanTest \<Rightarrow> PlanTest" where
  "applyChooseAxes axes e =
    (if axes = [] then e
     else
       e\<lparr>Instances := wrap64 (Instances e * ChooseLeafCount axes),
         Compositions := Compositions e @ [\<lparr>cKind = CompositionChoose,
           cAxes = map (\<lambda>a. \<lparr>axName = AName a, axValues = AValues a, axEstimated = \<not> Known a\<rparr>) axes\<rparr>],
         Estimated := (if \<not> ChooseAxesComplete axes then True else Estimated e)\<rparr>)"

definition sortedKeys :: "(string \<times> 'v) list \<Rightarrow> string list" where
  "sortedKeys m = sort (map fst m)"

definition sortedSetValues :: "string list \<Rightarrow> string list" where
  "sortedSetValues ks = sort (remdups ks)"

fun group_loop ::
  "(string \<times> FaultScenarioDef) list \<Rightarrow> (string \<times> FaultScenarioDef list) list \<Rightarrow> (string \<times> FaultScenarioDef) list \<Rightarrow>
    (string \<times> FaultScenarioDef list) list \<times> (string \<times> FaultScenarioDef) list" where
  "group_loop [] cells free = (cells, free)"
| "group_loop ((k, fs) # m) cells free =
    (case fsMatrix fs of
       Some mi \<Rightarrow>
         let old = (case map_of cells (ScenarioName mi) of None \<Rightarrow> [] | Some xs \<Rightarrow> xs)
         in group_loop m (AList.update (ScenarioName mi) (old @ [fs]) cells) free
     | None \<Rightarrow> group_loop m cells (AList.update (fsName fs) fs free))"

definition groupFaultScenarios ::
  "(string \<times> FaultScenarioDef) list \<Rightarrow>
    (string \<times> FaultScenarioDef list) list \<times> (string \<times> FaultScenarioDef) list" where
  "groupFaultScenarios m =
    (let (cells, free) = group_loop m [] [] in (map (\<lambda>(k, cs). (k, sort_key fsName cs)) cells, free))"

definition matrixComposition :: "string \<Rightarrow> FaultScenarioDef list \<Rightarrow> PlanComposition" where
  "matrixComposition scenarioName cells =
    (let ms = List.map_filter fsMatrix cells
     in \<lparr>cKind = CompositionFaultMatrix,
         cAxes = [\<lparr>axName = ''scenarios'',
                   axValues = sortedSetValues (concat (map (\<lambda>mi. [ScenarioName mi, scenarioName]) ms)), axEstimated = False\<rparr>,
                  \<lparr>axName = ''faults'', axValues = sortedSetValues (map FaultName ms), axEstimated = False\<rparr>]\<rparr>)"

fun expect_loop :: "FaultScenarioDef list \<Rightarrow> string \<Rightarrow> string" where
  "expect_loop [] name = name"
| "expect_loop (c # cs) name =
    (case fsExpect c of
       None \<Rightarrow> expect_loop cs name
     | Some n \<Rightarrow>
         if name = [] then expect_loop cs n
         else if name \<noteq> n then ''(mixed)''
         else expect_loop cs name)"

definition matrixExpectName :: "FaultScenarioDef list \<Rightarrow> string" where
  "matrixExpectName cells = expect_loop cells []"

definition cellNames :: "FaultScenarioDef list \<Rightarrow> string list" where
  "cellNames cells = sort (map (\<lambda>c. test_name (fsName c)) cells)"

definition faultNames :: "FaultAssumptionDef list \<Rightarrow> string list" where
  "faultNames faults = sort (map faName faults)"

definition defTestNames :: "loaded \<Rightarrow> string list" where
  "defTestNames rt =
    (let free = snd (groupFaultScenarios (faultScenarios rt)) in
     filter (\<lambda>name. has_prefix name ''test_'' \<and> \<not> has_prefix name ''test_matrix_'' \<and>
       name \<notin> fst ` set (testConfigs rt) \<and> trim_prefix name ''test_'' \<notin> set (scenarios rt) \<and>
       trim_prefix name ''test_'' \<notin> fst ` set free) (globals rt))"

text \<open>The five passes of \<^verbatim>\<open>buildTests\<close> have one shape: candidates in order, each added unless its name was seen.
The candidates of the first pass are never seen before.\<close>

fun add_new :: "PlanTest list \<Rightarrow> PlanTest list \<Rightarrow> PlanTest list" where
  "add_new [] tests = tests"
| "add_new (c # cs) tests = add_new cs (if ptName c \<in> set (map ptName tests) then tests else tests @ [c])"

definition def_entries :: "loaded \<Rightarrow> PlanTest list" where
  "def_entries rt = map (\<lambda>name.
     applyChooseAxes (case chooseAxes rt name of None \<Rightarrow> [] | Some a \<Rightarrow> a) (plan_entry name KindDef 1))
     (sort (defTestNames rt))"

definition builtin_entries :: "(int \<Rightarrow> string) \<Rightarrow> loaded \<Rightarrow> PlanTest list" where
  "builtin_entries dur rt = map (\<lambda>fullName.
     let cfg = the (map_of (testConfigs rt) fullName) in
     (plan_entry fullName KindTestBuiltin 1)
       \<lparr>ptExpect := (case tcExpect cfg of None \<Rightarrow> [] | Some t \<Rightarrow> t),
        ptTimeout := (if 0 < tcTimeout cfg then dur (tcTimeout cfg) else [])\<rparr>)
     (sortedKeys (testConfigs rt))"

definition matrix_entries :: "loaded \<Rightarrow> PlanTest list" where
  "matrix_entries rt =
    (let cellsByMatrix = fst (groupFaultScenarios (faultScenarios rt)) in
     map (\<lambda>scenarioName.
       let cells = the (map_of cellsByMatrix scenarioName) in
       (plan_entry (''test_matrix_'' @ scenarioName) KindFaultMatrix (int (length cells)))
         \<lparr>Compositions := [matrixComposition scenarioName cells], MatrixCells := cellNames cells,
          ptExpect := matrixExpectName cells\<rparr>)
     (sortedKeys cellsByMatrix))"

definition free_entries :: "loaded \<Rightarrow> PlanTest list" where
  "free_entries rt =
    (let free = snd (groupFaultScenarios (faultScenarios rt)) in
     map (\<lambda>n.
       let fs = the (map_of free n) in
       (plan_entry (test_name (fsName fs)) KindFaultScenario 1)
         \<lparr>ptFaults := faultNames (fsFaults fs), ptExpect := (case fsExpect fs of None \<Rightarrow> [] | Some t \<Rightarrow> t)\<rparr>)
     (sortedKeys free))"

definition scenario_entries :: "loaded \<Rightarrow> PlanTest list" where
  "scenario_entries rt = map (\<lambda>s. plan_entry (test_name s) KindScenario 1) (sortedSetValues (scenarios rt))"

definition buildTests :: "(int \<Rightarrow> string) \<Rightarrow> loaded \<Rightarrow> PlanTest list" where
  "buildTests dur rt = sort_key ptName
    (add_new (scenario_entries rt) (add_new (free_entries rt) (add_new (matrix_entries rt)
      (add_new (builtin_entries dur rt) (def_entries rt)))))"

record PlanTotals =
  totInstances :: int
  totEstimated :: bool

fun totals_loop :: "PlanTest list \<Rightarrow> int \<Rightarrow> bool \<Rightarrow> PlanTotals" where
  "totals_loop [] n est = \<lparr>totInstances = n, totEstimated = est\<rparr>"
| "totals_loop (t # ts) n est = totals_loop ts (wrap64 (n + Instances t)) (if Estimated t then True else est)"

definition computeTotals :: "PlanTest list \<Rightarrow> PlanTotals" where
  "computeTotals tests = totals_loop tests 0 False"

section \<open>What a run discovers\<close>

fun discover_loop :: "string list \<Rightarrow> string list \<Rightarrow> string list" where
  "discover_loop [] names = names"
| "discover_loop (n # ns) names = discover_loop ns (if n \<in> set names then names else names @ [n])"

text \<open>The names \<^verbatim>\<open>DiscoverTests\<close> returns; the wrappers it leaves in the globals carry the same names.\<close>

definition DiscoverTests :: "loaded \<Rightarrow> string list" where
  "DiscoverTests rt = sort
    (discover_loop (map fst (testConfigs rt))
      (discover_loop (map (\<lambda>(_, fs). test_name (fsName fs)) (faultScenarios rt))
        (discover_loop (map (\<lambda>s. test_name s) (scenarios rt))
          (filter (\<lambda>n. has_prefix n ''test_'') (globals rt)))))"

section \<open>Grouping\<close>

definition cells_of :: "(string \<times> FaultScenarioDef) list \<Rightarrow> string \<Rightarrow> FaultScenarioDef list" where
  "cells_of m k = filter (\<lambda>fs. map_option ScenarioName (fsMatrix fs) = Some k) (map snd m)"

definition free_of :: "(string \<times> FaultScenarioDef) list \<Rightarrow> FaultScenarioDef list" where
  "free_of m = filter (\<lambda>fs. fsMatrix fs = None) (map snd m)"

lemma group_loop_cells:
  "map_of (fst (group_loop m cells free)) k =
    (if cells_of m k = [] then map_of cells k
     else Some ((case map_of cells k of None \<Rightarrow> [] | Some xs \<Rightarrow> xs) @ cells_of m k))"
proof (induction m cells free rule: group_loop.induct)
  case (2 i fs m cells free)
  then show ?case
    by (cases "fsMatrix fs") (auto simp: cells_of_def update_conv' split: option.splits)
qed (simp add: cells_of_def)

lemma group_loop_keys:
  "distinct (map fst cells) \<Longrightarrow> distinct (map fst free) \<Longrightarrow>
   distinct (map fst (fst (group_loop m cells free))) \<and> distinct (map fst (snd (group_loop m cells free)))"
  by (induction m cells free rule: group_loop.induct) (auto simp: distinct_update split: option.splits)

lemma group_loop_free:
  "distinct (map fsName (free_of m)) \<Longrightarrow> fst ` set free \<inter> fsName ` set (free_of m) = {} \<Longrightarrow>
   set (snd (group_loop m cells free)) = set free \<union> (\<lambda>fs. (fsName fs, fs)) ` set (free_of m)"
proof (induction m cells free rule: group_loop.induct)
  case (2 i fs m cells free)
  show ?case
  proof (cases "fsMatrix fs")
    case None
    have "fsName fs \<notin> fst ` set free" using 2(4) None by (auto simp: free_of_def)
    then have "set (AList.update (fsName fs) fs free) = insert (fsName fs, fs) (set free)"
      by (induction free) auto
    moreover have "fsName fs \<notin> fsName ` set (free_of m)" "distinct (map fsName (free_of m))"
      using 2(3) None by (simp_all add: free_of_def)
    moreover have "fst ` set free \<inter> fsName ` set (free_of m) = {}" using 2(4) None by (auto simp: free_of_def)
    ultimately have "set (snd (group_loop m cells (AList.update (fsName fs) fs free))) =
        insert (fsName fs, fs) (set free) \<union> (\<lambda>fs. (fsName fs, fs)) ` set (free_of m)"
      using 2(1) [OF None] by auto
    then show ?thesis using None by (simp add: free_of_def)
  next
    case (Some mi)
    then show ?thesis using 2(2) [OF Some refl] 2(3,4) by (simp add: free_of_def Let_def)
  qed
qed (simp add: free_of_def)

lemma group_cells:
  "map_of (fst (groupFaultScenarios m)) k =
    (if cells_of m k = [] then None else Some (sort_key fsName (cells_of m k)))"
proof -
  have "map_of (map (\<lambda>(k, cs). (k, sort_key fsName cs)) xs) k = map_option (sort_key fsName) (map_of xs k)"
    for xs :: "(string \<times> FaultScenarioDef list) list"
    by (induction xs) auto
  then show ?thesis using group_loop_cells [of m "[]" "[]" k] by (simp add: groupFaultScenarios_def split_beta)
qed

lemma group_distinct:
  "distinct (map fst (fst (groupFaultScenarios m)))" "distinct (map fst (snd (groupFaultScenarios m)))"
  using group_loop_keys [of "[]" "[]" m] by (simp_all add: groupFaultScenarios_def split_beta comp_def)

lemma group_free:
  "distinct (map fsName (free_of m)) \<Longrightarrow>
   set (snd (groupFaultScenarios m)) = (\<lambda>fs. (fsName fs, fs)) ` set (free_of m)"
  using group_loop_free [of m "[]" "[]"] by (simp add: groupFaultScenarios_def split_beta)

lemma group_free_keys:
  "distinct (map fsName (free_of m)) \<Longrightarrow> fst ` set (snd (groupFaultScenarios m)) = fsName ` set (free_of m)"
  by (simp add: group_free image_image)

lemma group_keys: "fst ` set (fst (groupFaultScenarios m)) = {k. cells_of m k \<noteq> []}"
  by (auto simp: group_cells dom_map_of_conv_image_fst [symmetric] split: if_splits)

section \<open>The plan and the order of maps\<close>

text \<open>A loaded specification: keys are distinct, and fault scenarios are registered under their names.\<close>

definition spec_ok :: "loaded \<Rightarrow> bool" where
  "spec_ok rt \<longleftrightarrow> distinct (globals rt) \<and> distinct (map fst (faultScenarios rt)) \<and> distinct (map fst (testConfigs rt)) \<and>
     (\<forall>(k, fs)\<in>set (faultScenarios rt). fsName fs = k)"

text \<open>The same content, visited in another order.\<close>

definition reordered :: "loaded \<Rightarrow> loaded \<Rightarrow> bool" where
  "reordered rt rt' \<longleftrightarrow> set (globals rt) = set (globals rt') \<and> set (scenarios rt) = set (scenarios rt') \<and>
     set (faultScenarios rt) = set (faultScenarios rt') \<and> set (testConfigs rt) = set (testConfigs rt') \<and>
     chooseAxes rt = chooseAxes rt'"

lemma spec_names: "spec_ok rt \<Longrightarrow> distinct (map (fsName \<circ> snd) (faultScenarios rt))"
proof -
  assume ok: "spec_ok rt"
  then have "map (fsName \<circ> snd) (faultScenarios rt) = map fst (faultScenarios rt)"
    by (intro map_cong) (auto simp: spec_ok_def)
  moreover have "distinct (map fst (faultScenarios rt))" using ok by (simp add: spec_ok_def)
  ultimately show ?thesis by (simp only:)
qed

lemma free_names: "spec_ok rt \<Longrightarrow> distinct (map fsName (free_of (faultScenarios rt)))"
  using spec_names [of rt] distinct_map_filter [of fsName "map snd (faultScenarios rt)"]
  by (simp add: free_of_def)

lemma cells_mset:
  assumes "spec_ok rt" "spec_ok rt'" "reordered rt rt'"
  shows "mset (cells_of (faultScenarios rt) k) = mset (cells_of (faultScenarios rt') k)"
    "set (free_of (faultScenarios rt)) = set (free_of (faultScenarios rt'))"
proof -
  have "mset (faultScenarios rt) = mset (faultScenarios rt')"
    using assms by (simp add: set_eq_iff_mset_eq_distinct [symmetric] spec_ok_def reordered_def distinct_map)
  then show "mset (cells_of (faultScenarios rt) k) = mset (cells_of (faultScenarios rt') k)"
    by (simp add: cells_of_def)
  show "set (free_of (faultScenarios rt)) = set (free_of (faultScenarios rt'))"
    using assms(3) by (simp add: free_of_def reordered_def)
qed

lemma group_reordered:
  assumes "spec_ok rt" "spec_ok rt'" "reordered rt rt'"
  shows "map_of (fst (groupFaultScenarios (faultScenarios rt))) = map_of (fst (groupFaultScenarios (faultScenarios rt')))"
    "sortedKeys (fst (groupFaultScenarios (faultScenarios rt))) = sortedKeys (fst (groupFaultScenarios (faultScenarios rt')))"
    "map_of (snd (groupFaultScenarios (faultScenarios rt))) = map_of (snd (groupFaultScenarios (faultScenarios rt')))"
    "sortedKeys (snd (groupFaultScenarios (faultScenarios rt))) = sortedKeys (snd (groupFaultScenarios (faultScenarios rt')))"
proof -
  note c = cells_mset [OF assms]
  have same_sort: "sort_key fsName (cells_of (faultScenarios rt) k) = sort_key fsName (cells_of (faultScenarios rt') k)" for k
  proof (rule sort_key_inj_key_eq)
    have "distinct (map fsName (cells_of (faultScenarios rt) k))"
      using spec_names [OF assms(1)] distinct_map_filter [of fsName "map snd (faultScenarios rt)"] by (simp add: cells_of_def)
    then show "inj_on fsName (set (cells_of (faultScenarios rt) k))" by (simp add: distinct_map)
    show "mset (cells_of (faultScenarios rt) k) = mset (sort_key fsName (cells_of (faultScenarios rt') k))"
      using c(1) by simp
  qed simp
  have empty: "cells_of (faultScenarios rt) k = [] \<longleftrightarrow> cells_of (faultScenarios rt') k = []" for k
    using c(1) [of k] by (metis mset_zero_iff)
  show "map_of (fst (groupFaultScenarios (faultScenarios rt))) = map_of (fst (groupFaultScenarios (faultScenarios rt')))"
    by (rule ext) (simp add: group_cells same_sort empty)
  have keys: "sort (map fst xs) = sort (map fst ys)"
    if "distinct (map fst xs)" "distinct (map fst ys)" "fst ` set xs = fst ` set ys" for xs :: "(string \<times> 'v) list" and ys :: "(string \<times> 'v) list"
    using that by (intro sorted_distinct_set_unique) simp_all
  show "sortedKeys (fst (groupFaultScenarios (faultScenarios rt))) = sortedKeys (fst (groupFaultScenarios (faultScenarios rt')))"
    unfolding sortedKeys_def by (rule keys) (simp_all add: group_distinct group_keys empty)
  have f: "set (snd (groupFaultScenarios (faultScenarios rt))) = set (snd (groupFaultScenarios (faultScenarios rt')))"
    using group_free [OF free_names [OF assms(1)]] group_free [OF free_names [OF assms(2)]] c(2) by simp
  then show "map_of (snd (groupFaultScenarios (faultScenarios rt))) = map_of (snd (groupFaultScenarios (faultScenarios rt')))"
    using group_distinct by (intro map_of_inject_set [THEN iffD2]) simp_all
  show "sortedKeys (snd (groupFaultScenarios (faultScenarios rt))) = sortedKeys (snd (groupFaultScenarios (faultScenarios rt')))"
    unfolding sortedKeys_def by (rule keys) (simp_all add: group_distinct f)
qed

text \<open>The tests of the plan do not depend on the order in which Go visits the maps of the loaded
specification: any two orders give the same list.\<close>

theorem plan_order_independent:
  assumes "spec_ok rt" and "spec_ok rt'" and "reordered rt rt'"
  shows "buildTests dur rt = buildTests dur rt'"
proof -
  note g = group_reordered [OF assms]
  have free: "fst ` set (snd (groupFaultScenarios (faultScenarios rt))) = fst ` set (snd (groupFaultScenarios (faultScenarios rt')))"
    using g(3) by (simp add: dom_map_of_conv_image_fst [symmetric])
  have "sort (defTestNames rt) = sort (defTestNames rt')"
    using assms free by (intro sorted_distinct_set_unique) (auto simp: defTestNames_def spec_ok_def reordered_def)
  then have d: "def_entries rt = def_entries rt'" using assms(3) by (simp add: def_entries_def reordered_def)
  have t: "map_of (testConfigs rt) = map_of (testConfigs rt')"
    using assms by (intro map_of_inject_set [THEN iffD2]) (simp_all add: spec_ok_def reordered_def)
  have "sortedKeys (testConfigs rt) = sortedKeys (testConfigs rt')"
    unfolding sortedKeys_def using assms by (intro sorted_distinct_set_unique) (simp_all add: spec_ok_def reordered_def)
  then have b: "builtin_entries dur rt = builtin_entries dur rt'" by (simp add: builtin_entries_def t)
  have "sortedSetValues (scenarios rt) = sortedSetValues (scenarios rt')"
    unfolding sortedSetValues_def using assms(3) by (intro sorted_distinct_set_unique) (simp_all add: reordered_def)
  then have s: "scenario_entries rt = scenario_entries rt'" by (simp add: scenario_entries_def)
  have m: "matrix_entries rt = matrix_entries rt'" "free_entries rt = free_entries rt'"
    unfolding matrix_entries_def free_entries_def Let_def g by simp_all
  show ?thesis by (simp add: buildTests_def d b s m)
qed

section \<open>The plan and the run\<close>

lemma add_new_names:
  "set (map ptName (add_new cs ts)) = set (map ptName ts) \<union> set (map ptName cs)"
  "distinct (map ptName ts) \<Longrightarrow> distinct (map ptName (add_new cs ts))"
  by (induction cs ts rule: add_new.induct) auto

lemma add_new_subset: "set (add_new cs ts) \<subseteq> set ts \<union> set cs"
  by (induction cs ts rule: add_new.induct) (auto split: if_splits)

lemma add_new_all: "\<forall>t\<in>set ts. P t \<Longrightarrow> \<forall>t\<in>set cs. P t \<Longrightarrow> \<forall>t\<in>set (add_new cs ts). P t"
  using add_new_subset by blast

lemma add_new_ones:
  "\<forall>c\<in>set cs. Instances c = 1 \<Longrightarrow>
   sum_list (map Instances (add_new cs ts)) =
     sum_list (map Instances ts) + int (card (ptName ` set cs - ptName ` set ts))"
proof (induction cs ts rule: add_new.induct)
  case (2 c cs ts)
  show ?case
  proof (cases "ptName c \<in> ptName ` set ts")
    case True
    then have "ptName ` set (c # cs) - ptName ` set ts = ptName ` set cs - ptName ` set ts" by auto
    then show ?thesis using 2 True by simp
  next
    case False
    then have "ptName ` set (c # cs) - ptName ` set ts = insert (ptName c) (ptName ` set cs - ptName ` set (ts @ [c]))"
      by auto
    moreover have "ptName c \<notin> ptName ` set cs - ptName ` set (ts @ [c])" by simp
    ultimately have "card (ptName ` set (c # cs) - ptName ` set ts) = Suc (card (ptName ` set cs - ptName ` set (ts @ [c])))"
      by simp
    then show ?thesis using 2 False by simp
  qed
qed simp

lemma add_new_fresh:
  "distinct (map ptName cs) \<Longrightarrow> ptName ` set cs \<inter> ptName ` set ts = {} \<Longrightarrow> add_new cs ts = ts @ cs"
  by (induction cs ts rule: add_new.induct) auto

lemma discover_loop_names:
  "set (discover_loop ns names) = set names \<union> set ns" "distinct names \<Longrightarrow> distinct (discover_loop ns names)"
  by (induction ns names rule: discover_loop.induct) auto

lemma sum_groups:
  "finite K \<Longrightarrow> f ` set xs \<subseteq> K \<Longrightarrow> (\<Sum>k\<in>K. length (filter (\<lambda>x. f x = k) xs)) = length xs"
proof (induction xs)
  case (Cons x xs)
  have "(\<Sum>k\<in>K. length (filter (\<lambda>y. f y = k) (x # xs))) =
      (\<Sum>k\<in>K. (if f x = k then 1 else 0) + length (filter (\<lambda>y. f y = k) xs))"
    by (intro sum.cong) auto
  also have "\<dots> = 1 + length xs" using Cons by (simp add: sum.distrib)
  finally show ?case by simp
qed simp

text \<open>No test outside a matrix has a name that begins like those of a matrix.\<close>

definition matrix_names_reserved :: "loaded \<Rightarrow> bool" where
  "matrix_names_reserved rt \<longleftrightarrow>
     (\<forall>n\<in>set (globals rt) \<union> fst ` set (testConfigs rt). \<not> has_prefix n ''test_matrix_'') \<and>
     (\<forall>s\<in>set (scenarios rt). \<not> has_prefix s ''matrix_'') \<and>
     (\<forall>(k, fs)\<in>set (faultScenarios rt). fsMatrix fs = None \<longleftrightarrow> \<not> has_prefix (fsName fs) ''matrix_'')"

lemma totals_sum:
  assumes "\<forall>t\<in>set ts. 0 \<le> Instances t" "0 \<le> n" "n + sum_list (map Instances ts) < 2 ^ 63"
  shows "totInstances (totals_loop ts n est) = n + sum_list (map Instances ts)"
  using assms
proof (induction ts n est rule: totals_loop.induct)
  case (2 t ts n est)
  have "0 \<le> sum_list (map Instances ts)" using "2.prems"(1) by (intro sum_list_nonneg) auto
  then have "wrap64 (n + Instances t) = n + Instances t" using "2.prems" by (intro wrap64_id) simp_all
  then show ?case using 2 by simp
qed simp

lemma names_def: "map ptName (def_entries rt) = sort (defTestNames rt)"
proof -
  have "ptName (applyChooseAxes a e) = ptName e" for a e by (simp add: applyChooseAxes_def)
  then show ?thesis by (simp add: def_entries_def comp_def plan_entry_def)
qed

lemma names_builtin: "map ptName (builtin_entries dur rt) = sortedKeys (testConfigs rt)"
  by (simp add: builtin_entries_def comp_def plan_entry_def Let_def)

lemma names_matrix:
  "map ptName (matrix_entries rt) = map (\<lambda>s. ''test_matrix_'' @ s) (sortedKeys (fst (groupFaultScenarios (faultScenarios rt))))"
  by (simp add: matrix_entries_def comp_def plan_entry_def Let_def)

lemma names_scenario: "map ptName (scenario_entries rt) = map (\<lambda>s. test_name s) (sortedSetValues (scenarios rt))"
  by (simp add: scenario_entries_def comp_def plan_entry_def)

lemma names_free:
  assumes "spec_ok rt"
  shows "set (map ptName (free_entries rt)) = (\<lambda>fs. test_name (fsName fs)) ` set (free_of (faultScenarios rt))"
proof -
  let ?f = "snd (groupFaultScenarios (faultScenarios rt))"
  have f: "set ?f = (\<lambda>fs. (fsName fs, fs)) ` set (free_of (faultScenarios rt))" by (rule group_free [OF free_names [OF assms]])
  have "fsName (the (map_of ?f n)) = n" if n: "n \<in> fst ` set ?f" for n
  proof -
    from n obtain fs where "(n, fs) \<in> set ?f" by auto
    then show ?thesis using group_distinct(2) f by (auto simp: map_of_eq_Some_iff [symmetric])
  qed
  then have "map ptName (free_entries rt) = map (\<lambda>n. test_name n) (sortedKeys ?f)"
    by (simp add: free_entries_def plan_entry_def Let_def sortedKeys_def)
  then have "set (map ptName (free_entries rt)) = (\<lambda>n. test_name n) ` fst ` set ?f" by (simp add: sortedKeys_def)
  then show ?thesis unfolding group_free_keys [OF free_names [OF assms]] image_image .
qed

lemma instances_one:
  "chooseAxes rt = Map.empty \<Longrightarrow> \<forall>e\<in>set (def_entries rt). Instances e = 1"
  "\<forall>e\<in>set (builtin_entries dur rt). Instances e = 1" "\<forall>e\<in>set (free_entries rt). Instances e = 1"
  "\<forall>e\<in>set (scenario_entries rt). Instances e = 1"
  by (auto simp: def_entries_def applyChooseAxes_def builtin_entries_def free_entries_def scenario_entries_def plan_entry_def Let_def)

lemma instances_matrix:
  "sum_list (map Instances (matrix_entries rt)) = int (length (filter (\<lambda>fs. fsMatrix fs \<noteq> None) (map snd (faultScenarios rt))))"
proof -
  let ?m = "faultScenarios rt"
  let ?g = "fst (groupFaultScenarios ?m)"
  let ?xs = "filter (\<lambda>fs. fsMatrix fs \<noteq> None) (map snd ?m)"
  let ?f = "\<lambda>fs. ScenarioName (the (fsMatrix fs))"
  have cells: "cells_of ?m k = filter (\<lambda>fs. ?f fs = k) ?xs" for k
    by (auto simp: cells_of_def intro!: filter_cong)
  have "int (length (the (map_of ?g k))) = int (length (cells_of ?m k))" if "k \<in> set (sortedKeys ?g)" for k
  proof -
    have "cells_of ?m k \<noteq> []" using that group_keys [of ?m] by (auto simp: sortedKeys_def)
    then show ?thesis by (simp add: group_cells)
  qed
  then have "sum_list (map Instances (matrix_entries rt)) = sum_list (map (\<lambda>k. int (length (cells_of ?m k))) (sortedKeys ?g))"
    by (simp add: matrix_entries_def plan_entry_def comp_def Let_def cong: map_cong)
  also have "\<dots> = (\<Sum>k\<in>{k. cells_of ?m k \<noteq> []}. int (length (cells_of ?m k)))"
    using group_distinct(1) [of ?m] group_keys [of ?m] by (simp add: sum_list_distinct_conv_sum_set sortedKeys_def)
  also have "\<dots> = int (\<Sum>k\<in>{k. cells_of ?m k \<noteq> []}. length (filter (\<lambda>fs. ?f fs = k) ?xs))" by (simp add: cells)
  also have "(\<Sum>k\<in>{k. cells_of ?m k \<noteq> []}. length (filter (\<lambda>fs. ?f fs = k) ?xs)) = length ?xs"
  proof (rule sum_groups)
    have "{k. cells_of ?m k \<noteq> []} = fst ` set ?g" by (simp add: group_keys)
    then show "finite {k. cells_of ?m k \<noteq> []}" by simp
    show "?f ` set ?xs \<subseteq> {k. cells_of ?m k \<noteq> []}" by (auto simp: cells filter_empty_conv)
  qed
  finally show ?thesis .
qed

lemma prefix_split: "has_prefix n p \<Longrightarrow> n = p @ trim_prefix n p"
  by (simp add: trim_prefix_def has_prefix_def) (metis append_take_drop_id)

lemma prefix_test: "has_prefix (test_name s) ''test_matrix_'' \<longleftrightarrow> has_prefix s ''matrix_''"
  by (simp add: has_prefix_def test_name_def)

lemma test_name_inj [simp]: "test_name a = test_name b \<longleftrightarrow> a = b"
  by (simp add: test_name_def)

lemma test_name_prefix [simp]: "has_prefix (test_name a) ''test_''"
  unfolding test_name_def by (rule has_prefix_append)

text \<open>The names outside the matrices, in the plan and in a run.\<close>

lemma plan_names:
  assumes "spec_ok rt" "matrix_names_reserved rt"
  shows "set (defTestNames rt) \<union> fst ` set (testConfigs rt) \<union> (\<lambda>fs. test_name (fsName fs)) ` set (free_of (faultScenarios rt)) \<union>
      (\<lambda>s. test_name s) ` set (scenarios rt) =
    {n \<in> set (globals rt). has_prefix n ''test_''} \<union> fst ` set (testConfigs rt) \<union>
      (\<lambda>fs. test_name (fsName fs)) ` set (free_of (faultScenarios rt)) \<union> (\<lambda>s. test_name s) ` set (scenarios rt)"
    (is "?l = ?r")
proof (rule antisym)
  show "?l \<subseteq> ?r" by (auto simp: defTestNames_def Let_def)
  show "?r \<subseteq> ?l"
  proof
    fix n
    assume n: "n \<in> ?r"
    note free = group_free_keys [OF free_names [OF assms(1)]]
    show "n \<in> ?l"
    proof (cases "n \<in> set (defTestNames rt)")
      case False
      have "n = test_name (trim_prefix n ''test_'')" if "has_prefix n ''test_''"
        unfolding test_name_def using that by (rule prefix_split)
      then show ?thesis
        using n False assms(2) free by (auto simp: defTestNames_def matrix_names_reserved_def Let_def)
    qed blast
  qed
qed

lemma matrix_apart:
  assumes "spec_ok rt" "matrix_names_reserved rt"
  shows "\<forall>n\<in>set (globals rt) \<union> fst ` set (testConfigs rt) \<union> (\<lambda>fs. test_name (fsName fs)) ` set (free_of (faultScenarios rt)) \<union>
      (\<lambda>s. test_name s) ` set (scenarios rt). \<not> has_prefix n ''test_matrix_''"
    "\<forall>fs\<in>set (map snd (faultScenarios rt)). fsMatrix fs \<noteq> None \<longrightarrow> has_prefix (test_name (fsName fs)) ''test_matrix_''"
proof -
  have "\<not> has_prefix (test_name (fsName fs)) ''test_matrix_''" if "fs \<in> set (free_of (faultScenarios rt))" for fs
    using that assms(2) unfolding prefix_test by (auto simp: matrix_names_reserved_def free_of_def)
  moreover have "\<not> has_prefix (test_name s) ''test_matrix_''" if "s \<in> set (scenarios rt)" for s
    using that assms(2) unfolding prefix_test by (auto simp: matrix_names_reserved_def)
  ultimately show "\<forall>n\<in>set (globals rt) \<union> fst ` set (testConfigs rt) \<union>
      (\<lambda>fs. test_name (fsName fs)) ` set (free_of (faultScenarios rt)) \<union>
      (\<lambda>s. test_name s) ` set (scenarios rt). \<not> has_prefix n ''test_matrix_''"
    using assms(2) by (auto simp: matrix_names_reserved_def)
  show "\<forall>fs\<in>set (map snd (faultScenarios rt)). fsMatrix fs \<noteq> None \<longrightarrow> has_prefix (test_name (fsName fs)) ''test_matrix_''"
    using assms(2) unfolding prefix_test by (auto simp: matrix_names_reserved_def)
qed

definition matrix_cells :: "loaded \<Rightarrow> FaultScenarioDef list" where
  "matrix_cells rt = filter (\<lambda>fs. fsMatrix fs \<noteq> None) (map snd (faultScenarios rt))"

lemma discovered_count:
  assumes "spec_ok rt" "matrix_names_reserved rt"
  shows "length (DiscoverTests rt) =
    card ({n \<in> set (globals rt). has_prefix n ''test_''} \<union> fst ` set (testConfigs rt) \<union>
      (\<lambda>fs. test_name (fsName fs)) ` set (free_of (faultScenarios rt)) \<union> (\<lambda>s. test_name s) ` set (scenarios rt)) +
    length (matrix_cells rt)" (is "_ = card ?N + _")
proof -
  let ?C = "(\<lambda>fs. test_name (fsName fs)) ` set (matrix_cells rt)"
  have "distinct (DiscoverTests rt)"
    using assms(1) by (simp add: DiscoverTests_def discover_loop_names(2) spec_ok_def)
  moreover have "set (DiscoverTests rt) = ?N \<union> ?C"
  proof -
    have "snd ` set (faultScenarios rt) = set (free_of (faultScenarios rt)) \<union> set (matrix_cells rt)"
      by (auto simp: matrix_cells_def free_of_def)
    then have "(\<lambda>(_, fs). test_name (fsName fs)) ` set (faultScenarios rt) =
        (\<lambda>fs. test_name (fsName fs)) ` (set (free_of (faultScenarios rt)) \<union> set (matrix_cells rt))"
      by (metis (no_types, lifting) image_cong image_image split_beta)
    then show ?thesis by (simp add: DiscoverTests_def discover_loop_names(1) image_Un Un_ac)
  qed
  moreover have "card (?N \<union> ?C) = card ?N + card ?C"
    using matrix_apart [OF assms] by (intro card_Un_disjoint) (auto simp: matrix_cells_def)
  moreover have "distinct (map (\<lambda>fs. test_name (fsName fs)) (matrix_cells rt))"
  proof -
    have "distinct (map fsName (matrix_cells rt))"
      using spec_names [OF assms(1)] distinct_map_filter [of fsName "map snd (faultScenarios rt)"]
      by (simp add: matrix_cells_def)
    then show ?thesis by (simp add: distinct_map inj_on_def)
  qed
  then have "card ?C = length (matrix_cells rt)" using distinct_card [of "map (\<lambda>fs. test_name (fsName fs)) (matrix_cells rt)"] by simp
  ultimately show ?thesis using distinct_card [of "DiscoverTests rt"] by simp
qed

lemma card_grow: "finite A \<Longrightarrow> finite B \<Longrightarrow> card (A \<union> B) = card A + card (B - A)"
  using card_Un_disjoint [of A "B - A"] by simp

lemma planned_count:
  assumes "spec_ok rt" "matrix_names_reserved rt" "chooseAxes rt = Map.empty"
  shows "sum_list (map Instances (buildTests dur rt)) =
    int (card (set (defTestNames rt) \<union> fst ` set (testConfigs rt) \<union>
      (\<lambda>fs. test_name (fsName fs)) ` set (free_of (faultScenarios rt)) \<union> (\<lambda>s. test_name s) ` set (scenarios rt))) +
    int (length (matrix_cells rt))" (is "_ = int (card (?D \<union> ?T \<union> ?F \<union> ?S)) + _")
    and "distinct (map ptName (buildTests dur rt))"
proof -
  let ?M = "ptName ` set (matrix_entries rt)"
  define t1 where "t1 = add_new (builtin_entries dur rt) (def_entries rt)"
  define t2 where "t2 = add_new (matrix_entries rt) t1"
  define t3 where "t3 = add_new (free_entries rt) t2"
  define t4 where "t4 = add_new (scenario_entries rt) t3"
  have n0: "ptName ` set (def_entries rt) = ?D" "ptName ` set (builtin_entries dur rt) = ?T"
    "ptName ` set (free_entries rt) = ?F" "ptName ` set (scenario_entries rt) = ?S"
    using arg_cong [OF names_def [of rt], of set] arg_cong [OF names_builtin [of dur rt], of set] names_free [OF assms(1)]
      arg_cong [OF names_scenario [of rt], of set]
    by (simp_all add: sortedKeys_def sortedSetValues_def)
  have names: "ptName ` set t1 = ?D \<union> ?T" "ptName ` set t2 = ?D \<union> ?T \<union> ?M" "ptName ` set t3 = ?D \<union> ?T \<union> ?M \<union> ?F"
    using add_new_names(1) [of "builtin_entries dur rt" "def_entries rt"] add_new_names(1) [of "matrix_entries rt" t1]
      add_new_names(1) [of "free_entries rt" t2] n0 by (simp_all add: t1_def t2_def t3_def)
  have D: "?D \<subseteq> set (globals rt)" by (auto simp: defTestNames_def Let_def)
  have "has_prefix n ''test_matrix_''" if "n \<in> ?M" for n
    using that arg_cong [OF names_matrix [of rt], of set] by (auto simp: has_prefix_def)
  then have M: "?M \<inter> (?D \<union> ?T \<union> ?F \<union> ?S) = {}"
    using matrix_apart(1) [OF assms(1,2)] D by blast
  have d: "distinct (map ptName (def_entries rt))"
    using assms(1) by (simp add: names_def defTestNames_def spec_ok_def Let_def)
  have "distinct (map ptName (matrix_entries rt))"
    using group_distinct(1) by (simp add: names_matrix distinct_map inj_on_def sortedKeys_def)
  moreover have "?M \<inter> ptName ` set t1 = {}" unfolding names(1) using M by blast
  ultimately have t2': "t2 = t1 @ matrix_entries rt" unfolding t2_def by (rule add_new_fresh)
  have "sum_list (map Instances (def_entries rt)) = int (card ?D)"
    using instances_one(1) [OF assms(3)] distinct_card [OF d] n0(1) by (simp add: sum_list_triv cong: map_cong)
  then have s1: "sum_list (map Instances t1) = int (card ?D) + int (card (?T - ?D))"
    using add_new_ones [OF instances_one(2)] n0 by (simp add: t1_def)
  have s2: "sum_list (map Instances t2) = sum_list (map Instances t1) + int (length (matrix_cells rt))"
    using instances_matrix [of rt] by (simp add: t2' matrix_cells_def)
  have s3: "sum_list (map Instances t3) = sum_list (map Instances t2) + int (card (?F - (?D \<union> ?T)))"
  proof -
    have "?F - (?D \<union> ?T \<union> ?M) = ?F - (?D \<union> ?T)" using M by blast
    then show ?thesis using add_new_ones [OF instances_one(3) [of rt], of t2] n0 names(2) by (simp add: t3_def)
  qed
  have s4: "sum_list (map Instances t4) = sum_list (map Instances t3) + int (card (?S - (?D \<union> ?T \<union> ?F)))"
  proof -
    have "?S - (?D \<union> ?T \<union> ?M \<union> ?F) = ?S - (?D \<union> ?T \<union> ?F)" using M by blast
    then show ?thesis using add_new_ones [OF instances_one(4) [of rt], of t3] n0 names(3) by (simp add: t4_def)
  qed
  have "card (?D \<union> ?T \<union> ?F \<union> ?S) = card (?D \<union> ?T \<union> ?F) + card (?S - (?D \<union> ?T \<union> ?F))"
    "card (?D \<union> ?T \<union> ?F) = card (?D \<union> ?T) + card (?F - (?D \<union> ?T))" "card (?D \<union> ?T) = card ?D + card (?T - ?D)"
    by (intro card_grow; simp)+
  then have sum: "sum_list (map Instances t4) = int (card (?D \<union> ?T \<union> ?F \<union> ?S)) + int (length (matrix_cells rt))"
    unfolding s4 s3 s2 s1 by linarith
  have b: "buildTests dur rt = sort_key ptName t4" by (simp add: buildTests_def t1_def t2_def t3_def t4_def)
  have "sum_list (map Instances (sort_key ptName t4)) = sum_mset (image_mset Instances (mset (sort_key ptName t4)))"
    by (simp only: sum_mset_sum_list [symmetric] mset_map)
  also have "\<dots> = sum_list (map Instances t4)" by (simp only: mset_sort sum_mset_sum_list [symmetric] mset_map)
  finally show "sum_list (map Instances (buildTests dur rt)) = int (card (?D \<union> ?T \<union> ?F \<union> ?S)) + int (length (matrix_cells rt))"
    unfolding b sum .
  have "distinct (map ptName t4)" unfolding t4_def t3_def t2_def t1_def by (intro add_new_names(2) d)
  then show "distinct (map ptName (buildTests dur rt))" unfolding b by (simp add: distinct_map)
qed


definition demo_cell :: FaultScenarioDef where
  "demo_cell = \<lparr>fsName = ''matrix_flow_down'', fsFaults = [], fsExpect = None,
     fsMatrix = Some \<lparr>ScenarioName = ''flow'', FaultName = ''down''\<rparr>\<rparr>"

definition demo_free :: FaultScenarioDef where
  "demo_free = \<lparr>fsName = ''slow'', fsFaults = [], fsExpect = None, fsMatrix = None\<rparr>"

definition demo_spec :: "loaded" where
  "demo_spec = \<lparr>globals = [''test_a'', ''helper''], scenarios = [''flow''],
     faultScenarios = [(''slow'', demo_free), (''matrix_flow_down'', demo_cell)],
     testConfigs = [(''test_b'', \<lparr>tcExpect = None, tcTimeout = 0\<rparr>)], chooseAxes = Map.empty\<rparr>"

definition demo_spec' :: "loaded" where
  "demo_spec' = demo_spec\<lparr>globals := [''helper'', ''test_a''],
     faultScenarios := [(''matrix_flow_down'', demo_cell), (''slow'', demo_free)]\<rparr>"

lemma demo_spec_ok: "spec_ok demo_spec" "spec_ok demo_spec'" "reordered demo_spec demo_spec'"
  "matrix_names_reserved demo_spec" "chooseAxes demo_spec = Map.empty"
  by (auto simp: spec_ok_def reordered_def matrix_names_reserved_def has_prefix_def demo_spec_def demo_spec'_def demo_cell_def
      demo_free_def)

theorem plan_order_independent_witness:
  "globals demo_spec \<noteq> globals demo_spec' \<and> buildTests (\<lambda>_. []) demo_spec = buildTests (\<lambda>_. []) demo_spec'"
proof -
  have "globals demo_spec \<noteq> globals demo_spec'" by (simp add: demo_spec_def demo_spec'_def)
  then show ?thesis using plan_order_independent [OF demo_spec_ok(1-3)] by blast
qed


text \<open>A function whose name begins like a matrix runs and is missing from the plan.\<close>

lemma matrix_like_def_unplanned:
  "DiscoverTests (demo_spec\<lparr>globals := [''test_matrix_sum'']\<rparr>) =
     [''test_b'', ''test_flow'', ''test_matrix_flow_down'', ''test_matrix_sum'', ''test_slow''] \<and>
   map ptName (buildTests (\<lambda>_. []) (demo_spec\<lparr>globals := [''test_matrix_sum'']\<rparr>)) =
     [''test_b'', ''test_flow'', ''test_matrix_flow'', ''test_slow'']"
  by code_simp

section \<open>The cells of a matrix\<close>

text \<open>The last loop of \<^verbatim>\<open>builtinFaultMatrix\<close> in \<^verbatim>\<open>internal/star/builtins.go\<close>: scenarios by faults, without the
excluded pairs, each registered under a name made of the two.\<close>

definition cell_name :: "string \<Rightarrow> string \<Rightarrow> string" where
  "cell_name sc fa = ''matrix_'' @ sc @ ''_'' @ fa"

definition matrix_cell ::
  "string option \<Rightarrow> (string \<times> string \<Rightarrow> string option) \<Rightarrow> string \<Rightarrow> FaultAssumptionDef \<Rightarrow> FaultScenarioDef" where
  "matrix_cell defaultExpect overrides sc fa =
    \<lparr>fsName = cell_name sc (faName fa), fsFaults = [fa],
     fsExpect = (case overrides (sc, faName fa) of Some e \<Rightarrow> Some e | None \<Rightarrow> defaultExpect),
     fsMatrix = Some \<lparr>ScenarioName = sc, FaultName = faName fa\<rparr>\<rparr>"

fun cell_loop ::
  "string option \<Rightarrow> (string \<times> string \<Rightarrow> string option) \<Rightarrow> (string \<times> string) list \<Rightarrow> (string \<times> FaultAssumptionDef) list \<Rightarrow>
    (string \<times> FaultScenarioDef) list \<Rightarrow> (string \<times> FaultScenarioDef) list" where
  "cell_loop de ov excluded [] m = m"
| "cell_loop de ov excluded ((sc, fa) # ps) m =
    (if (sc, faName fa) \<in> set excluded then cell_loop de ov excluded ps m
     else cell_loop de ov excluded ps (AList.update (cell_name sc (faName fa)) (matrix_cell de ov sc fa) m))"

definition register_matrix ::
  "string option \<Rightarrow> (string \<times> string \<Rightarrow> string option) \<Rightarrow> (string \<times> string) list \<Rightarrow> string list \<Rightarrow> FaultAssumptionDef list \<Rightarrow>
    (string \<times> FaultScenarioDef) list \<Rightarrow> (string \<times> FaultScenarioDef) list" where
  "register_matrix de ov excluded scs fas m = cell_loop de ov excluded (List.product scs fas) m"

lemma cell_loop_lookup:
  assumes "inj_on (\<lambda>(sc, fa). cell_name sc (faName fa)) (set ps)" "(sc, fa) \<in> set ps" "(sc, faName fa) \<notin> set excluded"
  shows "map_of (cell_loop de ov excluded ps m) (cell_name sc (faName fa)) = Some (matrix_cell de ov sc fa)"
  using assms
proof (induction ps arbitrary: m)
  case (Cons p ps)
  obtain sc' fa' where p: "p = (sc', fa')" by force
  have keep: "map_of (cell_loop de ov excluded qs m) k = map_of m k"
    if "\<forall>(s, f)\<in>set qs. cell_name s (faName f) \<noteq> k" for qs m k
    using that by (induction qs arbitrary: m) (auto simp: update_conv')
  show ?case
  proof (cases "(sc, fa) \<in> set ps")
    case True
    then show ?thesis using Cons p by (auto simp: inj_on_def)
  next
    case False
    then have pe: "sc' = sc" "fa' = fa" using Cons.prems(2) p by auto
    have "\<forall>(s, f)\<in>set ps. cell_name s (faName f) \<noteq> cell_name sc (faName fa)"
      using Cons.prems(1) False p pe by (fastforce simp: inj_on_def)
    then show ?thesis using keep Cons.prems(3) p pe by (simp add: update_conv')
  qed
qed simp

text \<open>Every pair that is not excluded becomes a test, as long as no two pairs make the same name. The
underscore between the parts does not keep them apart: two pairs can share one name, and the later
one replaces the test of the earlier.\<close>

lemma matrix_registers_all:
  assumes "inj_on (\<lambda>(sc, fa). cell_name sc (faName fa)) (set scs \<times> set fas)" "sc \<in> set scs" "fa \<in> set fas"
    "(sc, faName fa) \<notin> set excluded"
  shows "map_of (register_matrix de ov excluded scs fas m) (cell_name sc (faName fa)) = Some (matrix_cell de ov sc fa)"
  unfolding register_matrix_def using assms by (intro cell_loop_lookup) auto

lemma matrix_cells_collide:
  "map fst (register_matrix None (\<lambda>_. None) [] [''read'', ''read_db'']
     [\<lparr>faName = ''db_down'', faRules = [], faProxyRules = []\<rparr>, \<lparr>faName = ''down'', faRules = [], faProxyRules = []\<rparr>] []) =
   [''matrix_read_db_down'', ''matrix_read_down'', ''matrix_read_db_db_down'']"
  by (simp add: register_matrix_def cell_name_def)

end
