(* ===== verification/Plan_Coverage.thy ===== *)
theory Plan_Coverage
  imports Plan_Tree
begin

text \<open>The topology of a specification and how much of it the plan disturbs: \<^verbatim>\<open>internal/generate/analyzer.go\<close>
and \<^verbatim>\<open>internal/plan/coverage.go\<close>. Shown: an edge counts as covered exactly when a fault of some scenario
targets its end.\<close>

section \<open>Topology\<close>

record IfaceDef =
  ifName :: string
  ifProtocol :: string
  ifPort :: int

record SvcDef =
  sName :: string
  sInterfaces :: "(string \<times> IfaceDef) list"
  sDependsOn :: "string list"
  sEnv :: "(string \<times> string) list"

record DependencyEdge =
  dFrom :: string
  dTo :: string
  dVia :: string
  dProtocol :: string

text \<open>The protocol of a service is that of the first interface that has one, in the order of the map.\<close>

fun primary_protocol :: "(string \<times> IfaceDef) list \<Rightarrow> string" where
  "primary_protocol [] = []"
| "primary_protocol ((_, i) # is) = (if ifProtocol i \<noteq> [] then ifProtocol i else primary_protocol is)"

fun protocol_of :: "SvcDef list \<Rightarrow> string \<Rightarrow> string" where
  "protocol_of [] n = []"
| "protocol_of (s # ss) n = (if sName s = n then primary_protocol (sInterfaces s) else protocol_of ss n)"

definition hasEdge :: "DependencyEdge list \<Rightarrow> string \<Rightarrow> string \<Rightarrow> bool" where
  "hasEdge edges f t = list_ex (\<lambda>e. dFrom e = f \<and> dTo e = t) edges"

fun addr_pass :: "string \<Rightarrow> SvcDef \<Rightarrow> string list \<Rightarrow> string option" where
  "addr_pass lowerVal other [] = None"
| "addr_pass lowerVal other (n # ns) =
    (let i = the (map_of (sInterfaces other) n) in
     if str_contains lowerVal (to_lower (sName other @ '':'' @ show_int (ifPort i))) \<or>
        str_contains lowerVal (to_lower (sName other) @ ''.'')
     then Some (ifProtocol i) else addr_pass lowerVal other ns)"

fun ref_pass :: "string \<Rightarrow> SvcDef \<Rightarrow> string list \<Rightarrow> string option" where
  "ref_pass lowerVal other [] = None"
| "ref_pass lowerVal other (n # ns) =
    (let i = the (map_of (sInterfaces other) n) in
     if str_contains lowerVal (to_lower (sName other @ ''.'' @ ifName i @ ''.''))
     then Some (ifProtocol i) else ref_pass lowerVal other ns)"

definition env_reference :: "SvcDef list \<Rightarrow> string \<Rightarrow> SvcDef \<Rightarrow> string option" where
  "env_reference svcs val other =
    (let lowerVal = to_lower val; ifaceKeys = sort (map fst (sInterfaces other)) in
     case addr_pass lowerVal other ifaceKeys of
       Some p \<Rightarrow> Some p
     | None \<Rightarrow>
         if str_contains lowerVal (to_lower (sName other)) then Some (protocol_of svcs (sName other))
         else ref_pass lowerVal other ifaceKeys)"

fun env_others :: "SvcDef list \<Rightarrow> string \<Rightarrow> string \<Rightarrow> SvcDef list \<Rightarrow> DependencyEdge list \<Rightarrow> DependencyEdge list" where
  "env_others svcs from val [] edges = edges"
| "env_others svcs from val (oth # os) edges =
    (if sName oth = from then env_others svcs from val os edges
     else
       case env_reference svcs val oth of
         Some p \<Rightarrow>
           if hasEdge edges from (sName oth) then env_others svcs from val os edges
           else env_others svcs from val os (edges @ [\<lparr>dFrom = from, dTo = sName oth, dVia = ''env'', dProtocol = p\<rparr>])
       | None \<Rightarrow> env_others svcs from val os edges)"

fun env_keys :: "SvcDef list \<Rightarrow> SvcDef \<Rightarrow> string list \<Rightarrow> DependencyEdge list \<Rightarrow> DependencyEdge list" where
  "env_keys svcs svc [] edges = edges"
| "env_keys svcs svc (k # ks) edges =
    env_keys svcs svc ks (env_others svcs (sName svc) (the (map_of (sEnv svc) k)) svcs edges)"

fun edge_loop :: "SvcDef list \<Rightarrow> SvcDef list \<Rightarrow> DependencyEdge list \<Rightarrow> DependencyEdge list" where
  "edge_loop svcs [] edges = edges"
| "edge_loop svcs (svc # rest) edges =
    edge_loop svcs rest (env_keys svcs svc (sort (map fst (sEnv svc)))
      (edges @ map (\<lambda>dep. \<lparr>dFrom = sName svc, dTo = dep, dVia = ''depends_on'', dProtocol = protocol_of svcs dep\<rparr>)
        (sDependsOn svc)))"

definition Analyze :: "SvcDef list \<Rightarrow> DependencyEdge list" where
  "Analyze svcs = edge_loop svcs svcs []"

section \<open>Coverage\<close>

record PlanEdge =
  pFrom :: string
  pTo :: string
  pProtocol :: string
  pVia :: string
  FaultTests :: "string list"

definition appendUnique :: "string list \<Rightarrow> string \<Rightarrow> string list" where
  "appendUnique s v = (if v \<in> set s then s else s @ [v])"

fun target_loop ::
  "string \<Rightarrow> string option list \<Rightarrow> string list \<Rightarrow> (string \<Rightarrow> string list) \<Rightarrow> string list \<times> (string \<Rightarrow> string list)" where
  "target_loop t [] seen out = (seen, out)"
| "target_loop t (None # rs) seen out = target_loop t rs seen out"
| "target_loop t (Some n # rs) seen out =
    (if n \<in> set seen then target_loop t rs seen out
     else target_loop t rs (n # seen) (out(n := appendUnique (out n) t)))"

fun fault_loop :: "string \<Rightarrow> FaultAssumptionDef list \<Rightarrow> (string \<Rightarrow> string list) \<Rightarrow> string \<Rightarrow> string list" where
  "fault_loop t [] out = out"
| "fault_loop t (fa # fas) out =
    (let (seen, out1) = target_loop t (faRules fa) [] out; (_, out2) = target_loop t (faProxyRules fa) seen out1
     in fault_loop t fas out2)"

definition collapsed_name :: "FaultScenarioDef \<Rightarrow> string" where
  "collapsed_name fs = (case fsMatrix fs of Some mi \<Rightarrow> ''test_matrix_'' @ ScenarioName mi | None \<Rightarrow> test_name (fsName fs))"

fun join_loop :: "(string \<times> FaultScenarioDef) list \<Rightarrow> (string \<Rightarrow> string list) \<Rightarrow> string \<Rightarrow> string list" where
  "join_loop [] out = out"
| "join_loop ((_, fs) # m) out = join_loop m (fault_loop (collapsed_name fs) (fsFaults fs) out)"

definition joinTestsToTarget :: "(string \<times> FaultScenarioDef) list \<Rightarrow> string \<Rightarrow> string list" where
  "joinTestsToTarget m = join_loop m (\<lambda>_. [])"

record PlanCoverage =
  Edges :: "PlanEdge list"
  UncoveredEdges :: nat
  CoveredProtocols :: "string list"
  UncoveredProtocols :: "string list"

definition plan_edges :: "(string \<Rightarrow> string list) \<Rightarrow> DependencyEdge list \<Rightarrow> PlanEdge list" where
  "plan_edges testsByTarget es = map (\<lambda>e. \<lparr>pFrom = dFrom e, pTo = dTo e, pProtocol = dProtocol e, pVia = dVia e,
     FaultTests = sort (testsByTarget (dTo e))\<rparr>) es"

definition WithCoverage :: "SvcDef list \<Rightarrow> (string \<times> FaultScenarioDef) list \<Rightarrow> PlanCoverage" where
  "WithCoverage svcs m =
    (let edges = plan_edges (joinTestsToTarget m) (Analyze svcs);
         allp = map pProtocol (filter (\<lambda>e. pProtocol e \<noteq> []) edges);
         covered = map pProtocol (filter (\<lambda>e. pProtocol e \<noteq> [] \<and> FaultTests e \<noteq> []) edges)
     in \<lparr>Edges = edges, UncoveredEdges = length (filter (\<lambda>e. FaultTests e = []) edges),
         CoveredProtocols = sortedSetValues (filter (\<lambda>p. p \<in> set covered) allp),
         UncoveredProtocols = sortedSetValues (filter (\<lambda>p. p \<notin> set covered) allp)\<rparr>)"

text \<open>The services that a fault scenario disturbs.\<close>

definition disturbs :: "FaultScenarioDef \<Rightarrow> string \<Rightarrow> bool" where
  "disturbs fs n \<longleftrightarrow> (\<exists>fa\<in>set (fsFaults fs). Some n \<in> set (faRules fa) \<union> set (faProxyRules fa))"

text \<open>What a loop adds to the tests per target.\<close>

definition extends :: "(string \<Rightarrow> string set) \<Rightarrow> (string \<Rightarrow> string list) \<Rightarrow> (string \<Rightarrow> string list) \<Rightarrow> bool" where
  "extends A out out' \<longleftrightarrow> (\<forall>n. set (out' n) = set (out n) \<union> A n) \<and> ((\<forall>n. distinct (out n)) \<longrightarrow> (\<forall>n. distinct (out' n)))"

lemma extends_refl: "(\<And>n. A n \<subseteq> set (out n)) \<Longrightarrow> extends A out out"
  by (auto simp: extends_def)

lemma extends_trans: "extends A out out1 \<Longrightarrow> extends B out1 out2 \<Longrightarrow> extends (\<lambda>n. A n \<union> B n) out out2"
  by (simp add: extends_def Un_assoc)

lemma extends_add: "extends (\<lambda>k. {x. x = t \<and> k = n}) out (out(n := appendUnique (out n) t))"
  by (auto simp: extends_def appendUnique_def)

lemma extends_more:
  assumes "extends A out out'" "\<And>n. A n \<subseteq> B n" "\<And>n. B n \<subseteq> A n \<union> set (out n)"
  shows "extends B out out'"
proof -
  have "set (out n) \<union> A n = set (out n) \<union> B n" for n using assms(2,3) [of n] by blast
  then show ?thesis using assms(1) by (simp add: extends_def)
qed

lemma extendsD: "extends A out out' \<Longrightarrow> set (out' n) = set (out n) \<union> A n"
  by (simp add: extends_def)

lemma target_loop_extends:
  assumes "target_loop t rs seen out = (seen', out')" "\<forall>n\<in>set seen. t \<in> set (out n)"
  shows "extends (\<lambda>n. {x. x = t \<and> Some n \<in> set rs}) out out' \<and> (\<forall>n\<in>set seen'. t \<in> set (out' n))"
  using assms
proof (induction t rs seen out rule: target_loop.induct)
  case (3 t n rs seen out)
  show ?case
  proof (cases "n \<in> set seen")
    case True
    then have IH: "extends (\<lambda>n. {x. x = t \<and> Some n \<in> set rs}) out out'" "\<forall>n\<in>set seen'. t \<in> set (out' n)"
      using "3.IH"(1) [OF True] "3.prems" by simp_all
    have "t \<in> set (out n)" using "3.prems"(2) True by blast
    then have "extends (\<lambda>k. {x. x = t \<and> Some k \<in> set (Some n # rs)}) out out'" by (intro extends_more [OF IH(1)]) auto
    then show ?thesis using IH(2) by blast
  next
    case False
    define out1 where "out1 = out(n := appendUnique (out n) t)"
    have e: "extends (\<lambda>k. {x. x = t \<and> k = n}) out out1" unfolding out1_def by (rule extends_add)
    have seen: "\<forall>k\<in>set (n # seen). t \<in> set (out1 k)" using "3.prems"(2) extendsD [OF e] by simp
    have l: "target_loop t rs (n # seen) out1 = (seen', out')" using "3.prems"(1) False by (simp add: out1_def)
    note IH = "3.IH"(2) [OF False, folded out1_def, OF l seen, THEN conjunct1]
      "3.IH"(2) [OF False, folded out1_def, OF l seen, THEN conjunct2]
    have "extends (\<lambda>k. {x. x = t \<and> Some k \<in> set (Some n # rs)}) out out'"
      by (rule extends_more [OF extends_trans [OF e IH(1)]]) auto
    then show ?thesis using IH(2) by blast
  qed
qed (auto intro: extends_refl)

definition tests_of :: "string \<Rightarrow> FaultAssumptionDef list \<Rightarrow> string \<Rightarrow> string set" where
  "tests_of t fas n = {x. x = t \<and> (\<exists>fa\<in>set fas. Some n \<in> set (faRules fa) \<union> set (faProxyRules fa))}"

lemma fault_loop_extends: "extends (tests_of t fas) out (fault_loop t fas out)"
proof (induction fas arbitrary: out)
  case (Cons fa fas)
  obtain s1 o1 where r: "target_loop t (faRules fa) [] out = (s1, o1)" by force
  obtain s2 o2 where p: "target_loop t (faProxyRules fa) s1 o1 = (s2, o2)" by force
  have "\<forall>n\<in>set []. t \<in> set (out n)" by simp
  note e1 = target_loop_extends [OF r this]
  note e2 = target_loop_extends [OF p conjunct2 [OF e1]]
  have "extends (tests_of t (fa # fas)) out (fault_loop t fas o2)"
    by (rule extends_more [OF extends_trans [OF extends_trans [OF conjunct1 [OF e1] conjunct1 [OF e2]] Cons.IH]])
      (auto simp: tests_of_def)
  then show ?case by (simp add: r p)
qed (simp add: extends_refl tests_of_def)

definition planned_tests :: "(string \<times> FaultScenarioDef) list \<Rightarrow> string \<Rightarrow> string set" where
  "planned_tests m n = {collapsed_name fs | fs. fs \<in> snd ` set m \<and> disturbs fs n}"

lemma join_loop_extends: "extends (planned_tests m) out (join_loop m out)"
proof (induction m arbitrary: out)
  case (Cons x m)
  obtain k fs where x: "x = (k, fs)" by force
  have "extends (planned_tests (x # m)) out (join_loop m (fault_loop (collapsed_name fs) (fsFaults fs) out))"
    by (rule extends_more [OF extends_trans [OF fault_loop_extends Cons.IH]])
      (auto simp: tests_of_def planned_tests_def disturbs_def x)
  then show ?case by (simp add: x)
qed (simp add: extends_refl planned_tests_def)


text \<open>The protocol of an edge may depend on the order in which Go visits the interfaces of a service.\<close>

definition two_faced :: "(string \<times> IfaceDef) list" where
  "two_faced = [(''a'', \<lparr>ifName = ''a'', ifProtocol = ''http'', ifPort = 80\<rparr>), (''b'', \<lparr>ifName = ''b'', ifProtocol = ''tcp'', ifPort = 81\<rparr>)]"

definition demo_svcs :: "(string \<times> IfaceDef) list \<Rightarrow> SvcDef list" where
  "demo_svcs is = [\<lparr>sName = ''db'', sInterfaces = is, sDependsOn = [], sEnv = []\<rparr>,
     \<lparr>sName = ''api'', sInterfaces = [], sDependsOn = [''db''], sEnv = []\<rparr>]"

lemma edge_protocol_order_dependent:
  "map dProtocol (Analyze (demo_svcs two_faced)) = [''http''] \<and>
   map dProtocol (Analyze (demo_svcs (rev two_faced))) = [''tcp'']"
  by (simp add: Analyze_def demo_svcs_def two_faced_def)

text \<open>The edge of the demo topology and a scenario that delays the database.\<close>

definition slow_db :: FaultScenarioDef where
  "slow_db = \<lparr>fsName = ''slow'', fsFaults = [\<lparr>faName = ''f'', faRules = [Some ''db''], faProxyRules = []\<rparr>], fsExpect = None, fsMatrix = None\<rparr>"


end
