(* ===== verification/Dependency_Order.thy ===== *)
theory Dependency_Order
  imports Go_Prelude
begin

text \<open>The start order of services, \<^verbatim>\<open>DependencyOrder\<close> of \<^verbatim>\<open>internal/config/config.go\<close> and its use in
\<^verbatim>\<open>internal/star/runtime.go\<close>: a depth-first walk that marks the services being visited.

The walk is recursive over a graph, so it is a partial function whose value \<^const>\<open>None\<close> means that it never
returns. Shown: it always returns; it fails exactly when the dependencies are circular; otherwise every
service comes once and after everything it depends on, in whatever order Go visits the map.\<close>

section \<open>The walk\<close>

record walk =
  visited :: "string list"
  visiting :: "string list"
  worder :: "string list"

type_synonym deps = "string \<Rightarrow> string list"

text \<open>\<^verbatim>\<open>visit\<close> on a list of names in turn: its own loop over the dependencies, and the loop of the caller over
all services.\<close>

definition enter :: "string \<Rightarrow> walk \<Rightarrow> walk" where
  "enter n w = w\<lparr>visiting := n # visiting w\<rparr>"

definition leave :: "string \<Rightarrow> walk \<Rightarrow> walk" where
  "leave n w = w\<lparr>visiting := removeAll n (visiting w), visited := n # visited w, worder := worder w @ [n]\<rparr>"

partial_function (option) visit :: "deps \<Rightarrow> string list \<Rightarrow> walk \<Rightarrow> (string + walk) option" where
  "visit deps ns w =
    (case ns of
       [] \<Rightarrow> Some (Inr w)
     | n # rest \<Rightarrow>
         if n \<in> set (visited w) then visit deps rest w
         else if n \<in> set (visiting w) then Some (Inl (''circular dependency involving '' @ go_quote n))
         else
           Option.bind (visit deps (deps n) (enter n w))
             (\<lambda>r. case r of Inl e \<Rightarrow> Some (Inl e) | Inr w' \<Rightarrow> visit deps rest (leave n w')))"

text \<open>The services in the order in which Go visits the map; a name that is not a service has no
dependencies.\<close>

definition deps_of :: "(string \<times> string list) list \<Rightarrow> deps" where
  "deps_of services n = (case map_of services n of None \<Rightarrow> [] | Some ds \<Rightarrow> ds)"

definition DependencyOrder :: "(string \<times> string list) list \<Rightarrow> (string list res) option" where
  "DependencyOrder services =
    map_option (\<lambda>r. case r of Inl e \<Rightarrow> Inl e | Inr w \<Rightarrow> Inr (worder w))
      (visit (deps_of services) (map fst services) \<lparr>visited = [], visiting = [], worder = []\<rparr>)"

definition dependencyOrder :: "(string \<times> string list) list \<Rightarrow> string list option" where
  "dependencyOrder services =
    map_option (\<lambda>r. case r of Inl _ \<Rightarrow> sort (map fst services) | Inr names \<Rightarrow> names) (DependencyOrder services)"

section \<open>Every call returns, with the right answer\<close>

lemma visit_Nil [simp]: "visit deps [] w = Some (Inr w)"
  by (subst visit.simps) simp

lemma visit_Cons:
  "visit deps (n # rest) w =
    (if n \<in> set (visited w) then visit deps rest w
     else if n \<in> set (visiting w) then Some (Inl (''circular dependency involving '' @ go_quote n))
     else Option.bind (visit deps (deps n) (enter n w))
       (\<lambda>r. case r of Inl e \<Rightarrow> Some (Inl e) | Inr w' \<Rightarrow> visit deps rest (leave n w')))"
  by (subst visit.simps) simp

definition edges :: "deps \<Rightarrow> (string \<times> string) set" where
  "edges deps = {(a, b). b \<in> set (deps a)}"

text \<open>Everything comes after what it depends on.\<close>

definition topological :: "deps \<Rightarrow> string list \<Rightarrow> bool" where
  "topological deps xs \<longleftrightarrow> (\<forall>i<length xs. set (deps (xs ! i)) \<subseteq> set (take i xs))"

lemma topological_snoc: "topological deps (xs @ [n]) \<longleftrightarrow> topological deps xs \<and> set (deps n) \<subseteq> set xs"
  by (auto simp: topological_def nth_append less_Suc_eq)

definition walk_ok :: "deps \<Rightarrow> walk \<Rightarrow> bool" where
  "walk_ok deps w \<longleftrightarrow> distinct (worder w) \<and> set (worder w) = set (visited w) \<and> topological deps (worder w) \<and>
     set (visited w) \<inter> set (visiting w) = {}"

text \<open>What a call achieves: the names and what they need are in the order, or a name depends on itself.\<close>

definition achieved :: "deps \<Rightarrow> string list \<Rightarrow> walk \<Rightarrow> string + walk \<Rightarrow> bool" where
  "achieved deps ns w r =
    (case r of
       Inl e \<Rightarrow> \<exists>n. e = ''circular dependency involving '' @ go_quote n \<and> (n, n) \<in> (edges deps)\<^sup>+
     | Inr w' \<Rightarrow>
         walk_ok deps w' \<and> set (visiting w') = set (visiting w) \<and> set (visited w) \<union> set ns \<subseteq> set (visited w') \<and>
         set (visited w') \<subseteq> set (visited w) \<union> (edges deps)\<^sup>* `` set ns)"

lemma achieved_Cons:
  assumes "achieved deps (deps n) (enter n w) (Inr w1)" "achieved deps rest (leave n w1) r" "n \<notin> set (visiting w)"
  shows "achieved deps (n # rest) w r"
proof (cases r)
  case (Inl e)
  then show ?thesis using assms(2) by (simp add: achieved_def)
next
  case (Inr w')
  define A where "A = (edges deps)\<^sup>* `` {n}"
  define B where "B = (edges deps)\<^sup>* `` set rest"
  define D where "D = (edges deps)\<^sup>* `` set (deps n)"
  have sets: "D \<subseteq> A" "n \<in> A" "(edges deps)\<^sup>* `` insert n (set rest) = A \<union> B"
    by (auto simp: A_def B_def D_def edges_def intro: converse_rtrancl_into_rtrancl)
  have w1: "set (visiting w1) = insert n (set (visiting w))" "set (visited w1) \<subseteq> set (visited w) \<union> D"
    "set (visited w) \<union> set (deps n) \<subseteq> set (visited w1)"
    using assms(1) by (simp_all add: achieved_def enter_def D_def)
  have w': "walk_ok deps w'" "set (visiting w') = set (visiting w1) - {n}" "insert n (set (visited w1)) \<union> set rest \<subseteq> set (visited w')"
    "set (visited w') \<subseteq> insert n (set (visited w1)) \<union> B"
    using assms(2) Inr by (simp_all add: achieved_def leave_def B_def)
  have "set (visiting w') = set (visiting w)" using w1(1) w'(2) assms(3) by simp
  moreover have "set (visited w) \<union> insert n (set rest) \<subseteq> set (visited w')" using w1(3) w'(3) by blast
  moreover have "set (visited w') \<subseteq> set (visited w) \<union> (A \<union> B)" using w1(2) w'(4) sets(1,2) by blast
  ultimately show ?thesis using w'(1) unfolding achieved_def Inr sum.case list.set(2) sets(3) by blast
qed

text \<open>No dependency leads back: the order of a walk leaves no room for a cycle.\<close>

lemma topological_acyclic:
  assumes "topological deps xs" "distinct xs" "n \<in> set xs" "(n, m) \<in> (edges deps)\<^sup>+"
  shows "\<exists>i j. j < i \<and> i < length xs \<and> xs ! i = n \<and> xs ! j = m"
  using assms(4)
proof (induction rule: trancl_induct)
  case (base m)
  obtain i where i: "i < length xs" "xs ! i = n" using assms(3) by (auto simp: in_set_conv_nth)
  then have "m \<in> set (take i xs)" using base assms(1) by (auto simp: topological_def edges_def)
  then obtain j where "j < i" "xs ! j = m" using i by (auto simp: in_set_conv_nth)
  then show ?case using i by blast
next
  case (step m k)
  then obtain i j where ij: "j < i" "i < length xs" "xs ! i = n" "xs ! j = m" by blast
  then have j: "j < length xs" by simp
  then have "k \<in> set (take j xs)" using step(2) assms(1) ij(4) by (auto simp: topological_def edges_def)
  then obtain l where "l < j" "xs ! l = k" using j by (auto simp: in_set_conv_nth)
  then show ?case using ij less_trans by blast
qed

lemma leave_ok:
  assumes "achieved deps (deps n) (enter n w) (Inr w1)" "n \<notin> set (visited w)" "n \<notin> set (visiting w)"
  shows "walk_ok deps (leave n w1)" "set (visiting (leave n w1)) = set (visiting w)"
  using assms by (auto simp: achieved_def walk_ok_def leave_def enter_def topological_snoc)

lemma visit_achieves:
  assumes "finite U" "\<And>n. n \<in> U \<Longrightarrow> set (deps n) \<subseteq> U" "set ns \<subseteq> U" "walk_ok deps w"
    "\<forall>v\<in>set (visiting w). \<forall>x\<in>set ns. (v, x) \<in> (edges deps)\<^sup>+"
  shows "\<exists>r. visit deps ns w = Some r \<and> achieved deps ns w r"
  using assms(3-5)
proof (induction "card (U - set (visiting w))" arbitrary: ns w rule: less_induct)
  case less
  note smaller = less.hyps
  have "\<exists>r. visit deps ns w' = Some r \<and> achieved deps ns w' r"
    if "set ns \<subseteq> U" "walk_ok deps w'" "set (visiting w') = set (visiting w)"
      "\<forall>v\<in>set (visiting w'). \<forall>x\<in>set ns. (v, x) \<in> (edges deps)\<^sup>+" for w' ns
    using that
  proof (induction ns arbitrary: w')
    case Nil
    then show ?case by (simp add: achieved_def)
  next
    case (Cons n rest)
    show ?case
    proof (cases "n \<in> set (visited w')")
      case True
      have "\<exists>r. visit deps rest w' = Some r \<and> achieved deps rest w' r" using Cons.prems by (intro Cons.IH) simp_all
      then obtain r where r: "visit deps rest w' = Some r" "achieved deps rest w' r" by blast
      have "achieved deps (n # rest) w' r" using r(2) True by (auto simp: achieved_def split: sum.splits)
      then show ?thesis using r(1) True by (simp add: visit_Cons)
    next
      case unseen: False
      show ?thesis
      proof (cases "n \<in> set (visiting w')")
        case True
        then have "(n, n) \<in> (edges deps)\<^sup>+" using Cons.prems(4) by simp
        then show ?thesis using unseen True by (auto simp: visit_Cons achieved_def)
      next
        case False
        have n: "n \<in> U" using Cons.prems(1) by simp
        have "card (U - set (visiting (enter n w'))) < card (U - set (visiting w))"
          using assms(1) n False Cons.prems(3) by (intro psubset_card_mono) (auto simp: enter_def)
        moreover have "walk_ok deps (enter n w')" using Cons.prems(2) unseen by (auto simp: walk_ok_def enter_def)
        moreover have "\<forall>v\<in>set (visiting (enter n w')). \<forall>x\<in>set (deps n). (v, x) \<in> (edges deps)\<^sup>+"
          using Cons.prems(4) by (auto simp: enter_def edges_def intro: trancl_into_trancl)
        ultimately obtain r1 where r1: "visit deps (deps n) (enter n w') = Some r1" "achieved deps (deps n) (enter n w') r1"
          using smaller [of "enter n w'" "deps n"] assms(2) [OF n] by blast
        show ?thesis
        proof (cases r1)
          case (Inl e)
          then show ?thesis using r1 unseen False by (auto simp: visit_Cons achieved_def)
        next
          case (Inr w1)
          have a: "achieved deps (deps n) (enter n w') (Inr w1)" using r1(2) Inr by simp
          note l = leave_ok [OF a unseen False]
          have "\<exists>r. visit deps rest (leave n w1) = Some r \<and> achieved deps rest (leave n w1) r"
            using Cons.prems l by (intro Cons.IH) simp_all
          then obtain r where r: "visit deps rest (leave n w1) = Some r" "achieved deps rest (leave n w1) r" by blast
          have "achieved deps (n # rest) w' r" using achieved_Cons [OF a r(2) False] .
          then show ?thesis using r(1) r1(1) unseen False Inr by (simp add: visit_Cons)
        qed
      qed
    qed
  qed
  from this [OF less.prems(1,2) refl less.prems(3)] show ?case .
qed

text \<open>The names that occur at all.\<close>

definition universe :: "(string \<times> string list) list \<Rightarrow> string set" where
  "universe services = fst ` set services \<union> (\<Union>n\<in>fst ` set services. set (deps_of services n))"

lemma deps_key: "m \<in> set (deps_of services n) \<Longrightarrow> n \<in> fst ` set services"
  by (cases "map_of services n") (auto simp: deps_of_def dest: map_of_SomeD intro: rev_image_eqI)

lemma universe_closed: "finite (universe services)" "set (deps_of services n) \<subseteq> universe services"
proof -
  show "finite (universe services)" by (simp add: universe_def)
  show "set (deps_of services n) \<subseteq> universe services" using deps_key by (fastforce simp: universe_def)
qed

text \<open>C29. Computing the start order always returns, whatever the services and their dependencies, and in
whatever order the map is visited. It returns an error exactly when some service depends on itself,
directly or through others; otherwise it returns all services, each once and after everything it
depends on.\<close>

theorem dependency_order_total:
  shows "\<exists>r. DependencyOrder services = Some r \<and>
    (case r of
       Inl e \<Rightarrow> \<exists>n. (n, n) \<in> (edges (deps_of services))\<^sup>+
     | Inr names \<Rightarrow>
         (\<forall>n. (n, n) \<notin> (edges (deps_of services))\<^sup>+) \<and> distinct names \<and> set names = universe services \<and>
         topological (deps_of services) names)"
proof -
  let ?d = "deps_of services"
  let ?w = "\<lparr>visited = [], visiting = [], worder = []\<rparr>"
  have "\<exists>r. visit ?d (map fst services) ?w = Some r \<and> achieved ?d (map fst services) ?w r"
    using universe_closed by (intro visit_achieves [of "universe services"]) (auto simp: universe_def walk_ok_def topological_def)
  then obtain r where r: "visit ?d (map fst services) ?w = Some r" "achieved ?d (map fst services) ?w r" by blast
  show ?thesis
  proof (cases r)
    case (Inl e)
    then show ?thesis using r by (auto simp: DependencyOrder_def achieved_def)
  next
    case (Inr w)
    have w: "distinct (worder w)" "set (worder w) = set (visited w)" "topological ?d (worder w)"
      "fst ` set services \<subseteq> set (visited w)" "set (visited w) \<subseteq> (edges ?d)\<^sup>* `` (fst ` set services)"
      using r(2) Inr by (simp_all add: achieved_def walk_ok_def)
    have e: "edges ?d `` X \<subseteq> universe services" for X using universe_closed(2) by (auto simp: edges_def)
    have "x \<in> universe services" if "(n, x) \<in> (edges ?d)\<^sup>*" "n \<in> universe services" for n x
      using that by (induction rule: rtrancl_induct) (use e in auto)
    moreover have dom: "fst ` set services \<subseteq> universe services" by (auto simp: universe_def)
    ultimately have "set (worder w) \<subseteq> universe services" using w(2,5) by blast
    moreover have deps: "set (?d a) \<subseteq> set (worder w)" if a: "a \<in> set (worder w)" for a
    proof -
      from a obtain i where "i < length (worder w)" "worder w ! i = a" by (auto simp: in_set_conv_nth)
      then show ?thesis using w(3) set_take_subset [of i "worder w"] by (auto simp: topological_def)
    qed
    moreover have "universe services \<subseteq> set (worder w)" using deps w(2,4) by (auto simp: universe_def)
    moreover have "(n, n) \<notin> (edges ?d)\<^sup>+" for n
    proof
      assume c: "(n, n) \<in> (edges ?d)\<^sup>+"
      then obtain m where "m \<in> set (?d n)" by (auto simp: edges_def dest: tranclD)
      then have "n \<in> fst ` set services" by (rule deps_key)
      then have "n \<in> set (worder w)" using w(2,4) by auto
      from topological_acyclic [OF w(3,1) this c] w(1) show False by (auto simp: distinct_conv_nth)
    qed
    ultimately show ?thesis using r(1) Inr w by (auto simp: DependencyOrder_def)
  qed
qed

text \<open>Which of the possible orders comes out depends on the order in which Go visits the map. Circular
dependencies do not stop the runtime: it starts the services in alphabetical order.\<close>

lemma start_order_varies:
  "DependencyOrder [(''a'', []), (''b'', [])] = Some (Inr [''a'', ''b'']) \<and>
   DependencyOrder [(''b'', []), (''a'', [])] = Some (Inr [''b'', ''a''])"
  by (simp add: DependencyOrder_def visit_Cons deps_of_def enter_def leave_def)

lemma circular_starts_sorted:
  "dependencyOrder [(''b'', [''a'']), (''a'', [''b''])] = Some [''a'', ''b'']"
  by (simp add: dependencyOrder_def DependencyOrder_def visit_Cons deps_of_def enter_def leave_def)

end
