(* ===== verification/Rule_Syntax.thy ===== *)
theory Rule_Syntax
  imports Fault_Rule
begin

text \<open>The textual form of syscall fault rules: the parser and the printer of \<^verbatim>\<open>internal/engine/fault.go\<close> and the
rule strings that \<^verbatim>\<open>internal/config/config.go\<close> builds from the objects of a YAML specification.

The conversions of \<^verbatim>\<open>strconv\<close> and \<^verbatim>\<open>time\<close> that round are collected in the record \<open>numerics\<close>: reading and printing
durations and floating-point numbers, and rounding an exact result to a \<^verbatim>\<open>float64\<close>. Shown: whatever the parser
accepts is a usable rule; a printed rule is read back as it was; the rule strings of the configuration are read
as the object they were built from; and a path pattern with a colon is not.\<close>

section \<open>Numbers\<close>

record numerics =
  ParseDuration :: "string \<Rightarrow> int res"
  ParseFloat :: "string \<Rightarrow> float64 res"
  DurationString :: "int \<Rightarrow> string"
  fmt0 :: "float64 \<Rightarrow> string" \<comment> \<open>the verb \<open>%.0f\<close>\<close>
  rounded :: "rat \<Rightarrow> float64"

definition div100 :: "numerics \<Rightarrow> float64 \<Rightarrow> float64" where
  "div100 N x = (case x of Fin q \<Rightarrow> rounded N (q / 100) | _ \<Rightarrow> x)"

definition mul100 :: "numerics \<Rightarrow> float64 \<Rightarrow> float64" where
  "mul100 N x = (case x of Fin q \<Rightarrow> rounded N (q * 100) | _ \<Rightarrow> x)"

section \<open>Parsing\<close>

text \<open>\<^verbatim>\<open>strings.SplitN\<close> for a one-byte separator and a positive count.\<close>

fun split_n :: "nat \<Rightarrow> char \<Rightarrow> string \<Rightarrow> string list" where
  "split_n 0 c s = []"
| "split_n (Suc 0) c s = [s]"
| "split_n (Suc (Suc n)) c s =
     (if c \<in> set s then takeWhile (\<lambda>x. x \<noteq> c) s # split_n (Suc n) c (tl (dropWhile (\<lambda>x. x \<noteq> c) s)) else [s])"

definition zero_rule :: FaultRule where
  "zero_rule = \<lparr>Syscall = [], Action = ActionDeny, Errno = 0, Delay = 0, Probability = Fin 0, PathGlob = [],
     Trigger = TriggerAlways, TriggerN = 0, DestAddr = [], Label = [], Op = [], HoldTag = [], MaxFires = 0,
     Mode = [], counter = None, probCounter = None\<rparr>"

definition invalid :: "string \<Rightarrow> string \<Rightarrow> string" where
  "invalid raw why = ''invalid fault rule '' @ go_quote raw @ '': '' @ why"

definition isTriggerSegment :: "string \<Rightarrow> bool" where
  "isTriggerSegment s = (has_prefix s ''nth='' \<or> has_prefix s ''after='')"

fun parseTriggerFromSegments :: "string \<Rightarrow> string list \<Rightarrow> (FaultTrigger \<times> int) res" where
  "parseTriggerFromSegments raw [] = Inr (TriggerAlways, 0)"
| "parseTriggerFromSegments raw (seg0 # segs) =
    (let seg = trim_space seg0 in
     if seg = [] then parseTriggerFromSegments raw segs
     else if has_prefix seg ''nth='' then
       (case atoi (trim_prefix seg ''nth='') of
          Inl _ \<Rightarrow> Inl (invalid raw (''bad nth value '' @ go_quote seg @ '' (must be >= 1)''))
        | Inr n \<Rightarrow> if n < 1 then Inl (invalid raw (''bad nth value '' @ go_quote seg @ '' (must be >= 1)''))
                   else Inr (TriggerNth, n))
     else if has_prefix seg ''after='' then
       (case atoi (trim_prefix seg ''after='') of
          Inl _ \<Rightarrow> Inl (invalid raw (''bad after value '' @ go_quote seg @ '' (must be >= 0)''))
        | Inr n \<Rightarrow> if n < 0 then Inl (invalid raw (''bad after value '' @ go_quote seg @ '' (must be >= 0)''))
                   else Inr (TriggerAfter, n))
     else parseTriggerFromSegments raw segs)"

text \<open>The probability segment, read alike by both kinds of rule.\<close>

definition parse_prob :: "numerics \<Rightarrow> string \<Rightarrow> string \<Rightarrow> float64 res" where
  "parse_prob N raw seg =
    (case ParseFloat N (trim_suffix (trim_space seg) ''%'') of
       Inl e \<Rightarrow> Inl (invalid raw (''bad probability: '' @ e))
     | Inr x \<Rightarrow>
         let prob = div100 N x in
         if flt prob (Fin 0) \<or> flt (Fin 1) prob then Inl (invalid raw ''probability must be 0-100%'') else Inr prob)"

definition parseDelayRule :: "numerics \<Rightarrow> string \<Rightarrow> string \<Rightarrow> string list \<Rightarrow> FaultRule res" where
  "parseDelayRule N raw syscallName segments =
    (if length segments < 2 then Inl (invalid raw ''delay requires DURATION:PROB%'')
     else
       let durationStr = trim_space (segments ! 0) in
       case ParseDuration N durationStr of
         Inl e \<Rightarrow> Inl (invalid raw (''bad duration '' @ go_quote durationStr @ '': '' @ e))
       | Inr delay \<Rightarrow>
           if delay < 0 then Inl (invalid raw ''delay must be positive'')
           else
             (case parse_prob N raw (segments ! 1) of
                Inl e \<Rightarrow> Inl e
              | Inr prob \<Rightarrow>
                  (case parseTriggerFromSegments raw (drop 2 segments) of
                     Inl e \<Rightarrow> Inl e
                   | Inr (trigger, triggerN) \<Rightarrow>
                       Inr (zero_rule\<lparr>Syscall := syscallName, Action := ActionDelay, Delay := delay,
                         Probability := prob, Trigger := trigger, TriggerN := triggerN\<rparr>))))"

text \<open>The loop over the optional segments of a deny rule: the last one that is neither empty nor a trigger is the
path pattern.\<close>

fun deny_segments :: "string list \<Rightarrow> string \<Rightarrow> string list \<Rightarrow> string \<times> string list" where
  "deny_segments [] pg trigs = (pg, trigs)"
| "deny_segments (seg0 # segs) pg trigs =
    (let seg = trim_space seg0 in
     if isTriggerSegment seg then deny_segments segs pg (trigs @ [seg])
     else if seg \<noteq> [] then deny_segments segs seg trigs
     else deny_segments segs pg trigs)"

definition parseDenyRule :: "numerics \<Rightarrow> string \<Rightarrow> string \<Rightarrow> string list \<Rightarrow> FaultRule res" where
  "parseDenyRule N raw syscallName segments =
    (let errnoStr = trim_space (segments ! 0) in
     case errnoByName errnoStr of
       None \<Rightarrow> Inl (invalid raw (''unknown errno '' @ go_quote errnoStr))
     | Some errno \<Rightarrow>
         (case parse_prob N raw (segments ! 1) of
            Inl e \<Rightarrow> Inl e
          | Inr prob \<Rightarrow>
              let (pathGlob, triggerSegments) = deny_segments (drop 2 segments) [] [] in
              (case parseTriggerFromSegments raw triggerSegments of
                 Inl e \<Rightarrow> Inl e
               | Inr (trigger, triggerN) \<Rightarrow>
                   Inr (zero_rule\<lparr>Syscall := syscallName, Action := ActionDeny, Errno := errno,
                     Probability := prob, PathGlob := pathGlob, Trigger := trigger, TriggerN := triggerN\<rparr>))))"

definition ParseFaultRule :: "numerics \<Rightarrow> string \<Rightarrow> FaultRule res" where
  "ParseFaultRule N s =
    (let parts = split_n 2 CHR ''='' s in
     if length parts \<noteq> 2 then Inl (invalid s ''expected syscall=ACTION:PARAMS'')
     else
       let syscallName = trim_space (parts ! 0) in
       if syscallName = [] then Inl (invalid s ''empty syscall name'')
       else
         let rest = split_n 5 CHR '':'' (parts ! 1) in
         if length rest < 2 then Inl (invalid s (''expected ACTION:PARAMS after '='' @ [CHR 0x27]))
         else if to_lower (trim_space (rest ! 0)) = ''delay'' then parseDelayRule N s syscallName (drop 1 rest)
         else parseDenyRule N s syscallName rest)"

fun ParseFaultRules :: "numerics \<Rightarrow> string list \<Rightarrow> FaultRule list res" where
  "ParseFaultRules N [] = Inr []"
| "ParseFaultRules N (r # rs) =
    (case ParseFaultRule N r of
       Inl e \<Rightarrow> Inl e
     | Inr rule \<Rightarrow> (case ParseFaultRules N rs of Inl e \<Rightarrow> Inl e | Inr rules \<Rightarrow> Inr (rule # rules)))"

section \<open>Printing\<close>

definition trigger_suffix :: "FaultRule \<Rightarrow> string" where
  "trigger_suffix r =
    (case Trigger r of
       TriggerNth \<Rightarrow> '':nth='' @ show_int (TriggerN r)
     | TriggerAfter \<Rightarrow> '':after='' @ show_int (TriggerN r)
     | TriggerAlways \<Rightarrow> [])"

text \<open>\<open>ord\<close> is the order in which the call of \<^verbatim>\<open>errnoName\<close> visits the table.\<close>

definition rule_String :: "numerics \<Rightarrow> (string \<times> int) list \<Rightarrow> FaultRule \<Rightarrow> string" where
  "rule_String N ord r =
    (case Action r of
       ActionDelay \<Rightarrow> Syscall r @ ''=delay:'' @ DurationString N (Delay r) @ '':'' @ fmt0 N (mul100 N (Probability r)) @ ''%''
     | _ \<Rightarrow> Syscall r @ ''='' @ errnoName_in ord (Errno r) @ '':'' @ fmt0 N (mul100 N (Probability r)) @ ''%'' @
         (if PathGlob r \<noteq> [] then '':'' @ PathGlob r else [])) @
    trigger_suffix r"

section \<open>Rule strings of a specification\<close>

record TriggerSpec =
  TrigType :: string
  TrigN :: int

record FaultSpec =
  Raw :: string
  specSyscall :: string
  specAction :: string
  specErrno :: string
  specDelay :: string
  specProbability :: string
  specPathGlob :: string
  specTrigger :: "TriggerSpec option"

definition ToRuleString :: "FaultSpec \<Rightarrow> string" where
  "ToRuleString f =
    (if Raw f \<noteq> [] then Raw f
     else specSyscall f @ ''='' @
       (if specAction f = ''delay'' then ''delay:'' @ specDelay f @ '':'' @ specProbability f
        else (if specErrno f = [] then ''EIO'' else specErrno f) @ '':'' @ specProbability f @
          (if specPathGlob f \<noteq> [] then '':'' @ specPathGlob f else [])) @
       (case specTrigger f of None \<Rightarrow> [] | Some t \<Rightarrow> '':'' @ TrigType t @ ''='' @ show_int (TrigN t)))"

definition ToRuleStrings :: "FaultSpec list \<Rightarrow> string list" where
  "ToRuleStrings fs = map ToRuleString fs"

section \<open>What the parser accepts\<close>

text \<open>A rule the supervisor can act on: it names a syscall, its probability is one (or not a number, which the range
check does not catch), a denial carries a real errno, a delay is not negative, and a trigger can be met.\<close>

definition usable :: "FaultRule \<Rightarrow> bool" where
  "usable r \<longleftrightarrow> Syscall r \<noteq> [] \<and> (Probability r = NaN \<or> fle (Fin 0) (Probability r) \<and> fle (Probability r) (Fin 1)) \<and>
    (Action r = ActionDeny \<and> Errno r \<in> snd ` set errnoMap \<or> Action r = ActionDelay \<and> 0 \<le> Delay r \<and> PathGlob r = []) \<and>
    (Trigger r = TriggerNth \<and> 1 \<le> TriggerN r \<or> Trigger r = TriggerAfter \<and> 0 \<le> TriggerN r \<or>
     Trigger r = TriggerAlways \<and> TriggerN r = 0) \<and>
    counter r = None \<and> probCounter r = None"

lemma parseTrigger_range:
  "parseTriggerFromSegments raw segs = Inr (t, n) \<Longrightarrow>
    t = TriggerNth \<and> 1 \<le> n \<or> t = TriggerAfter \<and> 0 \<le> n \<or> t = TriggerAlways \<and> n = 0"
  by (induction raw segs rule: parseTriggerFromSegments.induct) (auto simp: Let_def split: if_splits sum.splits)

lemma parse_prob_range:
  "parse_prob N raw seg = Inr p \<Longrightarrow> p = NaN \<or> fle (Fin 0) p \<and> fle p (Fin 1)"
  by (cases p) (auto simp: parse_prob_def Let_def fle_def split: sum.splits if_splits)

lemma errnoByName_known: "errnoByName n = Some e \<Longrightarrow> e \<in> snd ` set errnoMap"
  unfolding errnoByName_def by (drule map_of_SomeD) force

lemma parseDelayRule_usable: "parseDelayRule N raw sys segs = Inr r \<Longrightarrow> sys \<noteq> [] \<Longrightarrow> usable r"
  by (auto simp: parseDelayRule_def Let_def usable_def zero_rule_def split: if_splits sum.splits
      dest: parse_prob_range parseTrigger_range)

lemma parseDenyRule_usable: "parseDenyRule N raw sys segs = Inr r \<Longrightarrow> sys \<noteq> [] \<Longrightarrow> usable r"
  by (auto simp: parseDenyRule_def Let_def usable_def zero_rule_def split: option.splits sum.splits prod.splits
      dest: parse_prob_range parseTrigger_range errnoByName_known)


section \<open>Printed rules are read back\<close>

lemma split_n_free: "c \<notin> set x \<Longrightarrow> split_n (Suc n) c x = [x]"
  by (cases n) auto

lemma split_n_append: "c \<notin> set x \<Longrightarrow> split_n (Suc (Suc n)) c (x @ c # s) = x # split_n (Suc n) c s"
  by (auto simp: takeWhile_append dropWhile_append takeWhile_eq_all_conv [THEN iffD2])

lemma split_n_join:
  "xs \<noteq> [] \<Longrightarrow> length xs \<le> n \<Longrightarrow> (\<And>x. x \<in> set xs \<Longrightarrow> c \<notin> set x) \<Longrightarrow> split_n n c (join [c] xs) = xs"
proof (induction "[c]" xs arbitrary: n rule: join.induct)
  case (2 x)
  then show ?case by (cases n) (simp_all add: split_n_free)
next
  case (3 x y xs)
  then obtain m where n: "n = Suc (Suc m)" by (cases n; cases "n - 1") auto
  have "split_n (Suc m) c (join [c] (y # xs)) = y # xs" using 3 n by auto
  moreover have "c \<notin> set x" using 3 by simp
  ultimately show ?case by (simp add: n split_n_append del: split_n.simps)
qed simp

lemma trim_space_id:
  assumes "s = [] \<or> \<not> is_space (hd s) \<and> \<not> is_space (last s)"
  shows "trim_space s = s"
proof (cases "s = []")
  case False
  then have "dropWhile is_space s = s" "dropWhile is_space (rev s) = rev s"
    using assms by (auto simp: dropWhile_eq_self_iff hd_rev)
  then show ?thesis by (simp add: trim_space_def)
qed (simp add: trim_space_def)

lemma trim_space_ends:
  assumes "trim_space s = s" "s \<noteq> []"
  shows "\<not> is_space (hd s)"
proof -
  define t where "t = dropWhile is_space s"
  have l: "length (trim_space s) \<le> length t" unfolding trim_space_def t_def
    by (metis length_dropWhile_le length_rev)
  have "length t \<le> length s" by (simp add: t_def length_dropWhile_le)
  with l assms(1) have "length t = length s" by simp
  then have "t = s" unfolding t_def
    by (metis append_eq_conv_conj length_append add_cancel_left_left length_0_conv takeWhile_dropWhile_id self_append_conv2)
  then show ?thesis using assms(2) unfolding t_def by (metis hd_dropWhile)
qed

lemma digits_not_space: "is_digit c \<Longrightarrow> \<not> is_space c"
  by (auto simp: is_digit_def is_space_def)

lemma letters_not_space: "\<not> is_space CHR ''s''" "\<not> is_space CHR ''n''" "\<not> is_space CHR ''a''" "\<not> is_space CHR ''%''"
  by (simp_all add: is_space_def)

lemma last_show_nat: "is_digit (last (show_nat n))" "is_digit (hd (show_nat n))"
  using show_nat_digits [of n] by simp_all

lemma show_nat_plain: "CHR '':'' \<notin> set (show_nat n)" "CHR ''%'' \<notin> set (show_nat n)"
  using show_nat_digits [of n] by (auto simp: is_digit_def)

text \<open>The trigger of a rule as a segment.\<close>

definition trigger_segments :: "FaultTrigger \<Rightarrow> int \<Rightarrow> string list" where
  "trigger_segments t n =
    (case t of TriggerNth \<Rightarrow> [''nth='' @ show_int n] | TriggerAfter \<Rightarrow> [''after='' @ show_int n] | TriggerAlways \<Rightarrow> [])"

definition trigger_ok :: "FaultTrigger \<Rightarrow> int \<Rightarrow> bool" where
  "trigger_ok t n \<longleftrightarrow> n < 2 ^ 63 \<and>
    (case t of TriggerNth \<Rightarrow> 1 \<le> n | TriggerAfter \<Rightarrow> 0 \<le> n | TriggerAlways \<Rightarrow> n = 0)"

lemma atoi_show_int: "0 \<le> n \<Longrightarrow> n < 2 ^ 63 \<Longrightarrow> atoi (show_int n) = Inr n"
  using atoi_show_nat [of "nat n"] by (simp add: show_int_def)

lemma trigger_trim: "s \<in> set (trigger_segments t n) \<Longrightarrow> 0 \<le> n \<Longrightarrow> trim_space s = s"
  by (rule trim_space_id)
    (auto simp: trigger_segments_def show_int_def digits_not_space last_show_nat letters_not_space split: FaultTrigger.splits)

lemma trigger_is_trigger: "s \<in> set (trigger_segments t n) \<Longrightarrow> isTriggerSegment s \<and> s \<noteq> []"
  by (auto simp: trigger_segments_def isTriggerSegment_def has_prefix_def split: FaultTrigger.splits)

lemma trigger_plain: "s \<in> set (trigger_segments t n) \<Longrightarrow> 0 \<le> n \<Longrightarrow> CHR '':'' \<notin> set s"
  by (auto simp: trigger_segments_def show_int_def show_nat_plain split: FaultTrigger.splits)

lemma trigger_nonneg: "trigger_ok t n \<Longrightarrow> 0 \<le> n"
  by (auto simp: trigger_ok_def split: FaultTrigger.splits)

lemma trigger_roundtrip:
  assumes "trigger_ok t n"
  shows "parseTriggerFromSegments raw (trigger_segments t n) = Inr (t, n)"
proof -
  have a: "atoi (show_int n) = Inr n" "0 \<le> n" using assms trigger_nonneg [OF assms] by (simp_all add: trigger_ok_def atoi_show_int)
  have tr: "trim_space (''nth='' @ show_int n) = ''nth='' @ show_int n" "trim_space (''after='' @ show_int n) = ''after='' @ show_int n"
    using trigger_trim [of _ TriggerNth n] trigger_trim [of _ TriggerAfter n] a(2) by (simp_all add: trigger_segments_def)
  have "\<not> has_prefix (''after='' @ show_int n) ''nth=''" by (simp add: has_prefix_def)
  with assms a tr show ?thesis
    by (cases t) (simp_all add: trigger_segments_def trigger_ok_def trim_prefix_def has_prefix_def)
qed


text \<open>A field that can stand between colons.\<close>

definition plain :: "string \<Rightarrow> bool" where
  "plain x \<longleftrightarrow> trim_space x = x \<and> CHR '':'' \<notin> set x"

lemma parse_shape:
  assumes "CHR ''='' \<notin> set sys" "trim_space sys = sys" "sys \<noteq> []"
    and "2 \<le> length segs" "length segs \<le> 5" "\<And>x. x \<in> set segs \<Longrightarrow> CHR '':'' \<notin> set x"
    and raw: "raw = sys @ CHR ''='' # join '':'' segs"
  shows "ParseFaultRule N raw =
    (if to_lower (trim_space (segs ! 0)) = ''delay'' then parseDelayRule N raw sys (drop 1 segs)
     else parseDenyRule N raw sys segs)"
proof -
  have "split_n 2 CHR ''='' raw = [sys, join '':'' segs]"
    using split_n_append [OF assms(1), of 0] by (simp add: raw numeral_2_eq_2 del: split_n.simps(3))
  moreover have "split_n 5 CHR '':'' (join '':'' segs) = segs"
    using assms(4-6) by (intro split_n_join) auto
  ultimately show ?thesis using assms(2-4) by (simp add: ParseFaultRule_def)
qed

lemma join_append: "xs \<noteq> [] \<Longrightarrow> ys \<noteq> [] \<Longrightarrow> join sep (xs @ ys) = join sep xs @ sep @ join sep ys"
proof (induction sep xs rule: join.induct)
  case (2 sep x)
  then show ?case by (cases ys) auto
qed auto

lemma deny_segments_triggers:
  "(\<And>s. s \<in> set xs \<Longrightarrow> trim_space s = s \<and> isTriggerSegment s) \<Longrightarrow> deny_segments xs x trigs = (x, trigs @ xs)"
  by (induction xs arbitrary: trigs) auto

lemma deny_segments_of:
  assumes "trim_space pg = pg" "\<not> isTriggerSegment pg" "0 \<le> n"
  shows "deny_segments ((if pg = [] then [] else [pg]) @ trigger_segments t n) [] [] = (pg, trigger_segments t n)"
proof -
  have "deny_segments (trigger_segments t n) x [] = (x, trigger_segments t n)" for x
    using trigger_trim [OF _ assms(3)] trigger_is_trigger by (subst deny_segments_triggers) auto
  with assms show ?thesis by (simp add: Let_def)
qed

text \<open>The segments of a denial and of a delay, read back.\<close>

lemma parse_deny_segments:
  assumes "errnoByName e = Some en" "trim_space e = e" "parse_prob N raw p = Inr q"
    and "trim_space pg = pg" "\<not> isTriggerSegment pg" "trigger_ok t n"
  shows "parseDenyRule N raw sys ([e, p] @ (if pg = [] then [] else [pg]) @ trigger_segments t n) =
    Inr (zero_rule\<lparr>Syscall := sys, Action := ActionDeny, Errno := en, Probability := q, PathGlob := pg, Trigger := t, TriggerN := n\<rparr>)"
  using assms deny_segments_of [OF assms(4,5) trigger_nonneg [OF assms(6)], of t] trigger_roundtrip [OF assms(6)]
  by (simp add: parseDenyRule_def)

lemma parse_delay_segments:
  assumes "ParseDuration N d = Inr dn" "0 \<le> dn" "trim_space d = d" "parse_prob N raw p = Inr q" "trigger_ok t n"
  shows "parseDelayRule N raw sys ([d, p] @ trigger_segments t n) =
    Inr (zero_rule\<lparr>Syscall := sys, Action := ActionDelay, Delay := dn, Probability := q, Trigger := t, TriggerN := n\<rparr>)"
  using assms trigger_roundtrip [OF assms(5)] by (simp add: parseDelayRule_def)

lemma errno_not_delay: "errnoByName e = Some en \<Longrightarrow> to_lower e \<noteq> ''delay''"
proof
  assume e: "errnoByName e = Some en" and d: "to_lower e = ''delay''"
  have "upper_char (lower_char c) = upper_char c" for c
  proof (cases "65 \<le> (of_char c :: nat) \<and> of_char c \<le> (90::nat)")
    case True
    then have "of_char (lower_char c) = (of_char c + 32 :: nat)" by (simp add: lower_char_def)
    with True show ?thesis by (simp add: upper_char_def)
  qed (auto simp: lower_char_def)
  then have "to_upper e = to_upper (to_lower e)" by (simp add: to_upper_def to_lower_def)
  moreover have "to_upper ''delay'' = ''DELAY''" by code_simp
  ultimately have "to_upper e = ''DELAY''" using d by simp
  with e show False by (simp add: errnoByName_def errnoMap_def)
qed

lemma errno_names_plain: "(e, v) \<in> set errnoMap \<Longrightarrow> plain e \<and> errnoByName e = Some v"
proof -
  have "list_all (\<lambda>(e, v). plain e \<and> errnoByName e = Some v) errnoMap"
    unfolding plain_def by code_simp
  then show "(e, v) \<in> set errnoMap \<Longrightarrow> plain e \<and> errnoByName e = Some v" by (auto simp: list_all_iff)
qed


text \<open>What the conversions promise: whole percentages survive the multiplication and the printing, stay within the
range of a probability, and a printed duration is read back and holds no colon.\<close>

definition percent_exact :: "numerics \<Rightarrow> nat \<Rightarrow> bool" where
  "percent_exact N k \<longleftrightarrow> fmt0 N (mul100 N (rounded N (of_nat k / 100))) = show_nat k \<and>
    ParseFloat N (show_nat k) = Inr (Fin (of_nat k)) \<and>
    fle (Fin 0) (rounded N (of_nat k / 100)) \<and> fle (rounded N (of_nat k / 100)) (Fin 1)"

definition conversions_exact :: "numerics \<Rightarrow> bool" where
  "conversions_exact N \<longleftrightarrow> (\<forall>k\<le>100. percent_exact N k) \<and>
    (\<forall>d. 0 \<le> d \<longrightarrow> d < 2 ^ 63 \<longrightarrow> ParseDuration N (DurationString N d) = Inr d \<and> plain (DurationString N d))"

lemma trim_percent: "trim_space (show_nat k @ ''%'') = show_nat k @ ''%''"
  by (rule trim_space_id) (simp add: hd_append digits_not_space last_show_nat letters_not_space)

lemma parse_percent:
  assumes "percent_exact N k"
  shows "parse_prob N raw (show_nat k @ ''%'') = Inr (rounded N (of_nat k / 100))"
proof -
  have "trim_suffix (show_nat k @ ''%'') ''%'' = show_nat k" by (simp add: trim_suffix_def has_suffix_def)
  with assms show ?thesis
    by (cases "rounded N (of_nat k / 100)") (auto simp: parse_prob_def trim_percent percent_exact_def div100_def fle_def)
qed

text \<open>The rules that have a textual form: a whole percentage, and nothing but the fields the text can carry.\<close>

definition textual :: "numerics \<Rightarrow> nat \<Rightarrow> FaultRule \<Rightarrow> bool" where
  "textual N k r \<longleftrightarrow> usable r \<and> k \<le> 100 \<and> Probability r = rounded N (of_nat k / 100) \<and>
    trim_space (Syscall r) = Syscall r \<and> CHR ''='' \<notin> set (Syscall r) \<and> Delay r < 2 ^ 63 \<and> TriggerN r < 2 ^ 63 \<and>
    plain (PathGlob r) \<and> \<not> isTriggerSegment (PathGlob r) \<and>
    r = zero_rule\<lparr>Syscall := Syscall r, Action := Action r, Errno := (if Action r = ActionDelay then 0 else Errno r),
      Delay := (if Action r = ActionDelay then Delay r else 0), Probability := Probability r, PathGlob := PathGlob r,
      Trigger := Trigger r, TriggerN := TriggerN r\<rparr>"

text \<open>The segments after the equals sign.\<close>

definition rule_segments :: "numerics \<Rightarrow> (string \<times> int) list \<Rightarrow> nat \<Rightarrow> FaultRule \<Rightarrow> string list" where
  "rule_segments N ord k r =
    (if Action r = ActionDelay then [''delay'', DurationString N (Delay r), show_nat k @ ''%'']
     else [errnoName_in ord (Errno r), show_nat k @ ''%''] @ (if PathGlob r = [] then [] else [PathGlob r])) @
    trigger_segments (Trigger r) (TriggerN r)"

lemma trigger_suffix_join: "xs \<noteq> [] \<Longrightarrow> join '':'' xs @ trigger_suffix r = join '':'' (xs @ trigger_segments (Trigger r) (TriggerN r))"
  by (cases "Trigger r") (simp_all add: trigger_suffix_def trigger_segments_def join_append)

lemma rule_String_shape:
  assumes "conversions_exact N" "textual N k r"
  shows "rule_String N ord r = Syscall r @ CHR ''='' # join '':'' (rule_segments N ord k r)"
proof -
  have f: "fmt0 N (mul100 N (Probability r)) = show_nat k"
    using assms by (auto simp: conversions_exact_def percent_exact_def textual_def)
  have "Action r = ActionDeny \<or> Action r = ActionDelay" using assms by (auto simp: textual_def usable_def)
  then show ?thesis
    using trigger_suffix_join [of "[''delay'', DurationString N (Delay r), show_nat k @ ''%'']" r]
      trigger_suffix_join [of "[errnoName_in ord (Errno r), show_nat k @ ''%''] @ (if PathGlob r = [] then [] else [PathGlob r])" r]
    by (auto simp: rule_String_def rule_segments_def f)
qed

lemma textual_delay:
  "textual N k r \<Longrightarrow> Action r = ActionDelay \<Longrightarrow>
    zero_rule\<lparr>Syscall := Syscall r, Action := ActionDelay, Delay := Delay r, Probability := Probability r,
      Trigger := Trigger r, TriggerN := TriggerN r\<rparr> = r"
  by (cases r) (simp add: textual_def zero_rule_def usable_def)

lemma textual_deny:
  "textual N k r \<Longrightarrow> Action r = ActionDeny \<Longrightarrow>
    zero_rule\<lparr>Syscall := Syscall r, Action := ActionDeny, Errno := Errno r, Probability := Probability r,
      PathGlob := PathGlob r, Trigger := Trigger r, TriggerN := TriggerN r\<rparr> = r"
  by (cases r) (simp add: textual_def zero_rule_def)

lemma textual_trigger: "textual N k r \<Longrightarrow> trigger_ok (Trigger r) (TriggerN r)"
  by (auto simp: textual_def usable_def trigger_ok_def)

lemma textual_errno:
  assumes "textual N k r" "Action r \<noteq> ActionDelay" "mset ord = mset errnoMap"
  shows "errnoByName (errnoName_in ord (Errno r)) = Some (Errno r)" "plain (errnoName_in ord (Errno r))"
proof -
  obtain n where n: "(n, Errno r) \<in> set errnoMap" using assms(1,2) by (auto simp: textual_def usable_def)
  note E = errnoName_roundtrip [OF assms(3), of n "Errno r"] errno_names_plain [OF n]
  show e: "errnoByName (errnoName_in ord (Errno r)) = Some (Errno r)" using E by blast
  have "to_upper n = n"
    using n by (auto simp: errnoMap_def to_upper_def upper_char_def)
  then show "plain (errnoName_in ord (Errno r))" using E by metis
qed

text \<open>C26. A rule that has a textual form is read back from its printed form exactly as it was, in whatever order the
errno table is visited.\<close>

theorem fault_rule_roundtrip:
  assumes exact: "conversions_exact N" and r: "textual N k r" and ord: "mset ord = mset errnoMap"
  shows "ParseFaultRule N (rule_String N ord r) = Inr r"
proof -
  let ?raw = "rule_String N ord r" and ?segs = "rule_segments N ord k r" and ?p = "show_nat k @ ''%''"
  note t = textual_trigger [OF r]
  have p: "parse_prob N ?raw ?p = Inr (Probability r)"
    using exact r parse_percent [of N k ?raw] by (auto simp: conversions_exact_def textual_def)
  have plains: "CHR '':'' \<notin> set x" if "x \<in> set (trigger_segments (Trigger r) (TriggerN r))" for x
    using trigger_plain [OF that trigger_nonneg [OF t]] .
  have len: "length (trigger_segments (Trigger r) (TriggerN r)) \<le> 1"
    by (cases "Trigger r") (simp_all add: trigger_segments_def)
  have sys: "CHR ''='' \<notin> set (Syscall r)" "trim_space (Syscall r) = Syscall r" "Syscall r \<noteq> []"
    using r by (simp_all add: textual_def usable_def)
  note S = parse_shape [OF sys _ _ _ rule_String_shape [OF exact r, of ord], of N]
  show ?thesis
  proof (cases "Action r = ActionDelay")
    case True
    then have d: "0 \<le> Delay r" "Delay r < 2 ^ 63" "PathGlob r = []" using r by (auto simp: textual_def usable_def)
    then have dur: "ParseDuration N (DurationString N (Delay r)) = Inr (Delay r)" "plain (DurationString N (Delay r))"
      using exact by (auto simp: conversions_exact_def)
    have segs: "?segs = ''delay'' # [DurationString N (Delay r), ?p] @ trigger_segments (Trigger r) (TriggerN r)"
      using True by (simp add: rule_segments_def)
    have "ParseFaultRule N ?raw = parseDelayRule N ?raw (Syscall r) (drop 1 ?segs)"
    proof -
      have "trim_space ''delay'' = ''delay''" "to_lower ''delay'' = ''delay''" by code_simp+
      moreover have "CHR '':'' \<notin> set x" if "x \<in> set ?segs" for x
        using that dur(2) plains by (auto simp: segs plain_def show_nat_plain)
      ultimately show ?thesis using S len by (simp add: segs)
    qed
    also have "\<dots> = parseDelayRule N ?raw (Syscall r) ([DurationString N (Delay r), ?p] @ trigger_segments (Trigger r) (TriggerN r))"
      by (simp add: segs)
    finally show ?thesis
      using parse_delay_segments [OF dur(1) d(1) _ p t, of "Syscall r"] dur(2) textual_delay [OF r True]
      by (simp add: plain_def)
  next
    case False
    note e = textual_errno [OF r False ord]
    have segs: "?segs = [errnoName_in ord (Errno r), ?p] @ (if PathGlob r = [] then [] else [PathGlob r]) @
        trigger_segments (Trigger r) (TriggerN r)"
      using False by (simp add: rule_segments_def)
    have pg: "trim_space (PathGlob r) = PathGlob r" "\<not> isTriggerSegment (PathGlob r)" "CHR '':'' \<notin> set (PathGlob r)"
      using r by (auto simp: textual_def plain_def)
    have "CHR '':'' \<notin> set x" if "x \<in> set ?segs" for x
      using that e(2) pg plains by (auto simp: segs plain_def show_nat_plain split: if_splits)
    then have "ParseFaultRule N ?raw = parseDenyRule N ?raw (Syscall r) ?segs"
      using S len e(2) errno_not_delay [OF e(1)] by (simp add: segs plain_def split: if_splits)
    moreover have "Action r = ActionDeny" using r False by (auto simp: textual_def usable_def)
    ultimately show ?thesis
      using parse_deny_segments [OF e(1) _ p pg(1,2) t, of "Syscall r"] e(2) textual_deny [OF r] by (simp add: segs plain_def)
  qed
qed

text \<open>Conversions that are exact: whole nanoseconds, whole numbers, no rounding.\<close>

definition whole :: numerics where
  "whole = \<lparr>ParseDuration = (\<lambda>s. if has_suffix s ''ns'' then atoi (trim_suffix s ''ns'') else Inl ''missing unit''),
     ParseFloat = (\<lambda>s. case atoi s of Inl e \<Rightarrow> Inl e | Inr n \<Rightarrow> Inr (Fin (of_int n))),
     DurationString = (\<lambda>d. show_int d @ ''ns''),
     fmt0 = (\<lambda>x. case x of Fin q \<Rightarrow> show_int (round q) | _ \<Rightarrow> []), rounded = Fin\<rparr>"

lemma whole_exact: "conversions_exact whole"
proof -
  have "percent_exact whole k" if "k \<le> 100" for k
  proof -
    have "round (of_nat k :: rat) = int k" by simp
    with that show ?thesis by (simp add: percent_exact_def whole_def mul100_def show_int_def atoi_show_nat fle_def) linarith
  qed
  moreover have "ParseDuration whole (DurationString whole d) = Inr d \<and> plain (DurationString whole d)"
    if "0 \<le> d" "d < 2 ^ 63" for d
  proof -
    have "trim_space (show_nat (nat d) @ ''ns'') = show_nat (nat d) @ ''ns''"
      by (rule trim_space_id) (simp add: hd_append digits_not_space last_show_nat letters_not_space)
    with that show ?thesis
      using atoi_show_int [OF that]
      by (simp add: whole_def has_suffix_def trim_suffix_def plain_def show_int_def show_nat_plain)
  qed
  ultimately show ?thesis by (simp add: conversions_exact_def)
qed

definition third_open :: FaultRule where
  "third_open = zero_rule\<lparr>Syscall := ''openat'', Errno := 2, Probability := Fin (1 / 2), PathGlob := ''/data/*'',
     Trigger := TriggerNth, TriggerN := 3\<rparr>"

lemma third_open_text: "rule_String whole errnoMap third_open = ''openat=ENOENT:50%:/data/*:nth=3''"
proof -
  have "show_nat 50 = ''50''" "show_nat 3 = ''3''" by code_simp+
  moreover have "round (50 :: rat) = 50" by simp
  ultimately show ?thesis
    by (simp add: rule_String_def third_open_def zero_rule_def whole_def mul100_def errnoName_in_def errnoMap_def
        trigger_suffix_def show_int_def)
qed

lemma third_open_textual: "textual whole 50 third_open"
proof -
  have p: "plain ''/data/*'' \<and> trim_space ''openat'' = ''openat''" unfolding plain_def by code_simp
  show ?thesis using p
    by (simp add: textual_def usable_def third_open_def zero_rule_def whole_def errnoMap_def fle_def isTriggerSegment_def has_prefix_def)
qed

theorem fault_rule_roundtrip_witness:
  "conversions_exact whole \<and> ParseFaultRule whole ''openat=ENOENT:50%:/data/*:nth=3'' = Inr third_open"
  using fault_rule_roundtrip [OF whole_exact third_open_textual, of errnoMap] whole_exact third_open_text by simp


section \<open>Rule strings of a specification\<close>

text \<open>An object of a specification whose fields hold no colon is read as the rule it describes.\<close>

definition trigger_named :: "TriggerSpec option \<Rightarrow> FaultTrigger \<Rightarrow> int \<Rightarrow> bool" where
  "trigger_named ts t n \<longleftrightarrow> trigger_ok t n \<and>
    ts = (case t of TriggerAlways \<Rightarrow> None | TriggerNth \<Rightarrow> Some \<lparr>TrigType = ''nth'', TrigN = n\<rparr>
      | TriggerAfter \<Rightarrow> Some \<lparr>TrigType = ''after'', TrigN = n\<rparr>)"

lemma spec_deny_read:
  assumes "Raw f = []" "specAction f \<noteq> ''delay''" "specErrno f = e" "e \<noteq> []"
    and "CHR ''='' \<notin> set (specSyscall f)" "trim_space (specSyscall f) = specSyscall f" "specSyscall f \<noteq> []"
    and "errnoByName e = Some en" "plain e" "plain (specProbability f)"
    and p: "parse_prob N (ToRuleString f) (specProbability f) = Inr q"
    and pg: "plain (specPathGlob f)" "\<not> isTriggerSegment (specPathGlob f)"
    and t: "trigger_named (specTrigger f) t n"
  shows "ParseFaultRule N (ToRuleString f) =
    Inr (zero_rule\<lparr>Syscall := specSyscall f, Action := ActionDeny, Errno := en, Probability := q,
      PathGlob := specPathGlob f, Trigger := t, TriggerN := n\<rparr>)"
proof -
  let ?segs = "[e, specProbability f] @ (if specPathGlob f = [] then [] else [specPathGlob f]) @ trigger_segments t n"
  have ok: "trigger_ok t n" using t by (simp add: trigger_named_def)
  have "ToRuleString f = specSyscall f @ CHR ''='' # join '':'' ?segs"
    using assms(1-4) t
    by (cases t) (auto simp: ToRuleString_def trigger_named_def trigger_segments_def)
  moreover have "CHR '':'' \<notin> set x" if "x \<in> set ?segs" for x
    using that assms(9,10) pg trigger_plain [OF _ trigger_nonneg [OF ok]] by (auto simp: plain_def split: if_splits)
  moreover have "length (trigger_segments t n) \<le> 1" by (cases t) (simp_all add: trigger_segments_def)
  ultimately have "ParseFaultRule N (ToRuleString f) = parseDenyRule N (ToRuleString f) (specSyscall f) ?segs"
    using parse_shape [OF assms(5-7), of ?segs "ToRuleString f" N] assms(9) errno_not_delay [OF assms(8)]
    by (auto simp: plain_def split: if_splits)
  then show ?thesis
    using parse_deny_segments [OF assms(8) _ p _ pg(2) ok, of "specSyscall f"] assms(9) pg(1) by (simp add: plain_def)
qed

text \<open>A colon in the path pattern is taken for a separator, and the pattern becomes what follows it; the probability
is always a percentage; and the object form of a delay loses its path.\<close>

lemma colon_path_truncated:
  "map_sum id PathGlob (ParseFaultRule whole ''openat=ENOENT:100%:/data/a:b'') = Inr ''b''"
  by code_simp

lemma probability_is_percentage:
  "ParseFloat N ''0.5'' = Inr (Fin (1 / 2)) \<Longrightarrow> rounded N (1 / 200) = Fin (1 / 200) \<Longrightarrow>
    parse_prob N raw ''0.5'' = Inr (Fin (1 / 200))"
proof -
  have "trim_suffix (trim_space ''0.5'') ''%'' = ''0.5''" by code_simp
  then show "ParseFloat N ''0.5'' = Inr (Fin (1 / 2)) \<Longrightarrow> rounded N (1 / 200) = Fin (1 / 200) \<Longrightarrow> ?thesis"
    by (simp add: parse_prob_def div100_def)
qed

lemma delay_loses_path:
  "specAction f = ''delay'' \<Longrightarrow> ToRuleString (f\<lparr>specPathGlob := pg\<rparr>) = ToRuleString f"
  by (simp add: ToRuleString_def)

end
