(* ===== verification/Spec_Scan.thy ===== *)
theory Spec_Scan
  imports Rule_Syntax
begin

text \<open>Which syscalls a service has to be filtered for: the scan of the specification text in
\<^verbatim>\<open>internal/star/spec_statements.go\<close> and \<^verbatim>\<open>internal/star/runtime.go\<close>. The filter is built once, when the service starts,
from what this scan finds.

Shown: the statements the scan looks at do not depend on blanks, comments or line breaks inside brackets; a fault
call whose target and keyword are written out is always found, together with every syscall its keyword expands to;
a call of \<^verbatim>\<open>fault_all\<close> is not found.\<close>

section \<open>Statements\<close>

fun strip_comment :: "char option \<Rightarrow> string \<Rightarrow> string" where
  "strip_comment q [] = []"
| "strip_comment (Some c) (r # rs) = r # strip_comment (if r = c then None else Some c) rs"
| "strip_comment None (r # rs) =
    (if r = CHR 0x22 \<or> r = CHR 0x27 then r # strip_comment (Some r) rs
     else if r = CHR ''#'' then [] else r # strip_comment None rs)"

definition stripComment :: "string \<Rightarrow> string" where
  "stripComment line = strip_comment None line"

definition depth_step :: "char \<Rightarrow> nat \<Rightarrow> nat" where
  "depth_step r depth =
    (if r \<in> {CHR ''('', CHR ''['', CHR ''{''} then depth + 1
     else if r \<in> {CHR '')'', CHR '']'', CHR ''}''} then depth - 1 else depth)"

definition blank :: "char \<Rightarrow> bool" where
  "blank r \<longleftrightarrow> r = CHR '' '' \<or> r = CHR 0x09 \<or> r = CHR 0x0D"

fun fold_chars :: "string \<Rightarrow> nat \<Rightarrow> string \<Rightarrow> nat \<times> string" where
  "fold_chars [] depth cur = (depth, cur)"
| "fold_chars (r # rs) depth cur = fold_chars rs (depth_step r depth) (if blank r then cur else cur @ [r])"

definition flush :: "string \<Rightarrow> string list \<Rightarrow> string list" where
  "flush cur out = (if cur \<noteq> [] then out @ [cur] else out)"

fun fold_lines :: "string list \<Rightarrow> nat \<Rightarrow> string \<Rightarrow> string list \<Rightarrow> string list" where
  "fold_lines [] depth cur out = flush cur out"
| "fold_lines (line # ls) depth cur out =
    (let (depth', cur') = fold_chars (stripComment line) depth cur in
     if depth' = 0 then fold_lines ls 0 [] (flush cur' out) else fold_lines ls depth' cur' out)"

definition specStatements :: "string \<Rightarrow> string list" where
  "specStatements src = fold_lines (split_on CHR 0x0A src) 0 [] []"

section \<open>Syscalls\<close>

definition expandSyscallFamily :: "string \<Rightarrow> string list" where
  "expandSyscallFamily name =
    (if name = ''write'' then [''write'', ''writev'', ''pwrite64'']
     else if name = ''read'' then [''read'', ''readv'', ''pread64'']
     else if name = ''open'' then [''open'', ''openat'']
     else if name = ''fsync'' then [''fsync'', ''fdatasync'']
     else if name = ''sendto'' then [''sendto'', ''sendmsg'']
     else if name = ''recvfrom'' then [''recvfrom'', ''recvmsg'']
     else [name])"

definition faultableSyscalls :: "string list" where
  "faultableSyscalls = [''write'', ''read'', ''connect'', ''openat'', ''fsync'', ''sendto'', ''recvfrom'', ''writev'',
     ''readv'', ''close'', ''pwrite64'', ''pread64'', ''fdatasync'', ''sendmsg'', ''recvmsg'']"

definition isFaultableSyscall :: "string \<Rightarrow> bool" where
  "isFaultableSyscall name = list_ex (\<lambda>sc. sc = name) faultableSyscalls"

record OpDef =
  OpSyscalls :: "string list"
  OpPath :: string

text \<open>What the scan reads: the source, the global variables that hold services, the services with their named
operations, the settings, and the targets and syscalls of the rules of all fault assumptions. Maps are listed in
the order in which they are visited.\<close>

record spec =
  sourceText :: string
  serviceVars :: "(string \<times> string) list"
  serviceOps :: "(string \<times> (string \<times> OpDef) list) list"
  virtualTime :: bool
  spLevel :: string
  spExplicit :: bool
  assumedRules :: "(string option \<times> string) list"

definition fault_keyword :: "string \<Rightarrow> string \<Rightarrow> bool" where
  "fault_keyword line key = (str_contains line (key @ ''=deny('') \<or> str_contains line (key @ ''=delay('') \<or>
     str_contains line (key @ ''=allow(''))"

definition quoted_in :: "string \<Rightarrow> string \<Rightarrow> bool" where
  "quoted_in line sc = (str_contains line ([CHR 0x22] @ sc @ [CHR 0x22]) \<or> str_contains line ([CHR 0x27] @ sc @ [CHR 0x27]))"

definition time_syscalls :: "bool \<Rightarrow> string list" where
  "time_syscalls vt = (if vt then [''nanosleep'', ''clock_nanosleep'', ''clock_gettime''] else [])"

text \<open>The keys of the map \<open>found\<close>, sorted, after the families were expanded.\<close>

definition expand_found :: "string list \<Rightarrow> string list" where
  "expand_found found =
    found @ concat (map (\<lambda>sc. if sc \<in> set found then expandSyscallFamily sc else [])
      [''write'', ''read'', ''open'', ''fsync'', ''sendto'', ''recvfrom''])"

definition requiredSyscalls :: "spec \<Rightarrow> string list" where
  "requiredSyscalls sp =
    (let src = join [CHR 0x0A] (specStatements (sourceText sp));
         traced = str_contains src ''trace('' \<or> str_contains src ''trace_start('';
         found = filter (\<lambda>sc. fault_keyword src sc \<or> traced \<and> quoted_in src sc) faultableSyscalls @ time_syscalls (virtualTime sp)
     in sort (remdups (expand_found found)))"

definition serviceVarMap :: "spec \<Rightarrow> (string \<times> string) list" where
  "serviceVarMap sp =
    serviceVars sp @ map (\<lambda>n. (n, n)) (filter (\<lambda>n. n \<notin> fst ` set (serviceVars sp)) (map fst (serviceOps sp)))"

definition line_syscalls :: "spec \<Rightarrow> string \<Rightarrow> string \<Rightarrow> string \<Rightarrow> string list" where
  "line_syscalls sp svcName varName line =
    (let trimmed = trim_space line in
     (if str_contains trimmed (''fault('' @ varName @ '','') \<or> str_contains trimmed (''fault_start('' @ varName @ '','')
      then filter (fault_keyword trimmed) faultableSyscalls @
        (case map_of (serviceOps sp) svcName of
           None \<Rightarrow> []
         | Some ops \<Rightarrow> concat (map (\<lambda>(opName, opDef). if fault_keyword trimmed opName then OpSyscalls opDef else []) ops))
      else []) @
     (if str_contains trimmed (''trace('' @ varName @ '','') \<or> str_contains trimmed (''trace_start('' @ varName @ '','')
      then filter (quoted_in trimmed) faultableSyscalls else []))"

definition found_for :: "spec \<Rightarrow> string \<Rightarrow> string list" where
  "found_for sp svcName =
    (let varNames = map fst (filter (\<lambda>(v, name). name = svcName) (serviceVarMap sp));
         scanned = concat (map (\<lambda>v. concat (map (line_syscalls sp svcName v) (specStatements (sourceText sp)))) varNames) @
           time_syscalls (virtualTime sp);
         mediated = (if spLevel sp = ''L1'' \<and> spExplicit sp \<and> scanned \<noteq> [] then [''clock_gettime'', ''getrandom'', ''connect''] else []);
         assumed = map snd (filter (\<lambda>(t, sc). t = Some svcName \<and> sc \<noteq> []) (assumedRules sp))
     in scanned @ mediated @ assumed)"

definition requiredSyscallsForService :: "spec \<Rightarrow> string \<Rightarrow> string list option" where
  "requiredSyscallsForService sp svcName =
    (let found = expand_found (found_for sp svcName) in if found = [] then None else Some (sort (remdups found)))"

definition placeholder :: "string \<Rightarrow> FaultRule" where
  "placeholder sc = zero_rule\<lparr>Syscall := sc, Action := ActionDeny, Probability := Fin 0\<rparr>"

definition requiredFaultRulesForService :: "spec \<Rightarrow> string \<Rightarrow> FaultRule list option" where
  "requiredFaultRulesForService sp svcName = map_option (map placeholder) (requiredSyscallsForService sp svcName)"

definition requiredFaultRules :: "spec \<Rightarrow> FaultRule list" where
  "requiredFaultRules sp = map placeholder (requiredSyscalls sp)"

section \<open>Layout does not matter\<close>

definition depth_after :: "string \<Rightarrow> nat \<Rightarrow> nat" where
  "depth_after s d = fold depth_step s d"

text \<open>The code of a line without comment and blanks.\<close>

definition squeezed :: "string \<Rightarrow> string" where
  "squeezed line = filter (\<lambda>r. \<not> blank r) (stripComment line)"

lemma fold_chars_eq: "fold_chars s d cur = (depth_after s d, cur @ filter (\<lambda>r. \<not> blank r) s)"
  by (induction s d cur rule: fold_chars.induct) (simp_all add: depth_after_def)

lemma fold_lines_Cons:
  "fold_lines (line # ls) d cur out =
    (let d' = depth_after (stripComment line) d; cur' = cur @ squeezed line in
     if d' = 0 then fold_lines ls 0 [] (flush cur' out) else fold_lines ls d' cur' out)"
  by (simp add: fold_chars_eq squeezed_def Let_def)

declare fold_lines.simps(2) [simp del]

text \<open>One statement over several lines: a bracket stays open up to its last line.\<close>

fun one_statement :: "nat \<Rightarrow> string list \<Rightarrow> bool" where
  "one_statement d [] = False"
| "one_statement d [l] = (depth_after (stripComment l) d = 0)"
| "one_statement d (l # m # ls) =
    (depth_after (stripComment l) d \<noteq> 0 \<and> one_statement (depth_after (stripComment l) d) (m # ls))"

lemma fold_one_statement:
  "one_statement d ls \<Longrightarrow> fold_lines (ls @ rest) d cur out = fold_lines rest 0 [] (flush (cur @ concat (map squeezed ls)) out)"
proof (induction d ls arbitrary: cur rule: one_statement.induct)
  case (3 d l m ls)
  then show ?case using 3(1) [of "cur @ squeezed l"] by (simp add: fold_lines_Cons [of l] Let_def)
qed (simp_all add: fold_lines_Cons Let_def)

text \<open>Lines after which no bracket is open.\<close>

fun balanced :: "nat \<Rightarrow> string list \<Rightarrow> bool" where
  "balanced d [] = (d = 0)"
| "balanced d (l # ls) = balanced (depth_after (stripComment l) d) ls"

lemma fold_balanced:
  "balanced d pre \<Longrightarrow> d = 0 \<longrightarrow> cur = [] \<Longrightarrow> \<exists>out'. \<forall>rest. fold_lines (pre @ rest) d cur out = fold_lines rest 0 [] out'"
proof (induction pre arbitrary: d cur out)
  case Nil
  then show ?case by auto
next
  case (Cons l pre)
  let ?d = "depth_after (stripComment l) d"
  have b: "balanced ?d pre" using Cons.prems by simp
  show ?case
  proof (cases "?d = 0")
    case True
    then show ?thesis using Cons.IH [OF b, of "[]" "flush (cur @ squeezed l) out"] by (simp add: fold_lines_Cons Let_def)
  next
    case False
    then show ?thesis using Cons.IH [OF b, of "cur @ squeezed l" out] by (simp add: fold_lines_Cons Let_def)
  qed
qed

text \<open>C30. The statements the scan looks at do not depend on how a bracketed call is laid out: blanks, comments and line
breaks inside its brackets change nothing.\<close>

theorem scan_ignores_layout:
  assumes "balanced 0 pre" "one_statement 0 ls" "one_statement 0 ls'"
    and "concat (map squeezed ls) = concat (map squeezed ls')"
    and "\<And>l. l \<in> set (pre @ ls @ ls' @ post) \<Longrightarrow> CHR 0x0A \<notin> set l"
  shows "specStatements (join [CHR 0x0A] (pre @ ls @ post)) = specStatements (join [CHR 0x0A] (pre @ ls' @ post))"
proof -
  obtain out' where out: "\<And>rest. fold_lines (pre @ rest) 0 [] [] = fold_lines rest 0 [] out'"
    using fold_balanced [OF assms(1), of "[]" "[]"] by auto
  have "specStatements (join [CHR 0x0A] (pre @ xs @ post)) =
      fold_lines post 0 [] (flush (concat (map squeezed xs)) out')" if "one_statement 0 xs" "xs = ls \<or> xs = ls'" for xs
  proof -
    have "xs \<noteq> []" using that by auto
    then have "split_on CHR 0x0A (join [CHR 0x0A] (pre @ xs @ post)) = pre @ xs @ post"
      using that(2) assms(5) by (intro split_on_join) auto
    then show ?thesis using fold_one_statement [OF that(1), of post "[]" out'] out [of "xs @ post"] by (simp add: specStatements_def)
  qed
  with assms(2-4) show ?thesis by simp
qed

section \<open>What is written out is found\<close>

lemma contains_trim:
  assumes "str_contains s sub" "sub \<noteq> []" "\<not> is_space (hd sub)" "\<not> is_space (last sub)"
  shows "str_contains (trim_space s) sub"
proof -
  have front: "str_contains (dropWhile is_space t) u" if c: "str_contains t u" and n: "u \<noteq> []" "\<not> is_space (hd u)" for t u
  proof -
    from c obtain a b where t: "t = a @ u @ b" by (auto simp: str_contains_iff)
    have "dropWhile is_space (u @ b) = u @ b" using n by (cases u) auto
    then have "dropWhile is_space t = dropWhile is_space a @ u @ b \<or> dropWhile is_space t = u @ b"
      unfolding t by (induction a) auto
    then show ?thesis unfolding str_contains_iff by (metis append_Nil)
  qed
  have rev: "str_contains (rev t) (rev u)" if "str_contains t u" for t u
    using that unfolding str_contains_iff by (metis append_assoc rev_append)
  have "str_contains (rev (dropWhile is_space s)) (rev sub)" using front [OF assms(1-3)] rev by blast
  then have "str_contains (dropWhile is_space (rev (dropWhile is_space s))) (rev sub)"
    using assms(2,4) by (intro front) (simp_all add: hd_rev)
  then show ?thesis unfolding trim_space_def using rev by fastforce
qed

lemma keyword_trim:
  assumes "fault_keyword line key" "key \<noteq> []" "\<not> is_space (hd key)"
  shows "fault_keyword (trim_space line) key"
  using assms contains_trim unfolding fault_keyword_def by (auto simp: hd_append is_space_def [of "CHR ''(''"])

text \<open>The syscalls a keyword of a fault call stands for: those of the named operation, or its own.\<close>

definition keyword_syscalls :: "spec \<Rightarrow> string \<Rightarrow> string \<Rightarrow> string set" where
  "keyword_syscalls sp svcName key =
    (if isFaultableSyscall key then {key} else {}) \<union>
    (case map_of (serviceOps sp) svcName of None \<Rightarrow> {} | Some ops \<Rightarrow> \<Union> ((\<lambda>(n, d). if n = key then set (OpSyscalls d) else {}) ` set ops))"

lemma isFaultableSyscall_iff: "isFaultableSyscall n \<longleftrightarrow> n \<in> set faultableSyscalls"
  by (auto simp: isFaultableSyscall_def list_ex_iff)

lemma expand_found_mono: "set found \<subseteq> set (expand_found found)"
  by (auto simp: expand_found_def)

lemma expand_found_family: "sc \<in> set found \<Longrightarrow> x \<in> set (expandSyscallFamily sc) \<Longrightarrow> x \<in> set (expand_found found)"
  by (auto simp: expand_found_def expandSyscallFamily_def split: if_splits)

lemma required_of_found:
  assumes "sc \<in> set (found_for sp svcName)" "x \<in> set (expandSyscallFamily sc)"
  shows "\<exists>scs. requiredSyscallsForService sp svcName = Some scs \<and> x \<in> set scs"
proof -
  have "x \<in> set (expand_found (found_for sp svcName))" using expand_found_family [OF assms] .
  then show ?thesis by (auto simp: requiredSyscallsForService_def Let_def)
qed

text \<open>A statement that calls \<^verbatim>\<open>fault\<close> or \<^verbatim>\<open>fault_start\<close> on a variable with a keyword written out.\<close>

definition names_fault :: "string \<Rightarrow> string \<Rightarrow> string \<Rightarrow> bool" where
  "names_fault st varName key \<longleftrightarrow>
    (str_contains st (''fault('' @ varName @ '','') \<or> str_contains st (''fault_start('' @ varName @ '','')) \<and> fault_keyword st key"

lemma faultable_chars: "sc \<in> set faultableSyscalls \<Longrightarrow> sc \<noteq> [] \<and> \<not> is_space (hd sc)"
  by (auto simp: faultableSyscalls_def is_space_def)

lemma line_finds_keyword:
  assumes "names_fault st v key" "sc \<in> keyword_syscalls sp svcName key" "key \<noteq> []" "\<not> is_space (hd key)"
  shows "sc \<in> set (line_syscalls sp svcName v st)"
proof -
  have s: "\<not> is_space CHR '',''" "\<not> is_space CHR ''f''" by (simp_all add: is_space_def)
  have called: "str_contains (trim_space st) (''fault('' @ v @ '','') \<or> str_contains (trim_space st) (''fault_start('' @ v @ '','')"
    using assms(1) contains_trim [of st "''fault('' @ v @ '',''"] contains_trim [of st "''fault_start('' @ v @ '',''"] s
    by (auto simp: names_fault_def)
  have k: "fault_keyword (trim_space st) key" using assms by (auto simp: names_fault_def intro: keyword_trim)
  have "sc \<in> set (filter (fault_keyword (trim_space st)) faultableSyscalls @
      (case map_of (serviceOps sp) svcName of None \<Rightarrow> []
       | Some ops \<Rightarrow> concat (map (\<lambda>(opName, opDef). if fault_keyword (trim_space st) opName then OpSyscalls opDef else []) ops)))"
    using assms(2) k by (auto simp: keyword_syscalls_def isFaultableSyscall_iff split: if_splits option.splits)
  with called show ?thesis unfolding line_syscalls_def Let_def by (simp only: if_True set_append) blast
qed

text \<open>A fault call whose target and keyword are written out is found by the scan: the filter of the service will
cover every syscall the keyword expands to.\<close>

lemma visible_fault_found:
  assumes "(v, svcName) \<in> set (serviceVarMap sp)" "st \<in> set (specStatements (sourceText sp))"
    and "names_fault st v key" "key \<noteq> []" "\<not> is_space (hd key)"
    and "sc \<in> keyword_syscalls sp svcName key" "x \<in> set (expandSyscallFamily sc)"
  shows "\<exists>scs. requiredSyscallsForService sp svcName = Some scs \<and> x \<in> set scs"
proof -
  have "v \<in> set (map fst (filter (\<lambda>(v, name). name = svcName) (serviceVarMap sp)))" using assms(1) by force
  then have "sc \<in> set (found_for sp svcName)"
    using line_finds_keyword [OF assms(3,6,4,5)] assms(2) unfolding found_for_def Let_def by fastforce
  then show ?thesis using required_of_found assms(7) by blast
qed

text \<open>A call over several lines with blanks around the equals sign, and the documented form of \<^verbatim>\<open>fault_all\<close>.\<close>

definition nl :: string where
  "nl = [CHR 0x0A]"

definition demo_source :: string where
  "demo_source = join nl [''def t():'', ''    fault('', ''        db,'', ''        write = deny(EIO),  # disk'', ''    )'',
     ''    fault_all([k1, k2], connect = deny(ECONNREFUSED), run = s)'']"

definition demo_scan :: spec where
  "demo_scan = \<lparr>sourceText = demo_source, serviceVars = [(''db'', ''postgres'')],
     serviceOps = [(''postgres'', []), (''k1'', []), (''k2'', [])], virtualTime = False, spLevel = ''L0'', spExplicit = False, assumedRules = []\<rparr>"

lemma demo_statements:
  "specStatements demo_source = [''deft():'', ''fault(db,write=deny(EIO),)'', ''fault_all([k1,k2],connect=deny(ECONNREFUSED),run=s)'']"
  by code_simp

lemma demo_fault_found:
  "\<exists>scs. requiredSyscallsForService demo_scan ''postgres'' = Some scs \<and> ''pwrite64'' \<in> set scs"
proof -
  have "(''db'', ''postgres'') \<in> set (serviceVarMap demo_scan)" by (simp add: serviceVarMap_def demo_scan_def)
  moreover have "''fault(db,write=deny(EIO),)'' \<in> set (specStatements (sourceText demo_scan))"
    by (simp add: demo_scan_def demo_statements)
  moreover have "names_fault ''fault(db,write=deny(EIO),)'' ''db'' ''write''" unfolding names_fault_def by code_simp
  moreover have "''write'' \<in> keyword_syscalls demo_scan ''postgres'' ''write''"
    by (simp add: keyword_syscalls_def isFaultableSyscall_def faultableSyscalls_def demo_scan_def)
  moreover have "''pwrite64'' \<in> set (expandSyscallFamily ''write'')" by (simp add: expandSyscallFamily_def)
  ultimately show ?thesis using visible_fault_found [of "''db''" "''postgres''" demo_scan _ "''write''" "''write''"]
    by (simp add: is_space_def)
qed

theorem scan_ignores_layout_witness:
  "specStatements (join [CHR 0x0A] ([''x = 1''] @ [''fault('', ''  db,  # d'', '')''] @ [''y''])) =
   specStatements (join [CHR 0x0A] ([''x = 1''] @ [''fault(db, )''] @ [''y'']))"
proof (rule scan_ignores_layout)
  show "balanced 0 [''x = 1'']" "one_statement 0 [''fault('', ''  db,  # d'', '')'']" "one_statement 0 [''fault(db, )'']"
    "concat (map squeezed [''fault('', ''  db,  # d'', '')'']) = concat (map squeezed [''fault(db, )''])"
    by code_simp+
qed auto

lemma fault_all_invisible: "requiredSyscallsForService demo_scan ''k1'' = None"
  by code_simp

end
