(* ===== verification/Fault_Scope.thy ===== *)
theory Fault_Scope
  imports Spec_Scan Session Plan_Leaf "HOL-Library.AList"
begin

text \<open>Faults in force: \<^verbatim>\<open>applyFaults\<close>, \<^verbatim>\<open>removeFaults\<close> and their tracing counterparts of \<^verbatim>\<open>internal/star/runtime.go\<close> with
the builtins of \<^verbatim>\<open>internal/star/builtins.go\<close> that bracket a callback with them.

The record \<open>runtime\<close> has the tables these functions touch; a session entry without a session stands for a mock or a
container started without a filter. Go visits a map in an arbitrary order, for every loop anew: \<open>visits i\<close> is the order of
the loop number \<open>i\<close> over the requested faults and \<open>keys\<close> the order over the numbers of the installed rules. A callback is
a function on the state.

Shown: a fault that is accepted is in force on a syscall the kernel notifies on; a call the scan of the specification
can see is accepted; \<^verbatim>\<open>fault\<close> leaves no rule behind however its callback ends; and what the bracketing does not do.\<close>

section \<open>State\<close>

record FaultDef =
  fdAction :: string
  fdDelay :: int
  fdErrno :: string
  fdProbability :: float64
  fdLabel :: string
  fdOp :: string
  fdPathGlob :: string
  fdMaxFires :: int
  fdMode :: string

type_synonym faults = "(string \<times> FaultDef) list"

type_synonym visits = "nat \<Rightarrow> faults \<Rightarrow> faults"

type_synonym emission = "string \<times> string \<times> (string \<rightharpoonup> string)"

record runtime =
  rtArch :: arch
  rtRemote :: "string set"
  rtFaults :: "string \<rightharpoonup> faults"
  rtProbFaults :: "ProbFaultSite list"
  rtSessions :: "string \<rightharpoonup> Session option"
  rtEmitted :: "emission list"

datatype fault_error = RemoteService string "string list" | NotRunning string
  | NotFilterable string "string list" "string list" string | Usage string | Body string

definition rt_emit :: "string \<Rightarrow> string \<Rightarrow> (string \<rightharpoonup> string) \<Rightarrow> runtime \<Rightarrow> runtime" where
  "rt_emit typ svc flds rt = rt\<lparr>rtEmitted := rtEmitted rt @ [(typ, svc, flds)]\<rparr>"

section \<open>Applying and removing\<close>

definition pinned_site :: "FaultDef \<Rightarrow> bool" where
  "pinned_site fd \<longleftrightarrow> flt (fdProbability fd) (Fin 1) \<and> 0 < fdMaxFires fd \<and> fdMode fd \<noteq> ''stochastic''"

fun record_sites :: "string \<Rightarrow> faults \<Rightarrow> string list \<Rightarrow> ProbFaultSite list \<Rightarrow> ProbFaultSite list" where
  "record_sites svc faults [] sites = sites"
| "record_sites svc faults (sc # scs) sites =
    (case map_of faults sc of
       None \<Rightarrow> record_sites svc faults scs sites
     | Some fd \<Rightarrow>
         record_sites svc faults scs
           (if pinned_site fd
            then recordProbFault \<lparr>PKey = (if fdLabel fd = [] then svc @ '':'' @ sc else fdLabel fd), PMaxFires = fdMaxFires fd,
                   Prob = fdProbability fd\<rparr> sites
            else sites))"

definition fault_rule :: "numerics \<Rightarrow> string \<Rightarrow> string \<Rightarrow> FaultDef \<Rightarrow> string \<Rightarrow> FaultRule" where
  "fault_rule N svc kw fd sc =
    (let rule = zero_rule\<lparr>Syscall := sc, Probability := fdProbability fd, Label := fdLabel fd, Op := fdOp fd,
           PathGlob := fdPathGlob fd, MaxFires := fdMaxFires fd, Mode := fdMode fd\<rparr>;
         rule = (if pinned_site fd \<and> fdLabel fd = [] then rule\<lparr>Label := svc @ '':'' @ kw\<rparr> else rule)
     in if fdAction fd = ''delay'' then rule\<lparr>Action := ActionDelay, Delay := fdDelay fd\<rparr>
        else if fdAction fd = ''deny'' then
          (case ParseFaultRule N (sc @ ''='' @ fdErrno fd @ '':100%'') of
             Inl _ \<Rightarrow> rule\<lparr>Action := ActionDeny\<rparr>
           | Inr parsed \<Rightarrow> rule\<lparr>Action := ActionDeny, Errno := Errno parsed\<rparr>)
        else rule)"

definition fault_rules :: "numerics \<Rightarrow> string \<Rightarrow> faults \<Rightarrow> FaultRule list" where
  "fault_rules N svc faults = concat (map (\<lambda>(kw, fd). map (fault_rule N svc kw fd) (expandSyscallFamily kw)) faults)"

definition uncoveredSyscalls :: "Session \<Rightarrow> FaultRule list \<Rightarrow> string list" where
  "uncoveredSyscalls sess rules =
    sort (remdups (map Syscall (filter (\<lambda>r. \<not> (Syscall r = [] \<or> FiltersSyscall sess (Syscall r))) rules)))"

fun keyword_of :: "string \<Rightarrow> faults \<Rightarrow> string \<Rightarrow> string" where
  "keyword_of miss [] keyword = keyword"
| "keyword_of miss ((kw, _) # fs) keyword = keyword_of miss fs (if miss \<in> set (expandSyscallFamily kw) then kw else keyword)"

definition arrow :: string where
  "arrow = [char_of (0xE2 :: nat), char_of (0x86 :: nat), char_of (0x92 :: nat)]"

definition fault_summary :: "string \<Rightarrow> FaultDef \<Rightarrow> string" where
  "fault_summary sc fd =
    fdAction fd @ ''('' @ fdErrno fd @ '') '' @ arrow @ '' filter:['' @
    join '','' (expandSyscallFamily sc) @ '']'' @ (if fdLabel fd \<noteq> [] then '' label='' @ go_quote (fdLabel fd) else [])"

definition applyFaults :: "visits \<Rightarrow> numerics \<Rightarrow> string \<Rightarrow> faults \<Rightarrow> runtime \<Rightarrow> (fault_error + unit) \<times> runtime" where
  "applyFaults visits N svc faults rt =
    (if svc \<in> rtRemote rt \<and> faults \<noteq> [] then (Inl (RemoteService svc (sort (map fst faults))), rt)
     else
       let rt = rt\<lparr>rtFaults := (rtFaults rt)(svc \<mapsto> faults),
             rtProbFaults := record_sites svc faults (sort (map fst faults)) (rtProbFaults rt)\<rparr> in
       case rtSessions rt svc of
         None \<Rightarrow> (Inl (NotRunning svc), rt)
       | Some None \<Rightarrow>
           (Inr (), rt_emit ''fault_applied'' svc [''note'' \<mapsto> ''skipped (no seccomp session)'']
             (rt_emit ''fault_skipped_no_seccomp'' svc
               [''reason'' \<mapsto> ''mock-or-seccomp-disabled'', ''requested_rules'' \<mapsto> show_nat (length faults)] rt))
       | Some (Some sess) \<Rightarrow>
           let rules = fault_rules N svc (visits 0 faults); missing = uncoveredSyscalls sess rules in
           if missing \<noteq> [] then
             (Inl (NotFilterable svc missing (FilteredSyscalls sess) (keyword_of (missing ! 0) (visits 1 faults) (missing ! 0))), rt)
           else
             (Inr (), rt_emit ''fault_applied'' svc (map_of (map (\<lambda>(kw, fd). (kw, fault_summary kw fd)) faults))
               (rt\<lparr>rtSessions := (rtSessions rt)(svc \<mapsto> Some (SetDynamicFaultRules (rtArch rt) rules sess))\<rparr>)))"

definition trace_rules :: "string list \<Rightarrow> FaultRule list" where
  "trace_rules syscalls =
    concat (map (\<lambda>sc. map (\<lambda>x. zero_rule\<lparr>Syscall := x, Action := ActionTrace, Probability := Fin 1\<rparr>) (expandSyscallFamily sc)) syscalls)"

definition applyTrace :: "string \<Rightarrow> string list \<Rightarrow> runtime \<Rightarrow> (fault_error + unit) \<times> runtime" where
  "applyTrace svc syscalls rt =
    (case rtSessions rt svc of
       None \<Rightarrow> (Inl (NotRunning svc), rt)
     | Some None \<Rightarrow> (Inr (), rt)
     | Some (Some sess) \<Rightarrow>
         (Inr (), rt_emit ''trace_applied'' svc
           (map_of (map (\<lambda>sc. (sc, ''trace '' @ arrow @ '' filter:['' @ join '','' (expandSyscallFamily sc) @ '']'')) syscalls))
           (rt\<lparr>rtSessions := (rtSessions rt)(svc \<mapsto> Some (SetDynamicFaultRules (rtArch rt) (trace_rules syscalls) sess))\<rparr>)))"

definition clear_rules :: "string \<Rightarrow> runtime \<Rightarrow> runtime" where
  "clear_rules svc rt =
    (case rtSessions rt svc of
       Some (Some sess) \<Rightarrow> rt\<lparr>rtSessions := (rtSessions rt)(svc \<mapsto> Some (ClearDynamicFaultRules sess))\<rparr>
     | _ \<Rightarrow> rt)"

definition removeTrace :: "string \<Rightarrow> runtime \<Rightarrow> runtime" where
  "removeTrace svc rt = rt_emit ''trace_removed'' svc Map.empty (clear_rules svc rt)"

text \<open>The report on a rule that never matched.\<close>

definition zero_fields :: "DynamicRuleReport \<Rightarrow> (string \<rightharpoonup> string)" where
  "zero_fields r =
    (let f = [''syscall'' \<mapsto> RepSyscall r, ''action'' \<mapsto> RepAction r];
         f = (if RepOp r \<noteq> [] then f(''op'' \<mapsto> RepOp r) else f);
         f = (if RepLabel r \<noteq> [] then f(''label'' \<mapsto> RepLabel r) else f)
     in if RepPathGlob r \<noteq> [] then
          (if 0 < RepUnresolvedPaths r then
             f(''path'' \<mapsto> RepPathGlob r, ''unresolved_paths'' \<mapsto> show_int (RepUnresolvedPaths r),
               ''hint'' \<mapsto> ''path filter never matched, and '' @ show_int (RepUnresolvedPaths r) @
                 '' syscall path(s) could not be resolved from /proc '' @ [char_of (0xE2 :: nat), char_of (0x80 :: nat), char_of (0x94 :: nat)] @
                 '' the filter may be correct but unmatched'')
           else
             f(''path'' \<mapsto> RepPathGlob r,
               ''hint'' \<mapsto> ''path filter never matched any resolved path; '' @
                 ''check the glob (use ** to cross directories, e.g. /data/**/*.wal)''))
        else f)"

definition zero_reports :: "(Session \<Rightarrow> int list) \<Rightarrow> string \<Rightarrow> Session \<Rightarrow> emission list" where
  "zero_reports keys svc sess =
    map (\<lambda>r. (''fault_zero_traffic'', svc, zero_fields r))
      (filter (\<lambda>r. \<not> 0 < RepMatchCount r) (DynamicRuleActivity (keys sess) sess))"

definition removeFaults :: "(Session \<Rightarrow> int list) \<Rightarrow> string \<Rightarrow> runtime \<Rightarrow> runtime" where
  "removeFaults keys svc rt =
    (let rt = rt\<lparr>rtFaults := (rtFaults rt)(svc := None)\<rparr>;
         rt = (case rtSessions rt svc of
             Some (Some sess) \<Rightarrow> clear_rules svc (rt\<lparr>rtEmitted := rtEmitted rt @ zero_reports keys svc sess\<rparr>)
           | _ \<Rightarrow> rt)
     in rt_emit ''fault_removed'' svc Map.empty rt)"

section \<open>The builtins\<close>

text \<open>Callbacks, and the values a keyword argument can have. The text of a usage error stops before the type of the
offending value.\<close>

type_synonym 'v body = "runtime \<Rightarrow> (fault_error + 'v) \<times> runtime"

datatype 'v arg = Callable "'v body" | FaultVal FaultDef | OtherVal string

record service =
  svName :: string
  svOps :: "(string \<times> OpDef) list"

definition op_fault :: "string \<Rightarrow> OpDef \<Rightarrow> FaultDef \<Rightarrow> FaultDef" where
  "op_fault key opDef fd = fd\<lparr>fdOp := key, fdPathGlob := (if OpPath opDef \<noteq> [] then OpPath opDef else fdPathGlob fd)\<rparr>"

definition unknown_keyword :: "service \<Rightarrow> string \<Rightarrow> string" where
  "unknown_keyword svc key =
    ''fault() unknown keyword '' @ go_quote key @ '' for service '' @ go_quote (svName svc) @ ''. Valid syscalls: '' @
    join '', '' faultableSyscalls @
    (if svOps svc \<noteq> [] then ''. Named operations on '' @ svName svc @ '': '' @ join '', '' (sort (map fst (svOps svc))) else [])"

fun fault_kwargs :: "service \<Rightarrow> (string \<times> 'v arg) list \<Rightarrow> 'v body option \<Rightarrow> faults \<Rightarrow> fault_error + 'v body option \<times> faults" where
  "fault_kwargs svc [] bodyFn faults = Inr (bodyFn, faults)"
| "fault_kwargs svc ((key, val) # kwargs) bodyFn faults =
    (if key = ''run'' then
       (case val of Callable cb \<Rightarrow> fault_kwargs svc kwargs (Some cb) faults | _ \<Rightarrow> Inl (Usage ''fault() run= must be a callable''))
     else if map_of (svOps svc) key = None \<and> \<not> isFaultableSyscall key then Inl (Usage (unknown_keyword svc key))
     else
       (case val of
          FaultVal fd \<Rightarrow>
            fault_kwargs svc kwargs bodyFn
              (case map_of (svOps svc) key of
                 Some opDef \<Rightarrow> fold (\<lambda>sc fs. AList.update sc (op_fault key opDef fd) fs) (OpSyscalls opDef) faults
               | None \<Rightarrow> AList.update key fd faults)
        | _ \<Rightarrow> Inl (Usage (''fault() '' @ key @ ''= must be a fault (delay/deny/allow)''))))"

definition builtinFault ::
  "visits \<Rightarrow> numerics \<Rightarrow> (Session \<Rightarrow> int list) \<Rightarrow> service \<Rightarrow> (string \<times> 'v arg) list \<Rightarrow> 'v body" where
  "builtinFault visits N keys svc kwargs rt =
    (case fault_kwargs svc kwargs None [] of
       Inl e \<Rightarrow> (Inl e, rt)
     | Inr (None, _) \<Rightarrow> (Inl (Usage ''fault() requires run= keyword with a callback function''), rt)
     | Inr (Some bodyFn, faults) \<Rightarrow>
         (case applyFaults visits N (svName svc) faults rt of
            (Inl e, rt1) \<Rightarrow> (Inl e, rt1)
          | (Inr _, rt1) \<Rightarrow> let (result, rt2) = bodyFn rt1 in (result, removeFaults keys (svName svc) rt2)))"

text \<open>The loop that applies the same faults to a list of services; the deferred removals run in the opposite order, also
when a later service fails.\<close>

definition remove_each :: "(Session \<Rightarrow> int list) \<Rightarrow> string list \<Rightarrow> runtime \<Rightarrow> runtime" where
  "remove_each keys applied rt = fold (removeFaults keys) applied rt"

fun apply_each ::
  "visits \<Rightarrow> numerics \<Rightarrow> (Session \<Rightarrow> int list) \<Rightarrow> string list \<Rightarrow> faults \<Rightarrow> string list \<Rightarrow> runtime \<Rightarrow>
    (fault_error + string list) \<times> runtime" where
  "apply_each visits N keys [] faults applied rt = (Inr applied, rt)"
| "apply_each visits N keys (svc # svcs) faults applied rt =
    (case applyFaults visits N svc faults rt of
       (Inl e, rt1) \<Rightarrow> (Inl e, remove_each keys applied rt1)
     | (Inr _, rt1) \<Rightarrow> apply_each visits N keys svcs faults (svc # applied) rt1)"

fun fault_all_kwargs :: "(string \<times> 'v arg) list \<Rightarrow> 'v body option \<Rightarrow> faults \<Rightarrow> fault_error + 'v body option \<times> faults" where
  "fault_all_kwargs [] bodyFn faults = Inr (bodyFn, faults)"
| "fault_all_kwargs ((key, val) # kwargs) bodyFn faults =
    (if key = ''run'' then
       (case val of Callable cb \<Rightarrow> fault_all_kwargs kwargs (Some cb) faults | _ \<Rightarrow> Inl (Usage ''fault_all() run= must be a callable''))
     else
       (case val of
          FaultVal fd \<Rightarrow> fault_all_kwargs kwargs bodyFn (AList.update key fd faults)
        | _ \<Rightarrow> Inl (Usage (''fault_all() '' @ key @ ''= must be a fault (delay/deny)''))))"

definition builtinFaultAll ::
  "visits \<Rightarrow> numerics \<Rightarrow> (Session \<Rightarrow> int list) \<Rightarrow> string list \<Rightarrow> (string \<times> 'v arg) list \<Rightarrow> 'v body" where
  "builtinFaultAll visits N keys svcs kwargs rt =
    (if svcs = [] then (Inl (Usage ''fault_all() requires at least one service in the list''), rt)
     else
       case fault_all_kwargs kwargs None [] of
         Inl e \<Rightarrow> (Inl e, rt)
       | Inr (None, _) \<Rightarrow> (Inl (Usage ''fault_all() requires run= keyword with a callback function''), rt)
       | Inr (Some bodyFn, faults) \<Rightarrow>
           (case apply_each visits N keys svcs faults [] rt of
              (Inl e, rt1) \<Rightarrow> (Inl e, rt1)
            | (Inr applied, rt1) \<Rightarrow> let (result, rt2) = bodyFn rt1 in (result, remove_each keys applied rt2)))"

fun fault_start_kwargs :: "(string \<times> 'v arg) list \<Rightarrow> faults \<Rightarrow> fault_error + faults" where
  "fault_start_kwargs [] faults = Inr faults"
| "fault_start_kwargs ((key, val) # kwargs) faults =
    (case val of
       FaultVal fd \<Rightarrow> fault_start_kwargs kwargs (AList.update key fd faults)
     | _ \<Rightarrow> Inl (Usage (''fault_start() '' @ key @ ''= must be a fault'')))"

definition builtinFaultStart ::
  "visits \<Rightarrow> numerics \<Rightarrow> string \<Rightarrow> (string \<times> 'v arg) list \<Rightarrow> runtime \<Rightarrow> (fault_error + unit) \<times> runtime" where
  "builtinFaultStart visits N svc kwargs rt =
    (case fault_start_kwargs kwargs [] of Inl e \<Rightarrow> (Inl e, rt) | Inr faults \<Rightarrow> applyFaults visits N svc faults rt)"

definition builtinFaultStop :: "(Session \<Rightarrow> int list) \<Rightarrow> string \<Rightarrow> runtime \<Rightarrow> runtime" where
  "builtinFaultStop keys svc rt = removeFaults keys svc rt"

definition builtinTrace :: "string \<Rightarrow> 'v body option \<Rightarrow> string list \<Rightarrow> 'v body" where
  "builtinTrace svc bodyFn syscalls rt =
    (case bodyFn of
       None \<Rightarrow> (Inl (Usage ''trace() requires run= keyword with a callback function''), rt)
     | Some cb \<Rightarrow>
         if syscalls = [] then (Inl (Usage ''trace() requires syscalls= keyword with a list of syscall names''), rt)
         else
           (case applyTrace svc syscalls rt of
              (Inl e, rt1) \<Rightarrow> (Inl e, rt1)
            | (Inr _, rt1) \<Rightarrow> let (result, rt2) = cb rt1 in (result, removeTrace svc rt2)))"

definition builtinTraceStart :: "string \<Rightarrow> string list \<Rightarrow> runtime \<Rightarrow> (fault_error + unit) \<times> runtime" where
  "builtinTraceStart svc syscalls rt =
    (if syscalls = [] then (Inl (Usage ''trace_start() requires syscalls= keyword with a list of syscall names''), rt)
     else applyTrace svc syscalls rt)"

definition builtinTraceStop :: "string \<Rightarrow> runtime \<Rightarrow> runtime" where
  "builtinTraceStop svc rt = removeTrace svc rt"

section \<open>An accepted fault is in force\<close>

lemma dynamic_rules_set:
  assumes "0 \<le> nr"
  shows "dynamicRules (SetDynamicFaultRules a rules s) nr = map init_counters (filter (\<lambda>r. SyscallNumber a (Syscall r) = nr) rules)"
proof -
  have "foldl (\<lambda>m r. let nr = SyscallNumber a (Syscall r) in if nr < 0 then m else m(nr := m nr @ [init_counters r])) m rules nr =
      m nr @ map init_counters (filter (\<lambda>r. SyscallNumber a (Syscall r) = nr) rules)" for m
    using assms by (induction rules arbitrary: m) (auto simp: Let_def)
  then show ?thesis by (simp add: SetDynamicFaultRules_def)
qed

lemma fault_rule_syscall [simp]: "Syscall (fault_rule N svc kw fd sc) = sc"
  by (simp add: fault_rule_def Let_def zero_rule_def split: sum.splits)

lemma fault_rules_set:
  "set (fault_rules N svc faults) = (\<Union>p\<in>set faults. fault_rule N svc (fst p) (snd p) ` set (expandSyscallFamily (fst p)))"
  by (simp add: fault_rules_def split_beta)

lemma fault_rules_mem:
  "(kw, fd) \<in> set faults \<Longrightarrow> sc \<in> set (expandSyscallFamily kw) \<Longrightarrow> fault_rule N svc kw fd sc \<in> set (fault_rules N svc faults)"
  unfolding fault_rules_set by (rule UN_I [of "(kw, fd)"]) simp_all

lemma uncovered_empty:
  "uncoveredSyscalls sess rules = [] \<longleftrightarrow> (\<forall>r\<in>set rules. Syscall r = [] \<or> FiltersSyscall sess (Syscall r))"
proof -
  have "uncoveredSyscalls sess rules = [] \<longleftrightarrow> set (uncoveredSyscalls sess rules) = {}" by simp
  also have "\<dots> \<longleftrightarrow> (\<forall>r\<in>set rules. Syscall r = [] \<or> FiltersSyscall sess (Syscall r))"
    unfolding uncoveredSyscalls_def by auto
  finally show ?thesis .
qed

text \<open>With a session, the outcome of \<^const>\<open>applyFaults\<close> is decided by what is filtered.\<close>

lemma applyFaults_session:
  assumes "rtSessions rt svc = Some (Some sess)" "svc \<notin> rtRemote rt \<or> faults = []"
  shows "(\<exists>rt'. applyFaults visits N svc faults rt = (Inr (), rt')) \<longleftrightarrow>
      uncoveredSyscalls sess (fault_rules N svc (visits 0 faults)) = []"
    and "applyFaults visits N svc faults rt = (Inr (), rt') \<Longrightarrow>
      rtSessions rt' = (rtSessions rt)(svc \<mapsto> Some (SetDynamicFaultRules (rtArch rt) (fault_rules N svc (visits 0 faults)) sess))"
  using assms by (auto simp: applyFaults_def Let_def rt_emit_def split: if_splits)

lemma filtered_number:
  assumes "resolve_rules a (cfgRules s) = Inr (rs, nrs)" "FiltersSyscall s (SyscallName a nr)"
  shows "0 \<le> nr" "nr = SyscallNumber a (SyscallName a nr)"
proof -
  have "nr \<in> set nrs" using resolved_iff_filtered [OF assms(1)] assms(2) by blast
  then obtain n where n: "nr = SyscallNumber a n" "0 \<le> SyscallNumber a n"
    unfolding resolve_rules_nrs(2) [OF assms(1)] using resolve_rules_nrs(3) [OF assms(1)] known_openat
    by (auto split: if_splits)
  then show "0 \<le> nr" by simp
  show "nr = SyscallNumber a (SyscallName a nr)" using n SyscallNumber_Name [OF n(2), of nr] by simp
qed

text \<open>C9. A fault that \<^const>\<open>applyFaults\<close> accepts on a running session is in force: the kernel's filter notifies on every
syscall the keyword stands for, unless the descriptor is one the shim keeps for itself, and the rule is among those
the supervisor consults for that syscall.\<close>

theorem accepted_fault_in_force:
  assumes "applyFaults visits N svc faults rt = (Inr (), rt')" "rtSessions rt svc = Some (Some s)"
    and "resolve_rules (rtArch rt) (cfgRules s) = Inr (rs, nrs)"
    and "mset (visits 0 faults) = mset faults" "(kw, fd) \<in> set faults" "sc \<in> set (expandSyscallFamily kw)" "sc \<noteq> []"
    and "Arch d = nativeArch (rtArch rt)" "SyscallName (rtArch rt) (sint (Nr d)) = sc" "\<not> exempt (rtArch rt) fdW fdS d"
  shows "bpf_exec d (buildFilter (rtArch rt) (map word_of_int nrs) fdW fdS) 0 = Some SECCOMP_RET_USER_NOTIF \<and>
    (\<exists>s'. rtSessions rt' svc = Some (Some s') \<and>
      init_counters (fault_rule N svc kw fd sc) \<in> set (getDynamicRules s' (sint (Nr d))))"
proof -
  let ?rules = "fault_rules N svc (visits 0 faults)"
  have remote: "svc \<notin> rtRemote rt \<or> faults = []" using assms(1) by (auto simp: applyFaults_def split: if_splits)
  have "(kw, fd) \<in> set (visits 0 faults)" using assms(4,5) by (metis set_mset_mset)
  then have r: "fault_rule N svc kw fd sc \<in> set ?rules" using assms(6) by (rule fault_rules_mem)
  have "uncoveredSyscalls s ?rules = []" using applyFaults_session(1) [OF assms(2) remote] assms(1) by blast
  then have f: "FiltersSyscall s sc" using r assms(7) uncovered_empty by fastforce
  then have n: "0 \<le> sint (Nr d)" "sint (Nr d) = SyscallNumber (rtArch rt) sc"
    using filtered_number [OF assms(3), of "sint (Nr d)"] assms(9) by simp_all
  have "init_counters (fault_rule N svc kw fd sc) \<in>
      set (getDynamicRules (SetDynamicFaultRules (rtArch rt) ?rules s) (sint (Nr d)))"
    using r n by (auto simp: getDynamicRules_def dynamic_rules_set)
  moreover have "rtSessions rt' svc = Some (Some (SetDynamicFaultRules (rtArch rt) ?rules s))"
    using applyFaults_session(2) [OF assms(2) remote assms(1)] by simp
  ultimately show ?thesis using launch_filter_run [OF assms(3), of d fdW fdS] f assms(8-10) by auto
qed

section \<open>What is written out is accepted\<close>

definition written_out :: "spec \<Rightarrow> string \<Rightarrow> string \<Rightarrow> bool" where
  "written_out sp svc kw \<longleftrightarrow> (\<exists>v st key. (v, svc) \<in> set (serviceVarMap sp) \<and> st \<in> set (specStatements (sourceText sp)) \<and>
     names_fault st v key \<and> key \<noteq> [] \<and> \<not> is_space (hd key) \<and> kw \<in> keyword_syscalls sp svc key)"

text \<open>The rules a session is started with.\<close>

definition launched_rules :: "spec \<Rightarrow> string \<Rightarrow> FaultRule list" where
  "launched_rules sp svc = (case requiredFaultRulesForService sp svc of None \<Rightarrow> [] | Some rs \<Rightarrow> rs)"

lemma filters_launched:
  assumes "cfgRules s = launched_rules sp svc" "requiredSyscallsForService sp svc = Some scs" "x \<in> set scs"
  shows "FiltersSyscall s x"
  using assms by (auto simp: FiltersSyscall_def launched_rules_def requiredFaultRulesForService_def list_ex_iff placeholder_def)

text \<open>C10. When every keyword of the requested faults is written out in a fault call on the service, the faults are
accepted by the session started for the specification.\<close>

theorem written_fault_accepted:
  assumes "rtSessions rt svc = Some (Some s)" "cfgRules s = launched_rules sp svc" "svc \<notin> rtRemote rt"
    and "mset (visits 0 faults) = mset faults" "\<And>kw fd. (kw, fd) \<in> set faults \<Longrightarrow> written_out sp svc kw"
  shows "\<exists>rt'. applyFaults visits N svc faults rt = (Inr (), rt')"
proof -
  have v: "set (visits 0 faults) = set faults" using assms(4) by (metis set_mset_mset)
  have "FiltersSyscall s x" if x: "(kw, fd) \<in> set faults" "x \<in> set (expandSyscallFamily kw)" for kw fd x
  proof -
    from assms(5) [OF x(1)] obtain scs where "requiredSyscallsForService sp svc = Some scs" "x \<in> set scs"
      using visible_fault_found [OF _ _ _ _ _ _ x(2)] unfolding written_out_def by blast
    then show ?thesis using filters_launched [OF assms(2)] by blast
  qed
  then have "\<forall>r\<in>set (fault_rules N svc (visits 0 faults)). Syscall r = [] \<or> FiltersSyscall s (Syscall r)"
    unfolding fault_rules_set v by auto
  then show ?thesis using applyFaults_session(1) [OF assms(1)] assms(3) uncovered_empty by blast
qed

section \<open>Nothing is left behind\<close>

definition quiet :: "string \<Rightarrow> runtime \<Rightarrow> bool" where
  "quiet svc rt \<longleftrightarrow> (\<forall>s. rtSessions rt svc = Some (Some s) \<longrightarrow> dynamicRules s = (\<lambda>_. []))"

lemma removeFaults_sessions:
  "rtSessions (removeFaults keys svc rt) = (rtSessions rt)(svc := map_option (map_option ClearDynamicFaultRules) (rtSessions rt svc))"
  by (auto simp: removeFaults_def clear_rules_def rt_emit_def Let_def fun_eq_iff split: option.splits)

lemma removeFaults_quiet: "quiet s (removeFaults keys svc rt) \<longleftrightarrow> s = svc \<or> quiet s rt"
  by (auto simp: quiet_def removeFaults_sessions ClearDynamicFaultRules_def)

lemma remove_each_quiet: "quiet s (remove_each keys applied rt) \<longleftrightarrow> s \<in> set applied \<or> quiet s rt"
  unfolding remove_each_def by (induction applied arbitrary: rt) (auto simp: removeFaults_quiet)

lemma applyFaults_frame:
  "applyFaults visits N svc faults rt = (r, rt') \<Longrightarrow> s \<noteq> svc \<or> isl r \<Longrightarrow> rtSessions rt' s = rtSessions rt s"
  by (auto simp: applyFaults_def Let_def rt_emit_def split: if_splits option.splits)

lemma applyFaults_quiet:
  "applyFaults visits N svc faults rt = (r, rt') \<Longrightarrow> quiet s rt \<Longrightarrow> s \<noteq> svc \<or> isl r \<Longrightarrow> quiet s rt'"
  using applyFaults_frame unfolding quiet_def by metis

lemma apply_each_outcome:
  "apply_each visits N keys svcs faults applied rt = (r, rt') \<Longrightarrow> (\<And>s. s \<in> S \<Longrightarrow> s \<in> set applied \<or> quiet s rt) \<Longrightarrow>
    (case r of Inl _ \<Rightarrow> \<forall>s\<in>S. quiet s rt' | Inr applied' \<Rightarrow> set applied' = set svcs \<union> set applied)"
proof (induction svcs arbitrary: applied rt)
  case (Cons svc svcs)
  obtain q rt1 where a: "applyFaults visits N svc faults rt = (q, rt1)" by force
  show ?case
  proof (cases q)
    case (Inl e)
    then have "quiet s rt1 \<or> s \<in> set applied" if "s \<in> S" for s
      using Cons.prems(2) [OF that] applyFaults_quiet [OF a] by auto
    then have "\<forall>s\<in>S. quiet s (remove_each keys applied rt1)" unfolding remove_each_quiet by blast
    then show ?thesis using Cons.prems(1) a Inl by auto
  next
    case (Inr u)
    have "s \<in> set (svc # applied) \<or> quiet s rt1" if "s \<in> S" for s
      using Cons.prems(2) [OF that] applyFaults_quiet [OF a] by (cases "s = svc") auto
    then show ?thesis using Cons.IH [of "svc # applied" rt1] Cons.prems(1) a Inr by (auto split: sum.splits)
  qed
qed auto

text \<open>C11. However a call of \<^verbatim>\<open>fault_all\<close> ends \<midarrow> with its callback's value, with the callback's error, or because a later
service refuses the fault \<midarrow> no service of its list is left with a rule.\<close>

theorem fault_all_leaves_nothing:
  assumes "builtinFaultAll visits N keys svcs kwargs rt = (r, rt')" "\<And>s. s \<in> set svcs \<Longrightarrow> quiet s rt" "s \<in> set svcs"
  shows "quiet s rt'"
proof (cases "\<exists>bodyFn faults. fault_all_kwargs kwargs None [] = Inr (Some bodyFn, faults)")
  case True
  then obtain bodyFn faults where k: "fault_all_kwargs kwargs None [] = Inr (Some bodyFn, faults)" by blast
  obtain q rt1 where a: "apply_each visits N keys svcs faults [] rt = (q, rt1)" by force
  from apply_each_outcome [OF a, of "set svcs"] assms(2)
  have o: "case q of Inl _ \<Rightarrow> \<forall>s\<in>set svcs. quiet s rt1 | Inr applied' \<Rightarrow> set applied' = set svcs" by (auto split: sum.splits)
  have "svcs \<noteq> []" using assms(3) by auto
  then show ?thesis
    using assms(1,3) k a o by (auto simp: builtinFaultAll_def remove_each_quiet split: sum.splits prod.splits)
next
  case False
  then have "rt' = rt" using assms(1)
    by (auto simp: builtinFaultAll_def split: sum.splits prod.splits option.splits if_splits)
  then show ?thesis using assms(2,3) by blast
qed

text \<open>The same for \<^verbatim>\<open>fault\<close> on one service, whose removal also touches no other service.\<close>

lemma fault_leaves_nothing:
  assumes "builtinFault visits N keys svc kwargs rt = (r, rt')" "quiet (svName svc) rt"
  shows "quiet (svName svc) rt'"
proof (cases "\<exists>bodyFn faults. fault_kwargs svc kwargs None [] = Inr (Some bodyFn, faults)")
  case True
  then obtain bodyFn faults where k: "fault_kwargs svc kwargs None [] = Inr (Some bodyFn, faults)" by blast
  obtain q rt1 where a: "applyFaults visits N (svName svc) faults rt = (q, rt1)" by force
  show ?thesis
    using assms k a applyFaults_quiet [OF a assms(2)]
    by (cases q) (auto simp: builtinFault_def removeFaults_quiet split: prod.splits)
next
  case False
  then have "rt' = rt" using assms(1)
    by (auto simp: builtinFault_def split: sum.splits prod.splits option.splits if_splits)
  then show ?thesis using assms(2) by blast
qed

section \<open>A running example\<close>

definition eio :: FaultDef where
  "eio = \<lparr>fdAction = ''deny'', fdDelay = 0, fdErrno = ''EIO'', fdProbability = Fin 1, fdLabel = [], fdOp = [], fdPathGlob = [],
     fdMaxFires = 0, fdMode = []\<rparr>"

definition running :: "string \<Rightarrow> Session option \<Rightarrow> runtime" where
  "running svc s = \<lparr>rtArch = Amd64, rtRemote = {}, rtFaults = Map.empty, rtProbFaults = [], rtSessions = [svc \<mapsto> s], rtEmitted = []\<rparr>"

definition writes_filtered :: Session where
  "writes_filtered = demo_session (map placeholder [''write'', ''writev'', ''pwrite64''])"

lemma writes_resolved:
  "resolve_rules Amd64 (cfgRules writes_filtered) =
    Inr ([(1, placeholder ''write''), (20, placeholder ''writev''), (18, placeholder ''pwrite64'')], [1, 20, 18])"
  by (simp add: resolve_rules_def writes_filtered_def demo_session_def NewSession_def placeholder_def zero_rule_def
      SyscallNumber_def syscallNames_def syscallNames_amd64_def)

lemma write_accepted: "\<exists>rt'. applyFaults (\<lambda>_. id) N ''db'' [(''write'', eio)] (running ''db'' (Some writes_filtered)) = (Inr (), rt')"
proof -
  have "rtSessions (running ''db'' (Some writes_filtered)) ''db'' = Some (Some writes_filtered)" by (simp add: running_def)
  moreover have "uncoveredSyscalls writes_filtered (fault_rules N ''db'' [(''write'', eio)]) = []"
    unfolding uncovered_empty
    by (simp add: fault_rules_def expandSyscallFamily_def FiltersSyscall_def writes_filtered_def demo_session_def
        NewSession_def placeholder_def zero_rule_def)
  ultimately show ?thesis
    using applyFaults_session(1) [of "running ''db'' (Some writes_filtered)" "''db''" writes_filtered "[(''write'', eio)]" "\<lambda>_. id" N]
    by (simp add: running_def)
qed

theorem accepted_fault_in_force_witness:
  "\<exists>rt' s'. applyFaults (\<lambda>_. id) whole ''db'' [(''write'', eio)] (running ''db'' (Some writes_filtered)) = (Inr (), rt') \<and>
    bpf_exec \<lparr>Nr = 18, Arch = nativeArch Amd64, Args = [7]\<rparr> (buildFilter Amd64 [1, 20, 18] 3 (- 1)) 0 = Some SECCOMP_RET_USER_NOTIF \<and>
    rtSessions rt' ''db'' = Some (Some s') \<and> getDynamicRules s' 18 \<noteq> []"
proof -
  let ?rt = "running ''db'' (Some writes_filtered)"
  obtain rt' where a: "applyFaults (\<lambda>_. id) whole ''db'' [(''write'', eio)] ?rt = (Inr (), rt')" using write_accepted by blast
  have s: "rtSessions ?rt ''db'' = Some (Some writes_filtered)" "rtArch ?rt = Amd64" by (simp_all add: running_def)
  have n: "SyscallName Amd64 18 = ''pwrite64''" by (simp add: SyscallName_def syscallNames_def syscallNames_amd64_def)
  have "\<not> exempt Amd64 3 (- 1) \<lparr>Nr = 18, Arch = nativeArch Amd64, Args = [7]\<rparr>"
    by (simp add: exempt_def n write_family_def socket_family_def)
  then have "bpf_exec \<lparr>Nr = 18, Arch = nativeArch Amd64, Args = [7]\<rparr> (buildFilter Amd64 (map word_of_int [1, 20, 18]) 3 (- 1)) 0 = Some SECCOMP_RET_USER_NOTIF \<and>
    (\<exists>s'. rtSessions rt' ''db'' = Some (Some s') \<and> init_counters (fault_rule whole ''db'' ''write'' eio ''pwrite64'') \<in> set (getDynamicRules s' (sint (18 :: 32 word))))"
    using accepted_fault_in_force [OF a s(1), unfolded s(2), OF writes_resolved, of "''write''" eio "''pwrite64''"
        "\<lparr>Nr = 18, Arch = nativeArch Amd64, Args = [7]\<rparr>" 3 "- 1"] n
    by (simp add: expandSyscallFamily_def)
  with a show ?thesis by fastforce
qed

theorem written_fault_accepted_witness:
  "\<exists>rt'. applyFaults (\<lambda>_. id) whole ''postgres'' [(''write'', eio)]
     (running ''postgres'' (Some (demo_session (launched_rules demo_scan ''postgres'')))) = (Inr (), rt')"
proof (rule written_fault_accepted)
  show "rtSessions (running ''postgres'' (Some (demo_session (launched_rules demo_scan ''postgres'')))) ''postgres'' =
      Some (Some (demo_session (launched_rules demo_scan ''postgres'')))"
    by (simp add: running_def)
  show "cfgRules (demo_session (launched_rules demo_scan ''postgres'')) = launched_rules demo_scan ''postgres''"
    by (simp add: demo_session_def NewSession_def)
  have "(''db'', ''postgres'') \<in> set (serviceVarMap demo_scan)" by (simp add: serviceVarMap_def demo_scan_def)
  moreover have "''fault(db,write=deny(EIO),)'' \<in> set (specStatements (sourceText demo_scan))"
    by (simp add: demo_scan_def demo_statements)
  moreover have "names_fault ''fault(db,write=deny(EIO),)'' ''db'' ''write''" unfolding names_fault_def by code_simp
  moreover have "''write'' \<in> keyword_syscalls demo_scan ''postgres'' ''write''"
    by (simp add: keyword_syscalls_def isFaultableSyscall_def faultableSyscalls_def demo_scan_def)
  ultimately have w: "written_out demo_scan ''postgres'' ''write''"
    unfolding written_out_def using letters_not_space by (intro exI [of _ "''db''"] exI [of _ "''fault(db,write=deny(EIO),)''"] exI [of _ "''write''"]) (simp add: is_space_def)
  show "written_out demo_scan ''postgres'' kw" if "(kw, fd) \<in> set [(''write'', eio)]" for kw fd
    using that w by simp
qed (simp_all add: running_def)

theorem fault_all_leaves_nothing_witness:
  "quiet ''db'' (snd (builtinFaultAll (\<lambda>_. id) whole (\<lambda>_. [1]) [''db'', ''gone'']
     [(''write'', FaultVal eio), (''run'', Callable (\<lambda>rt. (Inr (), rt)))] (running ''db'' (Some writes_filtered))))"
proof -
  let ?rt = "running ''db'' (Some writes_filtered)"
  have q: "quiet s ?rt" for s
    by (simp add: quiet_def running_def writes_filtered_def demo_session_def NewSession_def)
  obtain r rt' where b: "builtinFaultAll (\<lambda>_. id) whole (\<lambda>_. [1]) [''db'', ''gone'']
     [(''write'', FaultVal eio), (''run'', Callable (\<lambda>rt. (Inr (), rt)))] ?rt = (r, rt')" by (rule prod.exhaust)
  have "quiet ''db'' rt'" by (rule fault_all_leaves_nothing [OF b q]) simp
  then show ?thesis unfolding b by simp
qed

section \<open>What the bracketing does not do\<close>

text \<open>An inner \<^verbatim>\<open>fault\<close> on the same service takes the rules of the outer one away with its own: after it, the rest of the
outer callback runs without any fault, whatever was installed before.\<close>

lemma nested_fault_clears_outer:
  assumes "fault_kwargs svc kwargs None [] = Inr (Some inner, fs)" "applyFaults visits N (svName svc) fs rt = (Inr (), rt1)"
  shows "quiet (svName svc) (snd (builtinFault visits N keys svc kwargs rt))"
  using assms by (simp add: builtinFault_def removeFaults_quiet split: prod.splits)

text \<open>Two keywords that share a syscall: which rule is consulted first depends on the order in which the map is visited.\<close>

lemma shared_syscall_order:
  "map Action (filter (\<lambda>r. Syscall r = ''pwrite64'') (fault_rules N svc [(''write'', eio), (''pwrite64'', eio\<lparr>fdAction := ''delay''\<rparr>)])) =
     [ActionDeny, ActionDelay] \<and>
   map Action (filter (\<lambda>r. Syscall r = ''pwrite64'') (fault_rules N svc [(''pwrite64'', eio\<lparr>fdAction := ''delay''\<rparr>), (''write'', eio)])) =
     [ActionDelay, ActionDeny]"
proof -
  have "Action (fault_rule N svc kw (eio\<lparr>fdAction := ''delay''\<rparr>) sc) = ActionDelay" "Action (fault_rule N svc kw eio sc) = ActionDeny" for kw sc
    by (simp_all add: fault_rule_def eio_def zero_rule_def Let_def split: sum.splits)
  then show ?thesis by (simp add: fault_rules_def expandSyscallFamily_def)
qed

text \<open>A container whose fault the scan missed runs without a filter and has no session: the fault is accepted and does
nothing. A process in the same position refuses it; so does every service of a \<^verbatim>\<open>fault_all\<close>, whose calls the scan never
sees.\<close>

lemma unfiltered_container_accepts:
  "rtSessions rt svc = Some None \<Longrightarrow> svc \<notin> rtRemote rt \<Longrightarrow>
    \<exists>rt'. applyFaults visits N svc faults rt = (Inr (), rt') \<and> rtSessions rt' = rtSessions rt"
  by (simp add: applyFaults_def Let_def rt_emit_def)

lemma fault_all_refused:
  "\<exists>e rt'. builtinFaultAll (\<lambda>_. id) whole keys [''k1''] [(''connect'', FaultVal eio), (''run'', Callable body)]
     (running ''k1'' (Some (demo_session (launched_rules demo_scan ''k1'')))) = (Inl e, rt')"
proof -
  have "launched_rules demo_scan ''k1'' = []" by (simp add: launched_rules_def requiredFaultRulesForService_def fault_all_invisible)
  then have "\<not> FiltersSyscall (demo_session (launched_rules demo_scan ''k1'')) ''connect''"
    by (simp add: FiltersSyscall_def demo_session_def NewSession_def)
  then have "uncoveredSyscalls (demo_session (launched_rules demo_scan ''k1'')) (fault_rules whole ''k1'' [(''connect'', eio)]) \<noteq> []"
    unfolding uncovered_empty by (simp add: fault_rules_def expandSyscallFamily_def)
  then show ?thesis
    by (simp add: builtinFaultAll_def applyFaults_def running_def Let_def)
qed

end
