(* ===== verification/Resp_Wire.thy ===== *)
theory Resp_Wire
  imports Go_Prelude
begin

text \<open>The Redis wire protocol as the proxy reads and writes it: \<^verbatim>\<open>readRESPArray\<close>, \<^verbatim>\<open>encodeRESPArray\<close> and \<^verbatim>\<open>readRESPRaw\<close> of
\<^verbatim>\<open>internal/proxy/redis.go\<close>. A connection is the bytes that will arrive on it before it ends; a reader returns what it read
and the bytes that are left.

Reading a reply recurses over the input. The model has a step count and the value \<^const>\<open>None\<close> when it is used up;
\<open>readRESPRaw\<close> gives it one step more than there are bytes.

Shown: that many steps are always enough; from a stream that begins with a well-formed reply exactly that reply is
taken, whatever follows; a command is read back as it was encoded; and a length near the limit of an allocation
stops the program.\<close>

section \<open>Reading bytes\<close>

datatype io_error = EOF | UnexpectedEOF | Protocol string | Panic

type_synonym 'a reading = "io_error + 'a \<times> string"

definition lf :: char where
  "lf = CHR 0x0A"

definition cr :: char where
  "cr = CHR 0x0D"

definition crlf :: string where
  "crlf = [cr, lf]"

definition ReadString :: "string \<Rightarrow> string reading" where
  "ReadString s =
    (if lf \<in> set s then Inr (takeWhile (\<lambda>c. c \<noteq> lf) s @ [lf], tl (dropWhile (\<lambda>c. c \<noteq> lf) s)) else Inl EOF)"

definition trim_eol :: "string \<Rightarrow> string" where
  "trim_eol s = rev (dropWhile (\<lambda>c. c = cr \<or> c = lf) (rev s))"

text \<open>The value of \<^verbatim>\<open>strconv.Atoi\<close> when its error is ignored: zero for a bad number, the nearest one for one out of range.\<close>

definition atoi_value :: "string \<Rightarrow> int" where
  "atoi_value s =
    (case atoi s of
       Inr n \<Rightarrow> n
     | Inl e \<Rightarrow> if e = ''invalid syntax'' then 0 else if hd s = CHR ''-'' then - (2 ^ 63) else 2 ^ 63 - 1)"

text \<open>\<^verbatim>\<open>make\<close> of so many elements of so many bytes: beyond the address space it panics.\<close>

definition max_alloc :: int where
  "max_alloc = 2 ^ 48"

definition make_panics :: "int \<Rightarrow> int \<Rightarrow> bool" where
  "make_panics n width \<longleftrightarrow> wrap64 n < 0 \<or> max_alloc < wrap64 n * width"

text \<open>A buffer of \<open>sz + 2\<close> bytes filled by \<^verbatim>\<open>io.ReadFull\<close>.\<close>

definition read_block :: "int \<Rightarrow> string \<Rightarrow> string reading" where
  "read_block sz s =
    (if make_panics (sz + 2) 1 then Inl Panic
     else let k = nat (sz + 2) in if length s < k then Inl (if s = [] then EOF else UnexpectedEOF) else Inr (take k s, drop k s))"

section \<open>Commands\<close>

fun read_bulks :: "nat \<Rightarrow> string \<Rightarrow> string list reading" where
  "read_bulks 0 s = Inr ([], s)"
| "read_bulks (Suc n) s =
    (case ReadString s of
       Inl e \<Rightarrow> Inl e
     | Inr (line, s1) \<Rightarrow>
         let bulkLine = trim_eol line in
         if bulkLine = [] \<or> hd bulkLine \<noteq> CHR ''$'' then Inl (Protocol (''expected bulk string, got '' @ go_quote bulkLine))
         else
           let sz = atoi_value (tl bulkLine) in
           if sz < 0 then
             (case read_bulks n s1 of Inl e \<Rightarrow> Inl e | Inr (args, s2) \<Rightarrow> Inr ([] # args, s2))
           else
             (case read_block sz s1 of
                Inl e \<Rightarrow> Inl e
              | Inr (buf, s2) \<Rightarrow>
                  (case read_bulks n s2 of Inl e \<Rightarrow> Inl e | Inr (args, s3) \<Rightarrow> Inr (take (nat sz) buf # args, s3))))"

definition readRESPArray :: "string \<Rightarrow> string list reading" where
  "readRESPArray s =
    (case ReadString s of
       Inl e \<Rightarrow> Inl e
     | Inr (line0, s1) \<Rightarrow>
         let line = trim_eol line0 in
         if line = [] \<or> hd line \<noteq> CHR ''*'' then Inl (Protocol (''expected RESP array, got '' @ go_quote line))
         else
           let n = atoi_value (tl line) in
           if n \<le> 0 then Inr ([], s1)
           else if make_panics n 16 then Inl Panic
           else read_bulks (nat n) s1)"

definition bulk :: "string \<Rightarrow> string" where
  "bulk arg = ''$'' @ show_nat (length arg) @ crlf @ arg @ crlf"

definition encodeRESPArray :: "string list \<Rightarrow> string" where
  "encodeRESPArray args = ''*'' @ show_nat (length args) @ crlf @ concat (map bulk args)"

section \<open>Replies\<close>

definition line_size :: "string \<Rightarrow> int" where
  "line_size line = atoi_value (trim_eol (tl line))"

text \<open>What follows the first line of a reply: nothing, a block of bytes, so many elements, or so many elements and the
value they annotate.\<close>

datatype reply_kind = Whole | Block | Elements nat | Attribute nat

definition kind_of :: "string \<Rightarrow> reply_kind" where
  "kind_of line =
    (let c = hd line; n = line_size line in
     if c \<in> {CHR ''$'', CHR ''='', CHR ''!''} then (if n < 0 then Whole else Block)
     else if c \<in> {CHR ''*'', CHR ''~'', CHR ''>''} then Elements (nat n)
     else if c = CHR ''%'' then Elements (nat (wrap64 (2 * n)))
     else if c = CHR ''|'' then Attribute (nat (wrap64 (2 * n)))
     else Whole)"

definition prepend :: "string \<Rightarrow> string reading option \<Rightarrow> string reading option" where
  "prepend v r = map_option (map_sum id (map_prod (append v) id)) r"

fun raw_value :: "nat \<Rightarrow> string \<Rightarrow> string reading option"
  and raw_values :: "nat \<Rightarrow> nat \<Rightarrow> string \<Rightarrow> string reading option" where
  "raw_value 0 s = None"
| "raw_value (Suc fuel) s =
    (case ReadString s of
       Inl e \<Rightarrow> Some (Inl e)
     | Inr (line, s1) \<Rightarrow>
         (case kind_of line of
            Whole \<Rightarrow> Some (Inr (line, s1))
          | Block \<Rightarrow> prepend line (Some (read_block (line_size line) s1))
          | Elements n \<Rightarrow> prepend line (raw_values fuel n s1)
          | Attribute n \<Rightarrow>
              (case raw_values fuel n s1 of
                 None \<Rightarrow> None
               | Some (Inl e) \<Rightarrow> Some (Inl e)
               | Some (Inr (pairs, s2)) \<Rightarrow> prepend (line @ pairs) (raw_value fuel s2))))"
| "raw_values fuel 0 s = Some (Inr ([], s))"
| "raw_values 0 (Suc n) s = None"
| "raw_values (Suc fuel) (Suc n) s =
    (case raw_value (Suc fuel) s of
       None \<Rightarrow> None
     | Some (Inl e) \<Rightarrow> Some (Inl e)
     | Some (Inr (elem, s1)) \<Rightarrow> prepend elem (raw_values fuel n s1))"

definition readRESPRaw :: "string \<Rightarrow> string reading option" where
  "readRESPRaw s = raw_value (Suc (length s)) s"

section \<open>Readers take what they return\<close>

lemma ReadString_split: "ReadString s = Inr (line, s1) \<Longrightarrow> s = line @ s1 \<and> line \<noteq> []"
proof -
  assume r: "ReadString s = Inr (line, s1)"
  then have m: "lf \<in> set s" by (simp add: ReadString_def split: if_splits)
  then have "dropWhile (\<lambda>c. c \<noteq> lf) s \<noteq> []" by simp
  moreover from this have "hd (dropWhile (\<lambda>c. c \<noteq> lf) s) = lf" using hd_dropWhile by blast
  ultimately have "dropWhile (\<lambda>c. c \<noteq> lf) s = lf # tl (dropWhile (\<lambda>c. c \<noteq> lf) s)" by (metis list.collapse)
  with r m show ?thesis by (auto simp: ReadString_def) (metis append.assoc append_Cons append_Nil takeWhile_dropWhile_id)
qed

lemma ReadString_line: "lf \<notin> set x \<Longrightarrow> ReadString (x @ lf # s) = Inr (x @ [lf], s)"
  by (simp add: ReadString_def takeWhile_append dropWhile_append takeWhile_eq_all_conv [THEN iffD2])

lemma read_block_split: "read_block sz s = Inr (d, s1) \<Longrightarrow> s = d @ s1"
  by (auto simp: read_block_def Let_def split: if_splits)

lemma prepend_simps [simp]:
  "prepend v None = None" "prepend v (Some (Inl e)) = Some (Inl e)" "prepend v (Some (Inr (u, r))) = Some (Inr (v @ u, r))"
  by (simp_all add: prepend_def)

lemma prepend_Some: "prepend v r = Some (Inr (w, rest)) \<longleftrightarrow> (\<exists>u. r = Some (Inr (u, rest)) \<and> w = v @ u)"
  by (cases r; cases "the r") (auto simp: prepend_def)

lemma prepend_None: "prepend v r = None \<longleftrightarrow> r = None"
  by (simp add: prepend_def)

lemma raw_split:
  "raw_value fuel s = Some (Inr (v, rest)) \<Longrightarrow> s = v @ rest \<and> v \<noteq> []"
  "raw_values fuel n s = Some (Inr (vs, rest)) \<Longrightarrow> s = vs @ rest"
proof (induction fuel s and fuel n s arbitrary: v rest and vs rest rule: raw_value_raw_values.induct)
  case (2 fuel s)
  obtain line s1 where l: "ReadString s = Inr (line, s1)" using "2.prems" by (auto split: sum.splits)
  note S = ReadString_split [OF l]
  show ?case
  proof (cases "kind_of line")
    case Whole
    then show ?thesis using "2.prems" S l by simp
  next
    case Block
    then show ?thesis using "2.prems" S l read_block_split by (auto simp: prepend_Some)
  next
    case (Elements n)
    then show ?thesis using "2.prems" S l "2.IH"(1) [OF l refl Elements] by (auto simp: prepend_Some)
  next
    case (Attribute n)
    then obtain pairs s2 u where p: "raw_values fuel n s1 = Some (Inr (pairs, s2))" "raw_value fuel s2 = Some (Inr (u, rest))" "v = line @ pairs @ u"
      using "2.prems" l by (auto simp: prepend_Some split: option.splits sum.splits)
    then show ?thesis using S "2.IH"(2) [OF l refl Attribute p(1)] "2.IH"(3) [OF l refl Attribute p(1) refl refl p(2)] by simp
  qed
next
  case (5 fuel n s)
  then show ?case by (auto simp: prepend_Some split: option.splits sum.splits)
qed auto

lemma raw_shrinks: "raw_value fuel s = Some (Inr (v, rest)) \<Longrightarrow> length rest < length s"
  using raw_split(1) [of fuel s v rest] by auto

lemma raw_total:
  "length s < fuel \<Longrightarrow> raw_value fuel s \<noteq> None"
  "length s < fuel \<Longrightarrow> raw_values fuel n s \<noteq> None"
proof (induction fuel s and fuel n s rule: raw_value_raw_values.induct)
  case (2 fuel s)
  show ?case
  proof (cases "ReadString s")
    case (Inr p)
    obtain line s1 where l: "ReadString s = Inr (line, s1)" using Inr by (cases p) auto
    have s1: "length s1 < fuel" using ReadString_split [OF l] "2.prems" by (cases line) auto
    show ?thesis
    proof (cases "kind_of line")
      case (Elements n)
      then show ?thesis using "2.IH"(1) [OF l refl Elements s1] l by (simp add: prepend_None)
    next
      case (Attribute n)
      have n: "raw_values fuel n s1 \<noteq> None" using "2.IH"(2) [OF l refl Attribute s1] .
      have "raw_value fuel s2 \<noteq> None" if r: "raw_values fuel n s1 = Some (Inr (pairs, s2))" for pairs s2
        using "2.IH"(3) [OF l refl Attribute r refl refl] raw_split(2) [OF r] s1 by simp
      with n show ?thesis using Attribute l by (auto simp: prepend_def split: option.splits sum.splits)
    qed (simp_all add: l prepend_None)
  qed simp
next
  case (5 fuel n s)
  have v: "raw_value (Suc fuel) s \<noteq> None" using 5(1,3) by simp
  have "raw_values fuel n s1 \<noteq> None" if r: "raw_value (Suc fuel) s = Some (Inr (e, s1))" for e s1
    using 5(2) [OF r refl refl] raw_shrinks [OF r] 5(3) by simp
  with v show ?case by (auto simp: prepend_def split: option.splits sum.splits)
qed auto


section \<open>One reply at a time\<close>

text \<open>Replies of the protocol, versions two and three: one-line values, blocks, null blocks, aggregates of elements,
maps as the list of their keys and values in turn, and annotated values.\<close>

datatype reply = Line char string | Bytes char string | Null char | Agg char "reply list" | Map "reply list" | Attr "reply list" reply

fun encode_reply :: "reply \<Rightarrow> string" where
  "encode_reply (Line c x) = c # x @ crlf"
| "encode_reply (Bytes c d) = c # show_nat (length d) @ crlf @ d @ crlf"
| "encode_reply (Null c) = c # ''-1'' @ crlf"
| "encode_reply (Agg c vs) = c # show_nat (length vs) @ crlf @ concat (map encode_reply vs)"
| "encode_reply (Map vs) = CHR ''%'' # show_nat (length vs div 2) @ crlf @ concat (map encode_reply vs)"
| "encode_reply (Attr vs v) = CHR ''|'' # show_nat (length vs div 2) @ crlf @ concat (map encode_reply vs) @ encode_reply v"

fun well_formed :: "reply \<Rightarrow> bool" where
  "well_formed (Line c x) \<longleftrightarrow> c \<in> set ''+-:_#,('' \<and> lf \<notin> set x"
| "well_formed (Bytes c d) \<longleftrightarrow> c \<in> set ''$=!'' \<and> int (length d) + 2 \<le> max_alloc"
| "well_formed (Null c) \<longleftrightarrow> c \<in> set ''$=!*''"
| "well_formed (Agg c vs) \<longleftrightarrow> c \<in> set ''*~>'' \<and> int (length vs) < 2 ^ 62 \<and> list_all well_formed vs"
| "well_formed (Map vs) \<longleftrightarrow> even (length vs) \<and> int (length vs) < 2 ^ 62 \<and> list_all well_formed vs"
| "well_formed (Attr vs v) \<longleftrightarrow> even (length vs) \<and> int (length vs) < 2 ^ 62 \<and> list_all well_formed vs \<and> well_formed v"

lemma crlf_line: "lf \<notin> set x \<Longrightarrow> ReadString (x @ crlf @ s) = Inr (x @ crlf, s)"
  using ReadString_line [of "x @ [cr]" s] by (simp add: crlf_def cr_def lf_def)

lemma digits_no_eol: "lf \<notin> set (show_nat n)" "cr \<notin> set (show_nat n)"
  using show_nat_digits [of n] by (auto simp: is_digit_def lf_def cr_def)

lemma trim_eol_crlf: "cr \<notin> set x \<Longrightarrow> lf \<notin> set x \<Longrightarrow> trim_eol (x @ crlf) = x"
  by (cases x rule: rev_cases) (auto simp: trim_eol_def crlf_def)

lemma atoi_value_show: "int n < 2 ^ 63 \<Longrightarrow> atoi_value (show_nat n) = int n"
  by (simp add: atoi_value_def atoi_show_nat)

lemma line_size_show: "int n < 2 ^ 63 \<Longrightarrow> line_size (c # show_nat n @ crlf) = int n"
  using trim_eol_crlf [OF digits_no_eol(2,1)] by (simp add: line_size_def atoi_value_show)

lemma line_size_null: "line_size (c # ''-1'' @ crlf) = - 1"
proof -
  have "trim_eol (''-1'' @ crlf) = ''-1''" by (rule trim_eol_crlf) (simp_all add: cr_def lf_def)
  moreover have "atoi_value ''-1'' = - 1" by code_simp
  ultimately show ?thesis by (simp add: line_size_def del: append.simps)
qed

lemma header_line: "c \<noteq> lf \<Longrightarrow> ReadString (c # show_nat n @ crlf @ s) = Inr (c # show_nat n @ crlf, s)"
  using crlf_line [of "c # show_nat n" s] digits_no_eol by simp

lemma raw_values_encoded:
  "(\<And>v rest fuel. v \<in> set vs \<Longrightarrow> length (encode_reply v @ rest) < fuel \<Longrightarrow> raw_value fuel (encode_reply v @ rest) = Some (Inr (encode_reply v, rest))) \<Longrightarrow>
   length (concat (map encode_reply vs) @ rest) < fuel \<Longrightarrow>
   raw_values fuel (length vs) (concat (map encode_reply vs) @ rest) = Some (Inr (concat (map encode_reply vs), rest))"
proof (induction vs arbitrary: fuel)
  case (Cons v vs)
  obtain f where f: "fuel = Suc f" using Cons.prems(2) by (cases fuel) auto
  let ?r = "concat (map encode_reply vs) @ rest"
  have v: "raw_value fuel (encode_reply v @ ?r) = Some (Inr (encode_reply v, ?r))"
    using Cons.prems by (intro Cons.prems(1)) auto
  have "encode_reply v \<noteq> []" by (cases v) auto
  then have "length ?r < f" using Cons.prems(2) f by (cases "encode_reply v") auto
  then have "raw_values f (length vs) ?r = Some (Inr (concat (map encode_reply vs), rest))"
    using Cons.prems(1) by (intro Cons.IH) auto
  with v f show ?case by simp
qed simp

lemma read_block_exact:
  "int (length d) + 2 \<le> max_alloc \<Longrightarrow> read_block (int (length d)) (d @ crlf @ rest) = Inr (d @ crlf, rest)"
proof -
  assume "int (length d) + 2 \<le> max_alloc"
  moreover have "wrap64 (int (length d) + 2) = int (length d) + 2"
    using calculation by (intro wrap64_id) (auto simp: max_alloc_def)
  moreover have "nat (int (length d) + 2) = length (d @ crlf)" by (simp add: crlf_def)
  moreover have "take (length (d @ crlf)) (d @ crlf @ rest) = d @ crlf" "drop (length (d @ crlf)) (d @ crlf @ rest) = rest"
    "\<not> length (d @ crlf @ rest) < length (d @ crlf)" by simp_all
  ultimately show ?thesis by (simp add: read_block_def make_panics_def Let_def del: length_append take_append drop_append)
qed

lemma half_small: "int n < 2 ^ 62 \<Longrightarrow> int (n div 2) < 2 ^ 63"
  by (rule order_le_less_trans [of _ "int n"]) auto

lemma even_pairs: "even (length vs) \<Longrightarrow> int (length vs) < 2 ^ 62 \<Longrightarrow> nat (wrap64 (2 * int (length vs div 2))) = length vs"
proof -
  assume e: "even (length vs)" and l: "int (length vs) < 2 ^ 62"
  then have "2 * int (length vs div 2) = int (length vs)" by (auto elim: evenE)
  then show ?thesis using l by (simp add: wrap64_id)
qed

text \<open>The first line of a reply and what it announces.\<close>

lemma encoded_kinds:
  "c \<in> set ''+-:_#,('' \<Longrightarrow> kind_of (c # x) = Whole"
  "c \<in> set ''$=!'' \<Longrightarrow> int n < 2 ^ 63 \<Longrightarrow> kind_of (c # show_nat n @ crlf) = Block"
  "c \<in> set ''$=!'' \<Longrightarrow> kind_of (c # ''-1'' @ crlf) = Whole"
  "kind_of (''*-1'' @ crlf) = Elements 0"
  "c \<in> set ''*~>'' \<Longrightarrow> int n < 2 ^ 63 \<Longrightarrow> kind_of (c # show_nat n @ crlf) = Elements n"
  "int n < 2 ^ 63 \<Longrightarrow> kind_of (CHR ''%'' # show_nat n @ crlf) = Elements (nat (wrap64 (2 * int n)))"
  "int n < 2 ^ 63 \<Longrightarrow> kind_of (CHR ''|'' # show_nat n @ crlf) = Attribute (nat (wrap64 (2 * int n)))"
  using line_size_null [of c] line_size_null [of "CHR ''*''"] line_size_show [of n c] line_size_show [of n "CHR ''%''"] line_size_show [of n "CHR ''|''"]
  by (auto simp: kind_of_def Let_def)

lemma raw_value_encoded:
  "well_formed v \<Longrightarrow> length (encode_reply v @ rest) < fuel \<Longrightarrow> raw_value fuel (encode_reply v @ rest) = Some (Inr (encode_reply v, rest))"
proof (induction v arbitrary: rest fuel)
  case (Line c x)
  then obtain f where f: "fuel = Suc f" by (cases fuel) auto
  have "ReadString (c # x @ crlf @ rest) = Inr (c # x @ crlf, rest)"
    using Line(1) crlf_line [of "c # x" rest] by (auto simp: lf_def)
  then show ?case using f encoded_kinds(1) [of c] Line(1) by simp
next
  case (Bytes c d)
  then obtain f where f: "fuel = Suc f" by (cases fuel) auto
  have n: "int (length d) < 2 ^ 63" using Bytes(1) by (simp add: max_alloc_def)
  have "c \<noteq> lf" using Bytes(1) by (auto simp: lf_def)
  from header_line [OF this] encoded_kinds(2) [OF _ n, of c] read_block_exact [of d rest] line_size_show [OF n, of c] show ?case
    using f Bytes(1) by simp
next
  case (Null c)
  then obtain f where f: "fuel = Suc f" by (cases fuel) auto
  have "c \<noteq> lf" using Null(1) by (auto simp: lf_def)
  then have l: "ReadString (c # ''-1'' @ crlf @ rest) = Inr (c # ''-1'' @ crlf, rest)"
    using crlf_line [of "c # ''-1''" rest] by (simp add: lf_def)
  show ?case
  proof (cases "c = CHR ''*''")
    case True
    then show ?thesis using l f encoded_kinds(4) by simp
  next
    case False
    then show ?thesis using l f encoded_kinds(3) [of c] Null(1) by simp
  qed
next
  case (Agg c vs)
  then obtain f where f: "fuel = Suc f" by (cases fuel) auto
  have n: "int (length vs) < 2 ^ 63" "c \<noteq> lf" using Agg(2) by (auto simp: lf_def)
  have "raw_values f (length vs) (concat (map encode_reply vs) @ rest) = Some (Inr (concat (map encode_reply vs), rest))"
    using Agg f by (intro raw_values_encoded) (auto simp: list_all_iff)
  then show ?case using f Agg(2) header_line [OF n(2), of "length vs"] encoded_kinds(5) [OF _ n(1), of c] by simp
next
  case (Map vs)
  then obtain f where f: "fuel = Suc f" by (cases fuel) auto
  have n: "int (length vs div 2) < 2 ^ 63" using Map(2) half_small by simp
  have "raw_values f (length vs) (concat (map encode_reply vs) @ rest) = Some (Inr (concat (map encode_reply vs), rest))"
    using Map f by (intro raw_values_encoded) (auto simp: list_all_iff)
  then show ?case
    using f Map(2) header_line [of "CHR ''%''" "length vs div 2"] encoded_kinds(6) [OF n] even_pairs [of vs] by (simp add: lf_def)
next
  case (Attr vs v)
  then obtain f where f: "fuel = Suc f" by (cases fuel) auto
  have n: "int (length vs div 2) < 2 ^ 63" using Attr(3) half_small by simp
  have "raw_values f (length vs) (concat (map encode_reply vs) @ encode_reply v @ rest) =
      Some (Inr (concat (map encode_reply vs), encode_reply v @ rest))"
    using Attr f by (intro raw_values_encoded) (auto simp: list_all_iff)
  moreover have "raw_value f (encode_reply v @ rest) = Some (Inr (encode_reply v, rest))" using Attr f by simp
  ultimately show ?case
    using f Attr(3) header_line [of "CHR ''|''" "length vs div 2"] encoded_kinds(7) [OF n] even_pairs [of vs] by (simp add: lf_def)
qed

text \<open>From a stream that begins with a well-formed reply exactly that reply is taken, whatever follows.\<close>

lemma reply_read_exact:
  "well_formed v \<Longrightarrow> readRESPRaw (encode_reply v @ rest) = Some (Inr (encode_reply v, rest))"
  unfolding readRESPRaw_def by (rule raw_value_encoded) auto

section \<open>Commands are read back\<close>

lemma bulk_append: "bulk a @ s = CHR ''$'' # show_nat (length a) @ crlf @ a @ crlf @ s"
  by (simp add: bulk_def)

lemma read_bulks_encoded:
  "(\<And>a. a \<in> set args \<Longrightarrow> int (length a) + 2 \<le> max_alloc) \<Longrightarrow>
    read_bulks (length args) (concat (map bulk args) @ rest) = Inr (args, rest)"
proof (induction args)
  case (Cons a args)
  have n: "int (length a) + 2 \<le> max_alloc" using Cons.prems by simp
  then have m: "int (length a) < 2 ^ 63" by (simp add: max_alloc_def)
  let ?r = "concat (map bulk args) @ rest"
  have "ReadString (CHR ''$'' # show_nat (length a) @ crlf @ a @ crlf @ ?r) = Inr (CHR ''$'' # show_nat (length a) @ crlf, a @ crlf @ ?r)"
    by (rule header_line) (simp add: lf_def)
  moreover have "trim_eol (CHR ''$'' # show_nat (length a) @ crlf) = CHR ''$'' # show_nat (length a)"
    using trim_eol_crlf [of "CHR ''$'' # show_nat (length a)"] digits_no_eol by (simp add: cr_def lf_def)
  ultimately show ?case
    using Cons read_block_exact [OF n, of ?r] atoi_value_show [OF m] by (simp add: bulk_append)
qed simp

lemma command_read_back:
  assumes "args \<noteq> []" "int (length args) * 16 \<le> max_alloc" "\<And>a. a \<in> set args \<Longrightarrow> int (length a) + 2 \<le> max_alloc"
  shows "readRESPArray (encodeRESPArray args @ rest) = Inr (args, rest)"
proof -
  have m: "int (length args) < 2 ^ 63" using assms(2) by (simp add: max_alloc_def)
  have "ReadString (CHR ''*'' # show_nat (length args) @ crlf @ concat (map bulk args) @ rest) =
      Inr (CHR ''*'' # show_nat (length args) @ crlf, concat (map bulk args) @ rest)"
    by (rule header_line) (simp add: lf_def)
  moreover have "trim_eol (CHR ''*'' # show_nat (length args) @ crlf) = CHR ''*'' # show_nat (length args)"
    using trim_eol_crlf [of "CHR ''*'' # show_nat (length args)"] digits_no_eol by (simp add: cr_def lf_def)
  moreover have "\<not> make_panics (int (length args)) 16" using assms(2) m by (simp add: make_panics_def wrap64_id)
  ultimately show ?thesis
    using read_bulks_encoded [OF assms(3)] atoi_value_show [OF m] assms(1) by (simp add: readRESPArray_def encodeRESPArray_def)
qed

text \<open>An array header that announces more than can be allocated stops the program, and a null argument is forwarded as
an empty one.\<close>

lemma huge_array_panics:
  assumes "max_alloc < int n * 16" "int n < 2 ^ 63"
  shows "readRESPArray (''*'' @ show_nat n @ crlf @ rest) = Inl Panic"
proof -
  have "trim_eol (CHR ''*'' # show_nat n @ crlf) = CHR ''*'' # show_nat n"
    using trim_eol_crlf [of "CHR ''*'' # show_nat n"] digits_no_eol by (simp add: cr_def lf_def)
  then show ?thesis
    using header_line [of "CHR ''*''" n rest] atoi_value_show [OF assms(2)] assms
    by (simp add: readRESPArray_def make_panics_def wrap64_id lf_def max_alloc_def)
qed

lemma null_argument_emptied:
  "readRESPArray (''*2'' @ crlf @ bulk ''GET'' @ ''$-1'' @ crlf) = Inr ([''GET'', []], [])"
  by code_simp

end
