(* ===== verification/Redis_Proxy.thy ===== *)
theory Redis_Proxy
  imports Resp_Wire Proxy_Manager
begin

text \<open>One connection through the Redis proxy: \<^verbatim>\<open>handleConn\<close> of \<^verbatim>\<open>internal/proxy/redis.go\<close> with the byte counters and events of
its connection tracker (\<^verbatim>\<open>internal/proxy/observability.go\<close>).

A connection is the bytes each side will send and the bytes each side was sent. The rules can change while a connection is
served; \<open>rules_at k\<close> are those in force when command number \<open>k\<close> is handled, and \<open>draw\<close> is the sequence of random numbers.
The reader of replies always returns, so its missing value is never met. Writes succeed and the context is not cancelled;
waiting is recorded, not performed. Events carry their type and the fields that are not identifiers or times.

Shown: the loop ends; and, command by command, the proxy either answers in place of the server, which then sees nothing of
the command, or hands the command and one complete reply through unchanged.\<close>

section \<open>Rules\<close>

datatype verdict = Answer string | Forward | Drop

record ruling =
  outcome :: verdict
  drawn :: nat
  slept :: "int list"
  reported :: "(string \<times> (string \<rightharpoonup> string)) list"

definition error_reply :: "Rule \<Rightarrow> string" where
  "error_reply r = (if RError r = [] then ''ERR injected fault'' else RError r)"

fun redis_rules :: "(nat \<Rightarrow> rat) \<Rightarrow> string \<Rightarrow> string \<Rightarrow> Rule list \<Rightarrow> nat \<Rightarrow> ruling" where
  "redis_rules draw command k [] n = \<lparr>outcome = Forward, drawn = n, slept = [], reported = []\<rparr>"
| "redis_rules draw command k (r # rs) n =
    (if \<not> MatchRequest r [] [] [] k [] command then redis_rules draw command k rs n
     else
       let chance = flt (Fin 0) (Prob r); n' = (if chance then Suc n else n) in
       if chance \<and> flt (Prob r) (Fin (draw n)) then redis_rules draw command k rs n'
       else
         let waited = (if 0 < RDelay r then [RDelay r] else []) in
         (case RAction r of
            ActionError \<Rightarrow>
              \<lparr>outcome = Answer (''-'' @ error_reply r @ crlf), drawn = n', slept = waited,
               reported = [(''error'', [''command'' \<mapsto> command, ''key'' \<mapsto> k, ''error'' \<mapsto> error_reply r])]\<rparr>
          | ActionRespond \<Rightarrow>
              \<lparr>outcome = Answer (if Body r = [] then ''$-1'' @ crlf else bulk (Body r)), drawn = n', slept = waited,
               reported = [(''respond'', [''command'' \<mapsto> command, ''key'' \<mapsto> k])]\<rparr>
          | ActionDrop \<Rightarrow> \<lparr>outcome = Drop, drawn = n', slept = waited, reported = []\<rparr>
          | ActionDelay \<Rightarrow>
              (let rest = redis_rules draw command k rs n' in
               rest\<lparr>slept := waited @ slept rest,
                 reported := (''delay'', [''command'' \<mapsto> command, ''key'' \<mapsto> k, ''delay_ms'' \<mapsto> show_int (go_div (RDelay r) 1000000)]) # reported rest\<rparr>)
          | ActionDuplicate \<Rightarrow> (let rest = redis_rules draw command k rs n' in rest\<lparr>slept := waited @ slept rest\<rparr>)))"

section \<open>The connection\<close>

record rconn =
  client_in :: string
  server_in :: string
  to_client :: string
  to_server :: string
  bytesC2S :: int
  bytesS2C :: int
  commandsServed :: nat
  randoms :: nat
  waits :: "int list"
  plog :: "(string \<times> (string \<rightharpoonup> string)) list"

datatype ending = Closed string | Crashed

definition classifyCloseReason :: "io_error \<Rightarrow> string \<Rightarrow> ending" where
  "classifyCloseReason e side =
    (if e = Panic then Crashed
     else Closed (if e = EOF then (if side = ''client'' then ''client_eof'' else ''server_eof'') else ''io_error''))"

definition auth_method :: "string \<Rightarrow> string" where
  "auth_method command = (if command = ''HELLO'' then ''hello'' else if command = ''AUTH'' then ''auth'' else [])"

definition handshake :: "string \<Rightarrow> rconn \<Rightarrow> rconn" where
  "handshake command c =
    (let c = c\<lparr>commandsServed := Suc (commandsServed c)\<rparr> in
     if commandsServed c = 1
     then c\<lparr>plog := plog c @ [(''proxy_handshake_complete'',
            if auth_method command \<noteq> [] then [''auth_method'' \<mapsto> auth_method command] else Map.empty)]\<rparr>
     else c)"

text \<open>One pass of the loop: \<^const>\<open>None\<close> when the connection goes on.\<close>

definition forward :: "string list \<Rightarrow> rconn \<Rightarrow> ending option \<times> rconn" where
  "forward args c =
    (let raw = encodeRESPArray args; c = c\<lparr>bytesC2S := bytesC2S c + int (length raw), to_server := to_server c @ raw\<rparr> in
     case readRESPRaw (server_in c) of
       None \<Rightarrow> (Some (Closed ''io_error''), c)
     | Some (Inl e) \<Rightarrow> (Some (classifyCloseReason e ''server''), c)
     | Some (Inr (resp, rest)) \<Rightarrow>
         (None, handshake (to_upper (hd args))
            (c\<lparr>server_in := rest, bytesS2C := bytesS2C c + int (length resp), to_client := to_client c @ resp\<rparr>)))"

definition ruling_of :: "(nat \<Rightarrow> rat) \<Rightarrow> Rule list \<Rightarrow> string list \<Rightarrow> nat \<Rightarrow> ruling" where
  "ruling_of draw rl args n = redis_rules draw (to_upper (args ! 0)) (if 1 < length args then args ! 1 else []) rl n"

definition settle :: "ruling \<Rightarrow> string \<Rightarrow> rconn \<Rightarrow> rconn" where
  "settle v rest c = c\<lparr>client_in := rest, randoms := drawn v, waits := waits c @ slept v, plog := plog c @ reported v\<rparr>"

definition redis_step :: "(nat \<Rightarrow> rat) \<Rightarrow> Rule list \<Rightarrow> rconn \<Rightarrow> ending option \<times> rconn" where
  "redis_step draw rl c =
    (case readRESPArray (client_in c) of
       Inl e \<Rightarrow> (Some (classifyCloseReason e ''client''), c)
     | Inr (args, rest) \<Rightarrow>
         if args = [] then (None, c\<lparr>client_in := rest\<rparr>)
         else
           let v = ruling_of draw rl args (randoms c); c = settle v rest c in
           (case outcome v of
              Answer s \<Rightarrow> (None, c\<lparr>to_client := to_client c @ s\<rparr>)
            | Drop \<Rightarrow> (Some (Closed ''client_eof''), c)
            | Forward \<Rightarrow> forward args c))"

fun redis_loop :: "nat \<Rightarrow> (nat \<Rightarrow> rat) \<Rightarrow> (nat \<Rightarrow> Rule list) \<Rightarrow> nat \<Rightarrow> rconn \<Rightarrow> (ending \<times> rconn) option" where
  "redis_loop 0 draw rules_at i c = None"
| "redis_loop (Suc fuel) draw rules_at i c =
    (case redis_step draw (rules_at i) c of
       (Some e, c') \<Rightarrow> Some (e, c')
     | (None, c') \<Rightarrow> redis_loop fuel draw rules_at (Suc i) c')"

text \<open>The deferred call also runs when the goroutine panics, with the reason it was set to at first.\<close>

definition emit_close :: "ending \<times> rconn \<Rightarrow> ending \<times> rconn" where
  "emit_close p =
    (let (e, c) = p; reason = (case e of Closed r \<Rightarrow> r | Crashed \<Rightarrow> ''client_eof'') in
     (e, c\<lparr>plog := plog c @ [(''proxy_conn_close'',
        [''bytes_c2s'' \<mapsto> show_int (bytesC2S c), ''bytes_s2c'' \<mapsto> show_int (bytesS2C c), ''reason'' \<mapsto> reason])]\<rparr>))"

definition handleConn :: "(nat \<Rightarrow> rat) \<Rightarrow> (nat \<Rightarrow> Rule list) \<Rightarrow> string \<Rightarrow> string \<Rightarrow> (ending \<times> rconn) option" where
  "handleConn draw rules_at client server =
    map_option emit_close (redis_loop (Suc (length client)) draw rules_at 0
      \<lparr>client_in = client, server_in = server, to_client = [], to_server = [], bytesC2S = 0, bytesS2C = 0, commandsServed = 0, randoms = 0,
       waits = [], plog = [(''proxy_conn_open'', Map.empty)]\<rparr>)"

section \<open>The loop ends\<close>

lemma read_bulks_shrinks: "read_bulks n s = Inr (args, rest) \<Longrightarrow> length rest \<le> length s"
proof (induction n arbitrary: s args)
  case (Suc n)
  obtain line s1 where l: "ReadString s = Inr (line, s1)" using Suc.prems by (auto split: sum.splits)
  have "length s1 \<le> length s" using ReadString_split [OF l] by auto
  then show ?case using Suc.prems l read_block_split
    by (force simp: Let_def split: sum.splits if_splits dest: Suc.IH)
qed simp

lemma readRESPArray_shrinks: "readRESPArray s = Inr (args, rest) \<Longrightarrow> length rest < length s"
proof -
  assume r: "readRESPArray s = Inr (args, rest)"
  then obtain line s1 where l: "ReadString s = Inr (line, s1)" by (auto simp: readRESPArray_def split: sum.splits)
  then have "length s1 < length s" using ReadString_split [OF l] by (cases line) auto
  moreover have "length rest \<le> length s1"
    using r l read_bulks_shrinks by (auto simp: readRESPArray_def Let_def split: if_splits)
  ultimately show ?thesis by simp
qed

lemma forward_client_in: "client_in (snd (forward args c)) = client_in c"
  by (auto simp: forward_def handshake_def Let_def split: option.splits sum.splits)

lemma redis_step_shrinks: "redis_step draw rl c = (None, c') \<Longrightarrow> length (client_in c') < length (client_in c)"
proof -
  assume s: "redis_step draw rl c = (None, c')"
  then obtain args rest where r: "readRESPArray (client_in c) = Inr (args, rest)" by (auto simp: redis_step_def split: sum.splits)
  have "client_in c' = rest"
  proof (cases "args = []")
    case True
    then show ?thesis using s r by (auto simp: redis_step_def)
  next
    case False
    then show ?thesis
      using s r forward_client_in [of args "settle (ruling_of draw rl args (randoms c)) rest c"]
      by (cases "outcome (ruling_of draw rl args (randoms c))") (auto simp: redis_step_def Let_def settle_def)
  qed
  then show ?thesis using readRESPArray_shrinks [OF r] by simp
qed

lemma redis_loop_total: "length (client_in c) < fuel \<Longrightarrow> redis_loop fuel draw rules_at i c \<noteq> None"
proof (induction fuel arbitrary: i c)
  case (Suc fuel)
  show ?case
  proof (cases "redis_step draw (rules_at i) c")
    case (Pair e c')
    then show ?thesis using Suc redis_step_shrinks [of draw "rules_at i" c c'] by (cases e) fastforce+
  qed
qed simp

section \<open>Command by command\<close>

text \<open>What a mediator does that works on whole commands and replies: the bytes the server is sent and the bytes the client
is sent, unless a rule drops the connection or the server has no reply left.\<close>

fun mediated :: "(nat \<Rightarrow> rat) \<Rightarrow> (nat \<Rightarrow> Rule list) \<Rightarrow> nat \<Rightarrow> nat \<Rightarrow> string list list \<Rightarrow> reply list \<Rightarrow> (string \<times> string) option" where
  "mediated draw rules_at i n [] vs = Some ([], [])"
| "mediated draw rules_at i n (args # cs) vs =
    (let v = ruling_of draw (rules_at i) args n in
     case outcome v of
       Drop \<Rightarrow> None
     | Answer s \<Rightarrow> map_option (map_prod id (append s)) (mediated draw rules_at (Suc i) (drawn v) cs vs)
     | Forward \<Rightarrow>
         (case vs of
            [] \<Rightarrow> None
          | w # ws \<Rightarrow> map_option (map_prod (append (encodeRESPArray args)) (append (encode_reply w)))
              (mediated draw rules_at (Suc i) (drawn v) cs ws)))"

definition sendable :: "string list \<Rightarrow> bool" where
  "sendable args \<longleftrightarrow> args \<noteq> [] \<and> int (length args) * 16 \<le> max_alloc \<and> (\<forall>a\<in>set args. int (length a) + 2 \<le> max_alloc)"

lemma redis_loop_mediates:
  assumes "list_all sendable cs" "list_all well_formed vs" "mediated draw rules_at i (randoms c) cs vs = Some (x, y)"
    and "client_in c = concat (map encodeRESPArray cs)" "server_in c = concat (map encode_reply vs) @ tail"
    and "length cs < fuel"
  shows "\<exists>c'. redis_loop fuel draw rules_at i c = Some (Closed ''client_eof'', c') \<and>
    to_server c' = to_server c @ x \<and> to_client c' = to_client c @ y"
  using assms
proof (induction cs arbitrary: vs i c x y fuel)
  case Nil
  then obtain f where "fuel = Suc f" by (cases fuel) auto
  moreover have "readRESPArray [] = Inl EOF" by (simp add: readRESPArray_def ReadString_def)
  ultimately show ?case using Nil by (simp add: redis_step_def classifyCloseReason_def)
next
  case (Cons args cs)
  then obtain f where f: "fuel = Suc f" "length cs < f" by (cases fuel) auto
  let ?rest = "concat (map encodeRESPArray cs)" and ?v = "ruling_of draw (rules_at i) args (randoms c)"
  have "args \<noteq> []" using Cons.prems(1) by (simp add: sendable_def)
  have r: "readRESPArray (client_in c) = Inr (args, ?rest)"
    using Cons.prems(1,4) command_read_back [of args ?rest] by (simp add: sendable_def)
  define c1 where "c1 = settle ?v ?rest c"
  have step: "redis_step draw (rules_at i) c =
      (case outcome ?v of Answer s \<Rightarrow> (None, c1\<lparr>to_client := to_client c1 @ s\<rparr>) | Drop \<Rightarrow> (Some (Closed ''client_eof''), c1)
       | Forward \<Rightarrow> forward args c1)"
    using \<open>args \<noteq> []\<close> unfolding c1_def by (simp add: redis_step_def r Let_def)
  show ?case
  proof (cases "outcome ?v")
    case (Answer s)
    obtain y' where y: "mediated draw rules_at (Suc i) (drawn ?v) cs vs = Some (x, y')" "y = s @ y'"
      using Cons.prems(3) Answer by (auto simp: Let_def)
    have "\<exists>c'. redis_loop f draw rules_at (Suc i) (c1\<lparr>to_client := to_client c1 @ s\<rparr>) = Some (Closed ''client_eof'', c') \<and>
        to_server c' = to_server (c1\<lparr>to_client := to_client c1 @ s\<rparr>) @ x \<and> to_client c' = to_client (c1\<lparr>to_client := to_client c1 @ s\<rparr>) @ y'"
      using Cons.prems y f by (intro Cons.IH) (simp_all add: c1_def settle_def)
    then show ?thesis using f step Answer y(2) by (simp add: c1_def settle_def)
  next
    case Forward
    then obtain w ws x' y' where w: "vs = w # ws" "mediated draw rules_at (Suc i) (drawn ?v) cs ws = Some (x', y')"
      "x = encodeRESPArray args @ x'" "y = encode_reply w @ y'"
      using Cons.prems(3) by (auto simp: Let_def split: list.splits)
    let ?srest = "concat (map encode_reply ws) @ tail"
    have "readRESPRaw (server_in c) = Some (Inr (encode_reply w, ?srest))"
      using Cons.prems(2,5) w(1) reply_read_exact [of w ?srest] by simp
    then obtain c2 where c2: "forward args c1 = (None, c2)" "client_in c2 = ?rest" "server_in c2 = ?srest" "randoms c2 = drawn ?v"
      "to_server c2 = to_server c @ encodeRESPArray args" "to_client c2 = to_client c @ encode_reply w"
      by (simp add: forward_def handshake_def c1_def settle_def Let_def)
    have "\<exists>c'. redis_loop f draw rules_at (Suc i) c2 = Some (Closed ''client_eof'', c') \<and>
        to_server c' = to_server c2 @ x' \<and> to_client c' = to_client c2 @ y'"
      using Cons.prems w f c2 by (intro Cons.IH) simp_all
    then show ?thesis using f step Forward c2 w by simp
  next
    case Drop
    then show ?thesis using Cons.prems(3) by (simp add: Let_def)
  qed
qed

text \<open>C24. A connection through the proxy behaves like a mediator of whole commands and replies: a command a rule answers
never reaches the server, every other command reaches it unchanged and in order, and the client is sent exactly the
injected answers and the server's replies, in the order of its commands.\<close>

theorem redis_proxy_mediates:
  assumes "list_all sendable cs" "list_all well_formed vs" "mediated draw rules_at 0 0 cs vs = Some (x, y)"
  shows "\<exists>c. handleConn draw rules_at (concat (map encodeRESPArray cs)) (concat (map encode_reply vs) @ tail) =
    Some (Closed ''client_eof'', c) \<and> to_server c = x \<and> to_client c = y"
proof -
  let ?c = "\<lparr>client_in = concat (map encodeRESPArray cs), server_in = concat (map encode_reply vs) @ tail, to_client = [], to_server = [],
    bytesC2S = 0, bytesS2C = 0, commandsServed = 0, randoms = 0, waits = [], plog = [(''proxy_conn_open'', Map.empty)]\<rparr>"
  have "length xs \<le> length (concat (map encodeRESPArray xs))" for xs
    by (induction xs) (auto simp: encodeRESPArray_def)
  then have "length cs < Suc (length (client_in ?c))" by (simp add: le_imp_less_Suc)
  from redis_loop_mediates [of cs vs draw rules_at 0 ?c x y tail, OF assms(1,2) _ _ _ this] assms(3)
  show ?thesis by (auto simp: handleConn_def emit_close_def)
qed

definition no_get :: Rule where
  "no_get = \<lparr>RMethod = [], RPath = [], RQuery = [], RKey = [], RTopic = [], RCommand = ''get'', RAction = ActionError, Status = 0,
     Body = [], RError = ''ERR down'', RDelay = 0, Prob = Fin 0\<rparr>"

theorem redis_proxy_mediates_witness:
  "\<exists>c. handleConn (\<lambda>_. 0) (\<lambda>_. [no_get]) (concat (map encodeRESPArray [[''GET'', ''k''], [''SET'', ''k'', ''v'']]))
     (concat (map encode_reply [Line CHR ''+'' ''OK'']) @ []) = Some (Closed ''client_eof'', c) \<and>
   to_server c = encodeRESPArray [''SET'', ''k'', ''v''] \<and> to_client c = ''-ERR down'' @ crlf @ ''+OK'' @ crlf"
proof (rule redis_proxy_mediates)
  show "list_all sendable [[''GET'', ''k''], [''SET'', ''k'', ''v'']]" by (simp add: sendable_def max_alloc_def)
  show "list_all well_formed [Line CHR ''+'' ''OK'']" by (simp add: lf_def)
  show "mediated (\<lambda>_. 0) (\<lambda>_. [no_get]) 0 0 [[''GET'', ''k''], [''SET'', ''k'', ''v'']] [Line CHR ''+'' ''OK''] =
      Some (encodeRESPArray [''SET'', ''k'', ''v''], ''-ERR down'' @ crlf @ ''+OK'' @ crlf)"
  proof -
    have "outcome (ruling_of (\<lambda>_. 0) [no_get] [''GET'', ''k''] 0) = Answer (''-ERR down'' @ crlf)"
      "drawn (ruling_of (\<lambda>_. 0) [no_get] [''GET'', ''k''] 0) = 0"
      "outcome (ruling_of (\<lambda>_. 0) [no_get] [''SET'', ''k'', ''v''] 0) = Forward"
      by code_simp+
    then show ?thesis by (simp add: Let_def)
  qed
qed

text \<open>Without a matching rule the proxy is transparent.\<close>

lemma unmatched_forwarded: "(\<And>r. r \<in> set rl \<Longrightarrow> \<not> MatchRequest r [] [] [] k [] command) \<Longrightarrow> outcome (redis_rules draw command k rl n) = Forward"
  by (induction rl) auto

lemma redis_proxy_transparent:
  assumes "\<And>i args r. args \<in> set cs \<Longrightarrow> r \<in> set (rules_at i) \<Longrightarrow>
      \<not> MatchRequest r [] [] [] (if 1 < length args then args ! 1 else []) [] (to_upper (args ! 0))"
    and "length vs = length cs"
  shows "mediated draw rules_at i n cs vs = Some (concat (map encodeRESPArray cs), concat (map encode_reply vs))"
  using assms
proof (induction cs arbitrary: vs i n)
  case (Cons args cs)
  then obtain w ws where "vs = w # ws" by (cases vs) auto
  moreover have "outcome (ruling_of draw (rules_at i) args n) = Forward"
    unfolding ruling_of_def using Cons.prems(1) by (intro unmatched_forwarded) simp
  ultimately show ?case using Cons by (simp add: Let_def)
qed simp

end
