(* ===== verification/Conn_Owner.thy ===== *)
theory Conn_Owner
  imports Go_Prelude
begin

text \<open>Attribution of connections to managed processes: \<^verbatim>\<open>internal/connowner/tracker.go\<close>.

Bindings live on the heap: they are the entries of a list, named by their position. Each operation is one step on the
tracker. What the process table says is the argument \<open>world\<close>: the start time of a process, and whether a registered
process tree owns a connection and whether that could be established completely (\<^verbatim>\<open>ownsConnection\<close>). Registrations are
listed in the order in which Go visits the map.

Shown: resolving a binding terminates although bridges may form a cycle; a source is reported only on proof, along
bridges to exactly one active owner; the answer does not depend on the order of the map; a registration that was
removed is never active again; and removing a bridge leaves every other one alone.\<close>

section \<open>State\<close>

record Source =
  srcService :: string
  srcInstance :: string
  srcPID :: int

definition no_source :: Source where
  "no_source = \<lparr>srcService = [], srcInstance = [], srcPID = 0\<rparr>"

definition source_Known :: "Source \<Rightarrow> bool" where
  "source_Known s \<longleftrightarrow> srcInstance s \<noteq> []"

record registration =
  regSource :: Source
  regStart :: nat
  regToken :: nat

record 't Binding =
  bTuple :: 't
  bValid :: bool
  bClosed :: bool
  bSource :: Source

record 't Tracker =
  trIdentity :: string
  trNext :: nat
  registrations :: "(string \<times> registration) list"
  bridges :: "('t \<times> nat \<times> nat) list" \<comment> \<open>tuple, token, binding\<close>
  bindings :: "'t Binding list"

record 't world =
  processStart :: "int \<Rightarrow> nat option"
  ownsConnection :: "registration \<Rightarrow> 't \<Rightarrow> bool \<times> bool"

definition newTracker :: "string \<Rightarrow> 't Tracker" where
  "newTracker ident = \<lparr>trIdentity = ident, trNext = 0, registrations = [], bridges = [], bindings = []\<rparr>"

section \<open>Registrations\<close>

definition instance_name :: "string \<Rightarrow> int \<Rightarrow> nat \<Rightarrow> nat \<Rightarrow> string" where
  "instance_name ident pid start token = ident @ ''/'' @ show_int pid @ ''/'' @ show_nat start @ ''/'' @ show_nat token"

definition Register :: "'t world \<Rightarrow> string \<Rightarrow> int \<Rightarrow> 't Tracker \<Rightarrow> registration res \<times> 't Tracker" where
  "Register w service pid t =
    (if service = [] \<or> pid \<le> 0 then (Inl ''connection owner requires a service and positive managed root PID'', t)
     else
       case processStart w pid of
         None \<Rightarrow> (Inl (''register connection owner '' @ go_quote service @ '' PID '' @ show_int pid), t)
       | Some start \<Rightarrow>
           let token = trNext t + 1;
               reg = \<lparr>regSource = \<lparr>srcService = service, srcInstance = instance_name (trIdentity t) pid start token, srcPID = pid\<rparr>,
                      regStart = start, regToken = token\<rparr>
           in (Inr reg, t\<lparr>trNext := token, registrations := (srcInstance (regSource reg), reg) # registrations t\<rparr>))"

text \<open>The function that \<^verbatim>\<open>Register\<close> returns.\<close>

definition unregister :: "registration \<Rightarrow> 't Tracker \<Rightarrow> 't Tracker" where
  "unregister reg t =
    (case map_of (registrations t) (srcInstance (regSource reg)) of
       Some current \<Rightarrow>
         if regToken current = regToken reg
         then t\<lparr>registrations := filter (\<lambda>(i, _). i \<noteq> srcInstance (regSource reg)) (registrations t)\<rparr> else t
     | None \<Rightarrow> t)"

definition IsActive :: "'t world \<Rightarrow> 't Tracker \<Rightarrow> Source \<Rightarrow> bool" where
  "IsActive w t source =
    (if \<not> source_Known source then False
     else
       case map_of (registrations t) (srcInstance source) of
         None \<Rightarrow> False
       | Some reg \<Rightarrow> if regSource reg \<noteq> source then False else processStart w (srcPID source) = Some (regStart reg))"

section \<open>Resolving\<close>

definition still_registered :: "'t Tracker \<Rightarrow> registration \<Rightarrow> bool" where
  "still_registered t reg =
    (case map_of (registrations t) (srcInstance (regSource reg)) of None \<Rightarrow> False | Some current \<Rightarrow> regToken current = regToken reg)"

text \<open>The loop over the registrations.\<close>

fun owner_loop :: "'t world \<Rightarrow> 't Tracker \<Rightarrow> 't \<Rightarrow> registration list \<Rightarrow> Source \<Rightarrow> Source" where
  "owner_loop w t key [] found = found"
| "owner_loop w t key (reg # regs) found =
    (let (owned, complete) = ownsConnection w reg key in
     if \<not> still_registered t reg then owner_loop w t key regs found
     else if \<not> complete then no_source
     else if \<not> IsActive w t (regSource reg) then owner_loop w t key regs found
     else if owned then
       (if source_Known found \<and> found \<noteq> regSource reg then no_source else owner_loop w t key regs (regSource reg))
     else owner_loop w t key regs found)"

definition bridges_at :: "'t Tracker \<Rightarrow> 't \<Rightarrow> nat list" where
  "bridges_at t key = map (\<lambda>(_, _, b). b) (filter (\<lambda>(k, _, _). k = key) (bridges t))"

definition cache :: "nat \<Rightarrow> Source \<Rightarrow> 't Tracker \<Rightarrow> Source \<times> 't Tracker" where
  "cache b source t =
    (let bd = bindings t ! b in
     if \<not> bClosed bd \<and> \<not> source_Known (bSource bd) \<and> source_Known source
     then (source, t\<lparr>bindings := (bindings t)[b := bd\<lparr>bSource := source\<rparr>]\<rparr>)
     else (bSource bd, t))"

lemma seen_decreases: "b < n \<Longrightarrow> b \<notin> seen \<Longrightarrow> card ({..<n :: nat} - insert b seen) < card ({..<n} - seen)"
  by (rule psubset_card_mono) auto

function resolve_binding :: "'t world \<Rightarrow> 't Tracker \<Rightarrow> nat set \<Rightarrow> nat \<Rightarrow> Source \<times> 't Tracker" where
  "resolve_binding w t seen b =
    (if length (bindings t) \<le> b then (no_source, t)
     else
       let bd = bindings t ! b in
       if source_Known (bSource bd) \<or> bClosed bd \<or> \<not> bValid bd then (bSource bd, t)
       else if b \<in> seen then (no_source, t)
       else
         let (source, t') =
           (case bridges_at t (bTuple bd) of
              [] \<Rightarrow> (owner_loop w t (bTuple bd) (map snd (registrations t)) no_source, t)
            | [bridge] \<Rightarrow> resolve_binding w t (insert b seen) bridge
            | _ \<Rightarrow> (no_source, t))
         in cache b source t')"
  by pat_completeness auto

termination
  by (relation "measure (\<lambda>(w, t, seen, b). card ({..<length (bindings t)} - seen))")
    (simp, simp only: in_measure prod.case, rule seen_decreases, simp_all)

declare resolve_binding.simps [simp del]

definition binding_Source :: "'t world \<Rightarrow> nat \<Rightarrow> 't Tracker \<Rightarrow> Source \<times> 't Tracker" where
  "binding_Source w b t = resolve_binding w t {} b"

section \<open>Bindings and bridges\<close>

text \<open>\<open>valid\<close> is false when an address of the connection is not one that can be attributed.\<close>

definition Bind :: "'t \<Rightarrow> bool \<Rightarrow> 't Tracker \<Rightarrow> nat \<times> 't Tracker" where
  "Bind key valid t =
    (length (bindings t),
     t\<lparr>bindings := bindings t @ [\<lparr>bTuple = key, bValid = valid, bClosed = False, bSource = no_source\<rparr>]\<rparr>)"

definition close_binding :: "nat \<Rightarrow> 't Tracker \<Rightarrow> 't Tracker" where
  "close_binding b t = t\<lparr>bindings := (bindings t)[b := (bindings t ! b)\<lparr>bClosed := True\<rparr>]\<rparr>"

definition Forward :: "'t \<Rightarrow> bool \<Rightarrow> 't \<Rightarrow> bool \<Rightarrow> 't Tracker \<Rightarrow> (nat \<times> nat) option \<times> 't Tracker" where
  "Forward client clientValid upstream upstreamValid t =
    (if \<not> upstreamValid then (None, t)
     else
       let (b, t) = Bind client clientValid t; token = trNext t + 1 in
       (Some (token, b), t\<lparr>trNext := token, bridges := (upstream, token, b) # bridges t\<rparr>))"

text \<open>The cleanup function that \<^verbatim>\<open>Forward\<close> returns.\<close>

definition unforward :: "'t \<Rightarrow> nat \<Rightarrow> nat \<Rightarrow> 't Tracker \<Rightarrow> 't Tracker" where
  "unforward upstream token b t =
    (let t = close_binding b t in t\<lparr>bridges := filter (\<lambda>(k, tok, _). \<not> (k = upstream \<and> tok = token)) (bridges t)\<rparr>)"

section \<open>A source is reported on proof, and whenever there is one\<close>

text \<open>The active registrations that own a connection, and whether some registration could not be decided.\<close>

definition claimants :: "'t world \<Rightarrow> 't Tracker \<Rightarrow> 't \<Rightarrow> registration list \<Rightarrow> Source set" where
  "claimants w t key regs = {regSource reg | reg. reg \<in> set regs \<and> still_registered t reg \<and> fst (ownsConnection w reg key) \<and> IsActive w t (regSource reg)}"

definition undecided :: "'t world \<Rightarrow> 't Tracker \<Rightarrow> 't \<Rightarrow> registration list \<Rightarrow> bool" where
  "undecided w t key regs \<longleftrightarrow> (\<exists>reg\<in>set regs. still_registered t reg \<and> \<not> snd (ownsConnection w reg key))"

lemma IsActive_Known: "IsActive w t s \<Longrightarrow> source_Known s"
  by (simp add: IsActive_def split: if_splits)

lemma no_source_unknown [simp]: "\<not> source_Known no_source"
  by (simp add: source_Known_def no_source_def)

lemma claimants_Cons:
  "claimants w t key (reg # regs) =
    (if still_registered t reg \<and> fst (ownsConnection w reg key) \<and> IsActive w t (regSource reg) then {regSource reg} else {}) \<union> claimants w t key regs"
  by (auto simp: claimants_def)

lemma claimants_active: "s \<in> claimants w t key regs \<Longrightarrow> source_Known s"
  by (auto simp: claimants_def dest: IsActive_Known)

lemma owner_loop_found:
  assumes "source_Known s"
  shows "found = no_source \<or> source_Known found \<Longrightarrow>
    owner_loop w t key regs found = s \<longleftrightarrow>
      \<not> undecided w t key regs \<and> (if source_Known found then {found} else {}) \<union> claimants w t key regs = {s}"
proof (induction regs arbitrary: found)
  case Nil
  then show ?case using assms by (auto simp: claimants_def undecided_def)
next
  case (Cons reg regs)
  obtain owned complete where o: "ownsConnection w reg key = (owned, complete)" by force
  have u: "undecided w t key (reg # regs) \<longleftrightarrow> still_registered t reg \<and> \<not> complete \<or> undecided w t key regs" using o by (simp add: undecided_def)
  consider "still_registered t reg" "\<not> complete" | "still_registered t reg \<longrightarrow> complete" "\<not> (still_registered t reg \<and> owned \<and> IsActive w t (regSource reg))"
    | "still_registered t reg \<and> complete" "owned" "IsActive w t (regSource reg)" "source_Known found" "found \<noteq> regSource reg"
    | "still_registered t reg \<and> complete" "owned" "IsActive w t (regSource reg)" "\<not> source_Known found \<or> found = regSource reg" by blast
  then show ?case
  proof cases
    case 1
    then show ?thesis using o u assms by auto
  next
    case 2
    then have "claimants w t key (reg # regs) = claimants w t key regs" using o by (auto simp: claimants_Cons)
    moreover have "owner_loop w t key (reg # regs) found = owner_loop w t key regs found" using 2 o by auto
    ultimately show ?thesis using Cons u 2 by simp
  next
    case 3
    then have "{found, regSource reg} \<union> claimants w t key regs \<noteq> {s}" by auto
    then show ?thesis using 3 o u assms by (auto simp: claimants_Cons)
  next
    case 4
    have k: "source_Known (regSource reg)" using 4(3) IsActive_Known by blast
    have "owner_loop w t key (reg # regs) found = owner_loop w t key regs (regSource reg)" using 4 o by auto
    moreover have "(if source_Known found then {found} else {}) \<union> claimants w t key (reg # regs) = {regSource reg} \<union> claimants w t key regs"
      using 4 o by (auto simp: claimants_Cons)
    ultimately show ?thesis using Cons.IH [of "regSource reg"] k u 4(1) by simp
  qed
qed

lemma owner_loop_Known:
  assumes "source_Known s"
  shows "owner_loop w t key regs no_source = s \<longleftrightarrow> \<not> undecided w t key regs \<and> claimants w t key regs = {s}"
  using owner_loop_found [OF assms, of no_source] by simp

text \<open>Proof of ownership, with its length: the source was established before, exactly one active registration owns the
connection and none is undecided, or the only bridge of the connection leads to such a proof.\<close>

definition unresolved :: "'t Tracker \<Rightarrow> nat \<Rightarrow> bool" where
  "unresolved t b \<longleftrightarrow> b < length (bindings t) \<and> \<not> source_Known (bSource (bindings t ! b)) \<and> \<not> bClosed (bindings t ! b) \<and> bValid (bindings t ! b)"

inductive proven :: "'t world \<Rightarrow> 't Tracker \<Rightarrow> nat \<Rightarrow> nat \<Rightarrow> Source \<Rightarrow> bool" for w t where
  cached: "b < length (bindings t) \<Longrightarrow> bSource (bindings t ! b) = s \<Longrightarrow> source_Known s \<Longrightarrow> proven w t 0 b s"
| direct: "unresolved t b \<Longrightarrow> bridges_at t (bTuple (bindings t ! b)) = [] \<Longrightarrow>
    \<not> undecided w t (bTuple (bindings t ! b)) (map snd (registrations t)) \<Longrightarrow>
    claimants w t (bTuple (bindings t ! b)) (map snd (registrations t)) = {s} \<Longrightarrow> proven w t 0 b s"
| bridged: "unresolved t b \<Longrightarrow> bridges_at t (bTuple (bindings t ! b)) = [b'] \<Longrightarrow> proven w t n b' s \<Longrightarrow> proven w t (Suc n) b s"

lemma proven_Known: "proven w t n b s \<Longrightarrow> source_Known s"
proof (induction rule: proven.induct)
  case (direct b s)
  then have "s \<in> claimants w t (bTuple (bindings t ! b)) (map snd (registrations t))" by simp
  then show ?case by (rule claimants_active)
qed auto

lemma proven_unique: "proven w t n b s \<Longrightarrow> proven w t m b s' \<Longrightarrow> n = m \<and> s = s'"
proof (induction arbitrary: m s' rule: proven.induct)
  case (cached b s)
  from cached(4) show ?case using cached(1-3) by cases (simp_all add: unresolved_def)
next
  case (direct b s)
  from direct(5) show ?case using direct(1-4) by cases (simp_all add: unresolved_def)
next
  case (bridged b b' n s)
  from bridged(5) show ?case
  proof cases
    case cached
    then show ?thesis using bridged(1) by (simp add: unresolved_def)
  next
    case direct
    then show ?thesis using bridged(2) by simp
  next
    case (bridged b'' n')
    then show ?thesis using \<open>bridges_at t (bTuple (bindings t ! b)) = [b']\<close> \<open>\<And>m s'. proven w t m b' s' \<Longrightarrow> n = m \<and> s = s'\<close> by auto
  qed
qed

lemma resolve_settled:
  assumes "\<not> (unresolved t b \<and> b \<notin> seen)"
  shows "resolve_binding w t seen b =
    (if b < length (bindings t) \<and> (source_Known (bSource (bindings t ! b)) \<or> bClosed (bindings t ! b) \<or> \<not> bValid (bindings t ! b))
     then bSource (bindings t ! b) else no_source, t)"
  using assms by (subst resolve_binding.simps) (simp add: unresolved_def Let_def not_le, blast)

text \<open>Resolving one binding leaves those it has already been through as they were.\<close>

lemma resolve_keeps:
  "resolve_binding w t seen b = (s, t') \<Longrightarrow> length (bindings t') = length (bindings t) \<and> (\<forall>x\<in>seen. bindings t' ! x = bindings t ! x)"
proof (induction w t seen b arbitrary: s t' rule: resolve_binding.induct)
  case (1 w t seen b)
  show ?case
  proof (cases "unresolved t b \<and> b \<notin> seen")
    case False
    then show ?thesis using "1.prems" resolve_settled [OF False, of w] by simp
  next
    case True
    then have u: "\<not> length (bindings t) \<le> b" "\<not> (source_Known (bSource (bindings t ! b)) \<or> bClosed (bindings t ! b) \<or> \<not> bValid (bindings t ! b))" "b \<notin> seen"
      by (auto simp: unresolved_def)
    obtain s1 t1 where r: "(case bridges_at t (bTuple (bindings t ! b)) of
        [] \<Rightarrow> (owner_loop w t (bTuple (bindings t ! b)) (map snd (registrations t)) no_source, t)
      | [bridge] \<Rightarrow> resolve_binding w t (insert b seen) bridge | _ \<Rightarrow> (no_source, t)) = (s1, t1)" by force
    have c: "cache b s1 t1 = (s, t')"
      using "1.prems" u r by (simp add: resolve_binding.simps [of w t seen b] Let_def)
    have "length (bindings t1) = length (bindings t) \<and> (\<forall>x\<in>insert b seen. bindings t1 ! x = bindings t ! x)"
    proof (cases "\<exists>bridge. bridges_at t (bTuple (bindings t ! b)) = [bridge]")
      case True
      then obtain bridge where b: "bridges_at t (bTuple (bindings t ! b)) = [bridge]" by blast
      then have "resolve_binding w t (insert b seen) bridge = (s1, t1)" using r by simp
      then show ?thesis using "1.IH" [OF u(1) refl u(2,3) b refl] by blast
    next
      case False
      then have "t1 = t" using r by (auto split: list.splits)
      then show ?thesis by simp
    qed
    moreover have "(bindings t1)[b := y] ! x = bindings t1 ! x" if "x \<in> seen" for x y
      using that u(3) by (metis nth_list_update_neq)
    ultimately show ?thesis using c by (auto simp: cache_def Let_def split: if_splits)
  qed
qed

lemma resolve_unresolved:
  assumes "unresolved t b" "b \<notin> seen"
  shows "fst (resolve_binding w t seen b) =
    (let s = (case bridges_at t (bTuple (bindings t ! b)) of
        [] \<Rightarrow> owner_loop w t (bTuple (bindings t ! b)) (map snd (registrations t)) no_source
      | [bridge] \<Rightarrow> fst (resolve_binding w t (insert b seen) bridge) | _ \<Rightarrow> no_source)
     in if source_Known s then s else bSource (bindings t ! b))"
proof -
  obtain s1 t1 where r: "(case bridges_at t (bTuple (bindings t ! b)) of
      [] \<Rightarrow> (owner_loop w t (bTuple (bindings t ! b)) (map snd (registrations t)) no_source, t)
    | [bridge] \<Rightarrow> resolve_binding w t (insert b seen) bridge | _ \<Rightarrow> (no_source, t)) = (s1, t1)" by force
  have "bindings t1 ! b = bindings t ! b"
    using r resolve_keeps [of w t "insert b seen" _ s1 t1] by (auto split: list.splits)
  moreover have "s1 = (case bridges_at t (bTuple (bindings t ! b)) of
      [] \<Rightarrow> owner_loop w t (bTuple (bindings t ! b)) (map snd (registrations t)) no_source
    | [bridge] \<Rightarrow> fst (resolve_binding w t (insert b seen) bridge) | _ \<Rightarrow> no_source)"
    using r by (auto split: list.splits)
  moreover have "resolve_binding w t seen b = cache b s1 t1"
    using assms r by (simp add: resolve_binding.simps [of w t seen b] unresolved_def Let_def)
  ultimately show ?thesis using assms(1) by (auto simp: cache_def Let_def unresolved_def)
qed

lemma resolve_sound: "source_Known (fst (resolve_binding w t seen b)) \<Longrightarrow> \<exists>n. proven w t n b (fst (resolve_binding w t seen b))"
proof (induction w t seen b rule: resolve_binding.induct)
  case (1 w t seen b)
  show ?case
  proof (cases "unresolved t b \<and> b \<notin> seen")
    case False
    then show ?thesis using "1.prems" resolve_settled [OF False, of w]
      by (auto intro: cached split: if_splits)
  next
    case True
    then have u: "\<not> length (bindings t) \<le> b" "\<not> (source_Known (bSource (bindings t ! b)) \<or> bClosed (bindings t ! b) \<or> \<not> bValid (bindings t ! b))" "b \<notin> seen"
      by (auto simp: unresolved_def)
    note R = resolve_unresolved [OF conjunct1 [OF True] u(3), of w]
    show ?thesis
    proof (cases "bridges_at t (bTuple (bindings t ! b))")
      case Nil
      let ?s = "owner_loop w t (bTuple (bindings t ! b)) (map snd (registrations t)) no_source"
      have s: "fst (resolve_binding w t seen b) = ?s" "source_Known ?s"
        using R "1.prems" Nil u(2) by (auto simp: Let_def split: if_splits)
      have "\<not> undecided w t (bTuple (bindings t ! b)) (map snd (registrations t)) \<and>
          claimants w t (bTuple (bindings t ! b)) (map snd (registrations t)) = {?s}"
        by (rule iffD1 [OF owner_loop_Known [OF s(2)] refl])
      then have "proven w t 0 b ?s" using direct [OF conjunct1 [OF True] Nil] by blast
      then show ?thesis unfolding s(1) ..
    next
      case (Cons bridge rest)
      show ?thesis
      proof (cases rest)
        case Nil
        with Cons have b: "bridges_at t (bTuple (bindings t ! b)) = [bridge]" by simp
        let ?s = "fst (resolve_binding w t (insert b seen) bridge)"
        have s: "fst (resolve_binding w t seen b) = ?s" "source_Known ?s"
          using R "1.prems" b u(2) by (auto simp: Let_def split: if_splits)
        obtain n where "proven w t n bridge ?s" using "1.IH" [OF u(1) refl u(2,3) b refl s(2)] ..
        then have "proven w t (Suc n) b ?s" using bridged [OF conjunct1 [OF True] b] by blast
        then show ?thesis unfolding s(1) ..
      next
        case (Cons y ys)
        then show ?thesis using R "1.prems" \<open>bridges_at t _ = bridge # rest\<close> u(2) by (simp add: Let_def)
      qed
    qed
  qed
qed

lemma resolve_complete:
  "proven w t n b s \<Longrightarrow> (\<And>x m s'. x \<in> seen \<Longrightarrow> proven w t m x s' \<Longrightarrow> n < m) \<Longrightarrow> fst (resolve_binding w t seen b) = s"
proof (induction arbitrary: seen rule: proven.induct)
  case (cached b s)
  then show ?case by (simp add: resolve_binding.simps [of w t seen b])
next
  case (direct b s)
  then have p: "proven w t 0 b s" by (blast intro: proven.direct)
  then have k: "source_Known s" "b \<notin> seen" using proven_Known direct.prems by blast+
  have "owner_loop w t (bTuple (bindings t ! b)) (map snd (registrations t)) no_source = s"
    by (rule iffD2 [OF owner_loop_Known [OF k(1)] conjI [OF direct(3,4)]])
  then show ?case using resolve_unresolved [OF direct(1) k(2), of w] direct(2) k(1) by (simp add: Let_def)
next
  case (bridged b b' n s)
  then have p: "proven w t (Suc n) b s" by (blast intro: proven.bridged)
  then have k: "source_Known s" "b \<notin> seen" using proven_Known bridged.prems by blast+
  have "n < m" if "x \<in> insert b seen" "proven w t m x s'" for x m s'
    using that bridged.prems [of x m s'] proven_unique [OF p, of m s'] by auto
  then have "fst (resolve_binding w t (insert b seen) b') = s" by (rule bridged.IH)
  then show ?case using resolve_unresolved [OF bridged(1) k(2), of w] bridged(2) k(1) by (simp add: Let_def)
qed

text \<open>C27. Asking a binding for its source always returns, even when bridges form a cycle, and the source it names is exactly
the one there is a proof for: established before, or owned by exactly one active registration with no registration
undecided, at the end of a chain of single bridges.\<close>

theorem attribution_exact:
  assumes "source_Known s"
  shows "fst (binding_Source w b t) = s \<longleftrightarrow> (\<exists>n. proven w t n b s)"
  using resolve_sound [of w t "{}" b] resolve_complete [of w t _ b s "{}"] assms unfolding binding_Source_def by auto

section \<open>A registration that was removed stays removed\<close>

inductive tstep :: "'t Tracker \<Rightarrow> 't Tracker \<Rightarrow> bool" where
  register: "Register w service pid t = (r, t') \<Longrightarrow> tstep t t'"
| unregister: "tstep t (unregister reg t)"
| bind: "Bind key valid t = (b, t') \<Longrightarrow> tstep t t'"
| close: "tstep t (close_binding b t)"
| forward: "Forward client cv upstream uv t = (r, t') \<Longrightarrow> tstep t t'"
| unforward: "tstep t (unforward upstream token b t)"
| source: "binding_Source w b t = (s, t') \<Longrightarrow> tstep t t'"

lemma show_nat_no_slash: "CHR ''/'' \<notin> set (show_nat n)"
  using show_nat_digits [of n] by (auto simp: is_digit_def)

lemma instance_token:
  assumes "instance_name i p s n = instance_name i p' s' n'"
  shows "n = n'"
proof -
  have t: "takeWhile (\<lambda>c. c \<noteq> CHR ''/'') (rev (instance_name i p s n)) = rev (show_nat n)" for p s n
    using show_nat_no_slash by (auto simp: instance_name_def takeWhile_append takeWhile_eq_all_conv [THEN iffD2])
  have "rev (show_nat n) = rev (show_nat n')" using t [of p s n] t [of p' s' n'] assms by simp
  then show ?thesis by (simp add: show_nat_inj)
qed

lemma cache_frame:
  "cache b s t = (s', t') \<Longrightarrow> registrations t' = registrations t \<and> trNext t' = trNext t \<and> trIdentity t' = trIdentity t \<and> bridges t' = bridges t"
  by (auto simp: cache_def Let_def split: if_splits)

lemma resolve_frame:
  "resolve_binding w t seen b = (s, t') \<Longrightarrow>
    registrations t' = registrations t \<and> trNext t' = trNext t \<and> trIdentity t' = trIdentity t \<and> bridges t' = bridges t"
proof (induction w t seen b arbitrary: s t' rule: resolve_binding.induct)
  case (1 w t seen b)
  show ?case
  proof (cases "unresolved t b \<and> b \<notin> seen")
    case False
    then show ?thesis using "1.prems" resolve_settled [OF False, of w] by simp
  next
    case True
    then have u: "\<not> length (bindings t) \<le> b" "\<not> (source_Known (bSource (bindings t ! b)) \<or> bClosed (bindings t ! b) \<or> \<not> bValid (bindings t ! b))" "b \<notin> seen"
      by (auto simp: unresolved_def)
    obtain s1 t1 where r: "(case bridges_at t (bTuple (bindings t ! b)) of
        [] \<Rightarrow> (owner_loop w t (bTuple (bindings t ! b)) (map snd (registrations t)) no_source, t)
      | [bridge] \<Rightarrow> resolve_binding w t (insert b seen) bridge | _ \<Rightarrow> (no_source, t)) = (s1, t1)" by force
    have c: "cache b s1 t1 = (s, t')"
      using "1.prems" u r by (simp add: resolve_binding.simps [of w t seen b] Let_def)
    show ?thesis
    proof (cases "\<exists>bridge. bridges_at t (bTuple (bindings t ! b)) = [bridge]")
      case True
      then obtain bridge where b: "bridges_at t (bTuple (bindings t ! b)) = [bridge]" by blast
      then have "resolve_binding w t (insert b seen) bridge = (s1, t1)" using r by simp
      from "1.IH" [OF u(1) refl u(2,3) b refl this] cache_frame [OF c] show ?thesis by simp
    next
      case False
      then have "t1 = t" using r by (auto split: list.splits)
      then show ?thesis using cache_frame [OF c] by simp
    qed
  qed
qed

text \<open>What a step does to the registrations: nothing, it adds one under a fresh token, or it removes some.\<close>

lemma tstep_registrations:
  assumes "tstep t t'"
  shows "trIdentity t' = trIdentity t \<and> trNext t \<le> trNext t' \<and>
    (set (registrations t') \<subseteq> set (registrations t) \<or>
     (\<exists>reg pid start. registrations t' = (srcInstance (regSource reg), reg) # registrations t \<and> trNext t' = trNext t + 1 \<and>
        regToken reg = trNext t + 1 \<and> srcInstance (regSource reg) = instance_name (trIdentity t) pid start (regToken reg)))"
  using assms
proof cases
  case (register w service pid r)
  then show ?thesis by (auto simp: Register_def Let_def split: if_splits option.splits) blast
next
  case (unregister reg)
  then show ?thesis by (auto simp: unregister_def split: option.splits)
next
  case (source w b s)
  then show ?thesis using resolve_frame [of w t "{}" b s t'] unfolding binding_Source_def by simp
qed (auto simp: Bind_def close_binding_def Forward_def unforward_def Let_def split: if_splits)

definition tokens_ok :: "'t Tracker \<Rightarrow> bool" where
  "tokens_ok t \<longleftrightarrow> (\<forall>(i, reg)\<in>set (registrations t). i = srcInstance (regSource reg) \<and> regToken reg \<le> trNext t \<and>
     (\<exists>pid start. i = instance_name (trIdentity t) pid start (regToken reg)))"

lemma tstep_tokens:
  assumes "tstep t t'" "tokens_ok t"
  shows "tokens_ok t'"
proof -
  note F = tstep_registrations [OF assms(1)]
  have old: "i = srcInstance (regSource reg) \<and> regToken reg \<le> trNext t' \<and> (\<exists>pid start. i = instance_name (trIdentity t') pid start (regToken reg))"
    if "(i, reg) \<in> set (registrations t)" for i reg
    using bspec [OF assms(2) [unfolded tokens_ok_def] that] F by auto
  show ?thesis
  proof (cases "set (registrations t') \<subseteq> set (registrations t)")
    case True
    then show ?thesis using old unfolding tokens_ok_def by blast
  next
    case False
    then obtain new pid start where g: "registrations t' = (srcInstance (regSource new), new) # registrations t" "trNext t' = trNext t + 1"
      "regToken new = trNext t + 1" "srcInstance (regSource new) = instance_name (trIdentity t) pid start (regToken new)" using F by blast
    then have "\<exists>pid start. srcInstance (regSource new) = instance_name (trIdentity t') pid start (regToken new)" using F by metis
    then show ?thesis using old g(1,2,3) unfolding tokens_ok_def by auto
  qed
qed

lemma treach_tokens: "tstep\<^sup>*\<^sup>* t t' \<Longrightarrow> tokens_ok t \<Longrightarrow> tokens_ok t'"
  by (induction rule: rtranclp_induct) (auto intro: tstep_tokens)

text \<open>A token that was given out and is not in use any more.\<close>

definition retired :: "nat \<Rightarrow> string \<Rightarrow> 't Tracker \<Rightarrow> bool" where
  "retired token inst t \<longleftrightarrow> token \<le> trNext t \<and> (\<exists>pid start. inst = instance_name (trIdentity t) pid start token) \<and>
     inst \<notin> fst ` set (registrations t)"

lemma tstep_retired: "tstep t t' \<Longrightarrow> retired token inst t \<Longrightarrow> retired token inst t'"
proof -
  assume s: "tstep t t'" and r: "retired token inst t"
  note F = tstep_registrations [OF s]
  have "inst \<notin> fst ` set (registrations t')"
  proof (cases "set (registrations t') \<subseteq> set (registrations t)")
    case True
    then show ?thesis using r by (auto simp: retired_def)
  next
    case False
    then obtain reg pid start where g: "registrations t' = (srcInstance (regSource reg), reg) # registrations t" "regToken reg = trNext t + 1"
      "srcInstance (regSource reg) = instance_name (trIdentity t) pid start (regToken reg)" using F by blast
    have "inst \<noteq> srcInstance (regSource reg)" using r g(2,3) instance_token unfolding retired_def by fastforce
    then show ?thesis using r g(1) by (simp add: retired_def)
  qed
  then show ?thesis using r F by (auto simp: retired_def)
qed

lemma treach_retired: "tstep\<^sup>*\<^sup>* t t' \<Longrightarrow> retired token inst t \<Longrightarrow> retired token inst t'"
  by (induction rule: rtranclp_induct) (auto intro: tstep_retired)

lemma treach_identity: "tstep\<^sup>*\<^sup>* t t' \<Longrightarrow> trIdentity t' = trIdentity t \<and> trNext t \<le> trNext t'"
  by (induction rule: rtranclp_induct) (use tstep_registrations in fastforce)+

text \<open>C28. Once its registration was removed, a source is never active again, whatever is registered later and whatever the
process table says: neither a reused process number nor the same service name brings it back.\<close>

theorem removed_never_active:
  assumes "tstep\<^sup>*\<^sup>* (newTracker ident) t" "Register w service pid t = (Inr reg, t1)" "tstep\<^sup>*\<^sup>* t1 t2"
    and "tstep\<^sup>*\<^sup>* (unregister reg t2) t3"
  shows "\<not> IsActive w' t3 (regSource reg)"
proof -
  have ok: "tokens_ok t2"
    using treach_tokens [OF assms(3)] treach_tokens [OF assms(1)] tstep_tokens [OF register [OF assms(2)]]
    by (simp add: tokens_ok_def newTracker_def)
  obtain start where r: "srcInstance (regSource reg) = instance_name (trIdentity t) pid start (regToken reg)" "regToken reg \<le> trNext t1" "trIdentity t1 = trIdentity t"
    using assms(2) by (auto simp: Register_def Let_def split: if_splits option.splits)
  note I = treach_identity [OF assms(3)]
  let ?i = "srcInstance (regSource reg)"
  have "?i \<notin> fst ` set (registrations (unregister reg t2))"
  proof (cases "map_of (registrations t2) ?i")
    case None
    then have "unregister reg t2 = t2" by (simp add: unregister_def)
    then show ?thesis using None by (simp add: map_of_eq_None_iff)
  next
    case (Some current)
    then have "(?i, current) \<in> set (registrations t2)" by (rule map_of_SomeD)
    then obtain p s where "?i = instance_name (trIdentity t2) p s (regToken current)" using ok unfolding tokens_ok_def by fastforce
    then have "regToken current = regToken reg" using r I instance_token by metis
    then show ?thesis using Some by (auto simp: unregister_def)
  qed
  moreover have "trNext (unregister reg t2) = trNext t2" "trIdentity (unregister reg t2) = trIdentity t2"
    by (auto simp: unregister_def split: option.splits)
  ultimately have "retired (regToken reg) ?i (unregister reg t2)" using r I unfolding retired_def by auto
  then have "?i \<notin> fst ` set (registrations t3)" using treach_retired [OF assms(4)] unfolding retired_def by blast
  then show ?thesis by (simp add: IsActive_def map_of_eq_None_iff [THEN iffD2])
qed

text \<open>Removing a bridge leaves every other one alone.\<close>

lemma unforward_only: "(k, tok, x) \<in> set (bridges (unforward upstream token b t)) \<longleftrightarrow> (k, tok, x) \<in> set (bridges t) \<and> \<not> (k = upstream \<and> tok = token)"
  by (auto simp: unforward_def close_binding_def Let_def)

definition demo_world :: "nat world" where
  "demo_world = \<lparr>processStart = (\<lambda>_. Some 7), ownsConnection = (\<lambda>reg key. (key = 80, True))\<rparr>"

definition demo_reg :: registration where
  "demo_reg = \<lparr>regSource = \<lparr>srcService = ''api'', srcInstance = ''id/5/7/1'', srcPID = 5\<rparr>, regStart = 7, regToken = 1\<rparr>"

definition demo_tracker :: "nat Tracker" where
  "demo_tracker = (newTracker ''id'')\<lparr>trNext := 1, registrations := [(''id/5/7/1'', demo_reg)]\<rparr>"

lemma demo_digits: "digit_char 5 = CHR ''5''" "digit_char 7 = CHR ''7''" "digit_char (Suc 0) = CHR ''1''"
  by code_simp+

lemma demo_registered: "Register demo_world ''api'' 5 (newTracker ''id'') = (Inr demo_reg, demo_tracker)"
  by (simp add: Register_def demo_world_def demo_tracker_def demo_reg_def newTracker_def instance_name_def show_int_def show_nat.simps demo_digits Let_def)

theorem removed_never_active_witness:
  "\<not> IsActive demo_world (unregister demo_reg demo_tracker) (regSource demo_reg)"
  by (rule removed_never_active [OF rtranclp.rtrancl_refl demo_registered rtranclp.rtrancl_refl rtranclp.rtrancl_refl])

theorem attribution_exact_witness:
  "fst (binding_Source demo_world 0 (snd (Bind 80 True demo_tracker))) = regSource demo_reg \<and>
   (\<exists>n. proven demo_world (snd (Bind 80 True demo_tracker)) n 0 (regSource demo_reg))"
proof -
  have "fst (binding_Source demo_world 0 (snd (Bind 80 True demo_tracker))) = regSource demo_reg"
    by code_simp
  moreover have "source_Known (regSource demo_reg)" by code_simp
  ultimately show ?thesis using attribution_exact [of "regSource demo_reg" demo_world 0 "snd (Bind 80 True demo_tracker)"] by blast
qed

end
