(* ===== verification/Packet_Fault.thy ===== *)
theory Packet_Fault
  imports Gateway Rule_Syntax
begin

text \<open>Packet faults as a specification writes them, \<^verbatim>\<open>internal/star/packetfault.go\<close>: the \<^verbatim>\<open>packet_*\<close> builtins with their
keyword arguments, and the rules they are compiled to.

A Starlark value is a string, an integer, a float, a function or something else with the name of its type; a \<^verbatim>\<open>where=\<close>
function raises, returns a truth value or returns something else. Go's scanner for floats and the conversion of an
integer to a float are arguments, beside those of theory \<open>Rule_Syntax\<close>.

Shown: a builtin only returns faults that compile to a valid rule, and the rule is due for exactly the packets that satisfy
every keyword given. Also shown: a probability of one percent means always.\<close>

section \<open>Values\<close>

datatype where_result = WRaise string | WBool bool | WOther string

datatype sval = VString string | VInt int | VFloat float64 | VCallable string "PacketView \<Rightarrow> where_result" | VOther string

fun sval_Type :: "sval \<Rightarrow> string" where
  "sval_Type (VString _) = ''string''"
| "sval_Type (VInt _) = ''int''"
| "sval_Type (VFloat _) = ''float''"
| "sval_Type (VCallable t _) = t"
| "sval_Type (VOther t) = t"

fun AsString :: "sval \<Rightarrow> string" where
  "AsString (VString s) = s"
| "AsString _ = []"

definition AsInt32 :: "sval \<Rightarrow> int option" where
  "AsInt32 v = (case v of VInt n \<Rightarrow> if - (2 ^ 31) \<le> n \<and> n < 2 ^ 31 then Some n else None | _ \<Rightarrow> None)"

record scanning = numerics +
  Sscanf_f :: "string \<Rightarrow> float64" \<comment> \<open>the verb \<open>%f\<close>, zero when nothing is read\<close>
  of_int64 :: "int \<Rightarrow> float64"

text \<open>\<^verbatim>\<open>Int64\<close> gives zero for an integer that is too large.\<close>

definition parseProbability :: "'a scanning_scheme \<Rightarrow> sval \<Rightarrow> float64" where
  "parseProbability N v =
    (let p = (case v of
         VFloat f \<Rightarrow> f
       | VInt i \<Rightarrow> of_int64 N (if - (2 ^ 63) \<le> i \<and> i < 2 ^ 63 then i else 0)
       | _ \<Rightarrow> Sscanf_f N (trim_suffix (AsString v) ''%''))
     in if flt (Fin 1) p then div100 (numerics.truncate N) p else p)"

type_synonym kwargs = "(string \<times> sval) list"

fun starKwarg :: "kwargs \<Rightarrow> string \<Rightarrow> sval option" where
  "starKwarg [] name = None"
| "starKwarg ((k, v) # kvs) name = (if k = name then Some v else starKwarg kvs name)"

definition parseProbabilityFanoutKwargs :: "string \<Rightarrow> kwargs \<Rightarrow> float64 \<Rightarrow> (int \<times> string) res" where
  "parseProbabilityFanoutKwargs builtinName kwargs prob =
    (case (case starKwarg kwargs ''max_fires'' of
        None \<Rightarrow> Inr 0
      | Some mv \<Rightarrow>
          (case AsInt32 mv of
             None \<Rightarrow> Inl (builtinName @ ''(): max_fires must be an integer, got '' @ sval_Type mv)
           | Some n \<Rightarrow>
               if n \<le> 0 then Inl (builtinName @ ''(): max_fires must be > 0, got '' @ show_int n)
               else if fle (Fin 1) prob then Inl (builtinName @ ''(): max_fires= is only meaningful with probability < 1'')
               else Inr n)) of
       Inl e \<Rightarrow> Inl e
     | Inr maxFires \<Rightarrow>
         (case (case starKwarg kwargs ''mode'' of
              None \<Rightarrow> Inr []
            | Some mv \<Rightarrow>
                let s = AsString mv in
                if s = ''exhaustive'' \<or> s = ''stochastic'' then Inr s
                else Inl (builtinName @ ''(): mode= must be \"exhaustive\" or \"stochastic\", got '' @ go_quote s)) of
            Inl e \<Rightarrow> Inl e
          | Inr mode \<Rightarrow>
              if 0 < maxFires \<and> mode = ''stochastic'' then
                Inl (builtinName @ ''(): max_fires= is incompatible with mode=\"stochastic\"'')
              else if mode = ''exhaustive'' \<and> maxFires = 0 then
                Inl (builtinName @ ''(): mode=\"exhaustive\" requires max_fires= > 0'')
              else Inr (maxFires, if mode = [] \<and> 0 < maxFires then ''exhaustive'' else mode)))"

section \<open>Packet faults\<close>

text \<open>The fields of the source but for \<^verbatim>\<open>Rate\<close> and \<^verbatim>\<open>MTU\<close>, which nothing here sets or reads; an optional length is one field.\<close>

record PacketFaultDef =
  pfAction :: string
  pfDir :: string
  pfProto :: string
  pfFlags :: string
  pfPort :: int
  pfLen :: "int option"
  pfLenGT :: "int option"
  pfLenLT :: "int option"
  pfPrefix :: string
  pfContains :: string
  pfWhere :: "(PacketView \<Rightarrow> where_result) option"
  pfNth :: int
  pfAfter :: int
  pfEvery :: int
  pfProbability :: float64
  pfMaxFires :: int
  pfMode :: string
  pfDelay :: int
  pfReorderBy :: int
  pfDuplicateCount :: int
  pfCorruptOffset :: int
  pfCorruptLength :: int
  pfCorruptMode :: string
  pfChecksum :: string
  pfWindowSize :: int
  pfLabel :: string

definition new_fault :: "string \<Rightarrow> PacketFaultDef" where
  "new_fault action = \<lparr>pfAction = action, pfDir = [], pfProto = [], pfFlags = [], pfPort = 0, pfLen = None, pfLenGT = None,
     pfLenLT = None, pfPrefix = [], pfContains = [], pfWhere = None, pfNth = 0, pfAfter = 0, pfEvery = 0,
     pfProbability = Fin 0, pfMaxFires = 0, pfMode = [], pfDelay = 0, pfReorderBy = 0, pfDuplicateCount = 0,
     pfCorruptOffset = 0, pfCorruptLength = 0, pfCorruptMode = [], pfChecksum = [], pfWindowSize = 0, pfLabel = []\<rparr>"

datatype handled = Handled PacketFaultDef | NotMine | BadArg string

definition int_kwarg :: "string \<Rightarrow> string \<Rightarrow> sval \<Rightarrow> (int \<Rightarrow> handled) \<Rightarrow> handled" where
  "int_kwarg builtin key v k =
    (case AsInt32 v of
       None \<Rightarrow> BadArg (builtin @ ''(): '' @ key @ '' must be an integer, got '' @ sval_Type v)
     | Some n \<Rightarrow> k n)"

definition len_kwarg :: "string \<Rightarrow> string \<Rightarrow> sval \<Rightarrow> (int \<Rightarrow> PacketFaultDef) \<Rightarrow> handled" where
  "len_kwarg builtin key v k =
    int_kwarg builtin key v (\<lambda>n. if n < 0 then BadArg (builtin @ ''(): '' @ key @ '' must be >= 0, got '' @ show_int n) else Handled (k n))"

definition count_kwarg :: "string \<Rightarrow> string \<Rightarrow> sval \<Rightarrow> (int \<Rightarrow> PacketFaultDef) \<Rightarrow> handled" where
  "count_kwarg builtin key v k =
    int_kwarg builtin key v (\<lambda>n. if n \<le> 0 then BadArg (builtin @ ''(): '' @ key @ '' must be > 0, got '' @ show_int n) else Handled (k n))"

definition parsePacketMatcherKwarg :: "'a scanning_scheme \<Rightarrow> string \<Rightarrow> string \<Rightarrow> sval \<Rightarrow> PacketFaultDef \<Rightarrow> handled" where
  "parsePacketMatcherKwarg N builtin key v pf =
    (if key = ''dir'' then
       let s = AsString v in
       if ParseDirection s = None \<and> s \<noteq> ''both'' then
         BadArg (builtin @ ''(): dir must be \"c2s\", \"s2c\" or \"both\", got '' @ go_quote s)
       else Handled (pf\<lparr>pfDir := s\<rparr>)
     else if key = ''proto'' then
       let s = AsString v in
       if s \<in> {''tcp'', ''udp'', ''icmp''} then Handled (pf\<lparr>pfProto := s\<rparr>)
       else BadArg (builtin @ ''(): proto must be \"tcp\", \"udp\" or \"icmp\", got '' @ go_quote s)
     else if key = ''flags'' then
       let s = AsString v in
       (case ParseFlagSpec s of
          Inl e \<Rightarrow> BadArg (builtin @ ''(): flags= '' @ e)
        | Inr _ \<Rightarrow> Handled (pf\<lparr>pfFlags := s\<rparr>))
     else if key = ''port'' then
       int_kwarg builtin ''port'' v (\<lambda>n.
         if n \<le> 0 \<or> 65535 < n then BadArg (builtin @ ''(): port must be within 1..65535, got '' @ show_int n)
         else Handled (pf\<lparr>pfPort := n\<rparr>))
     else if key = ''len'' then len_kwarg builtin key v (\<lambda>n. pf\<lparr>pfLen := Some n\<rparr>)
     else if key = ''len_gt'' then len_kwarg builtin key v (\<lambda>n. pf\<lparr>pfLenGT := Some n\<rparr>)
     else if key = ''len_lt'' then len_kwarg builtin key v (\<lambda>n. pf\<lparr>pfLenLT := Some n\<rparr>)
     else if key = ''payload_prefix'' then Handled (pf\<lparr>pfPrefix := AsString v\<rparr>)
     else if key = ''payload_contains'' then Handled (pf\<lparr>pfContains := AsString v\<rparr>)
     else if key = ''where'' then
       (case v of
          VCallable _ f \<Rightarrow> Handled (pf\<lparr>pfWhere := Some f\<rparr>)
        | _ \<Rightarrow> BadArg (builtin @ ''(): where must be a function, got '' @ sval_Type v))
     else if key = ''nth'' then count_kwarg builtin key v (\<lambda>n. pf\<lparr>pfNth := n\<rparr>)
     else if key = ''after'' then count_kwarg builtin key v (\<lambda>n. pf\<lparr>pfAfter := n\<rparr>)
     else if key = ''every'' then count_kwarg builtin key v (\<lambda>n. pf\<lparr>pfEvery := n\<rparr>)
     else if key = ''probability'' then Handled (pf\<lparr>pfProbability := parseProbability N v\<rparr>)
     else if key = ''max_fires'' \<or> key = ''mode'' then Handled pf
     else if key = ''label'' then Handled (pf\<lparr>pfLabel := AsString v\<rparr>)
     else NotMine)"

definition finishPacketFault :: "string \<Rightarrow> kwargs \<Rightarrow> PacketFaultDef \<Rightarrow> PacketFaultDef res" where
  "finishPacketFault builtin kwargs pf =
    (case parseProbabilityFanoutKwargs builtin kwargs (pfProbability pf) of
       Inl e \<Rightarrow> Inl e
     | Inr (maxFires, mode) \<Rightarrow>
         if 1 < length (filter (\<lambda>n. 0 < n) [pfNth pf, pfAfter pf, pfEvery pf]) then
           Inl (builtin @ ''(): nth=, after= and every= are mutually exclusive; pick one'')
         else Inr (pf\<lparr>pfMaxFires := maxFires, pfMode := mode\<rparr>))"

section \<open>Compiling\<close>

definition bytes_of :: "string \<Rightarrow> 8 word list" where
  "bytes_of s = map of_char s"

text \<open>The predicate and what it reports; the reports here leave out the printed packet.\<close>

definition where_result_of :: "(PacketView \<Rightarrow> where_result) \<Rightarrow> PacketView \<Rightarrow> bool \<times> string option" where
  "where_result_of f p =
    (case f p of
       WRaise e \<Rightarrow> (False, Some (''where= predicate failed: '' @ e))
     | WOther t \<Rightarrow> (False, Some (''where= predicate returned '' @ t @ '', want a bool''))
     | WBool b \<Rightarrow> (b, None))"

definition makeWherePredicate :: "(PacketView \<Rightarrow> where_result) \<Rightarrow> PacketView \<Rightarrow> bool" where
  "makeWherePredicate f p = fst (where_result_of f p)"

definition zero_prule :: PRule where
  "zero_prule = \<lparr>pAction = PActionPass, pMatch = empty_match, pLabel = [], pDelay = 0, ReorderBy = 0, DuplicateCount = 0,
     CorruptOffset = 0, CorruptLength = 0, CorruptMode = [], Checksum = [], WindowSize = 0, pTrigger = PTriggerAlways,
     pTriggerN = 0, pProbability = Fin 0, pMaxFires = 0, pMode = [], pcounter = 0, pprobCounter = 0, fired = 0\<rparr>"

definition compile_action :: "PacketFaultDef \<Rightarrow> PRule \<Rightarrow> PRule res" where
  "compile_action p r =
    (let a = pfAction p in
     if a = ''drop'' then Inr (r\<lparr>pAction := PActionDrop\<rparr>)
     else if a = ''pass'' then Inr (r\<lparr>pAction := PActionPass\<rparr>)
     else if a = ''reset'' then Inr (r\<lparr>pAction := PActionReset\<rparr>)
     else if a = ''delay'' then Inr (r\<lparr>pAction := PActionDelay, pDelay := pfDelay p\<rparr>)
     else if a = ''reorder'' then Inr (r\<lparr>pAction := PActionReorder, ReorderBy := pfReorderBy p\<rparr>)
     else if a = ''duplicate'' then
       Inr (r\<lparr>pAction := PActionDuplicate, DuplicateCount := (if pfDuplicateCount p = 0 then 2 else pfDuplicateCount p)\<rparr>)
     else if a = ''corrupt'' then
       Inr (r\<lparr>pAction := PActionCorrupt, CorruptOffset := pfCorruptOffset p,
              CorruptLength := (if pfCorruptLength p = 0 then 1 else pfCorruptLength p),
              CorruptMode := (if pfCorruptMode p = [] then ''flip'' else pfCorruptMode p),
              Checksum := (if pfChecksum p = [] then ''fix'' else pfChecksum p)\<rparr>)
     else if a = ''window'' then Inr (r\<lparr>pAction := PActionWindow, WindowSize := word_of_int (pfWindowSize p)\<rparr>)
     else Inl (''unknown packet fault action '' @ go_quote a))"

definition compile_trigger :: "PacketFaultDef \<Rightarrow> PRule \<Rightarrow> PRule" where
  "compile_trigger p r =
    (if 0 < pfNth p then r\<lparr>pTrigger := PTriggerNth, pTriggerN := pfNth p\<rparr>
     else if 0 < pfAfter p then r\<lparr>pTrigger := PTriggerAfter, pTriggerN := pfAfter p\<rparr>
     else if 0 < pfEvery p then r\<lparr>pTrigger := PTriggerEvery, pTriggerN := pfEvery p\<rparr>
     else r)"

definition compile_match :: "bool \<Rightarrow> PacketFaultDef \<Rightarrow> Match res" where
  "compile_match thread p =
    (case (if pfFlags p \<noteq> [] then ParseFlagSpec (pfFlags p) else Inr (0, 0)) of
       Inl e \<Rightarrow> Inl e
     | Inr (st, cl) \<Rightarrow>
         Inr \<lparr>mDir = (if pfDir p \<noteq> [] \<and> pfDir p \<noteq> ''both''
                       then Some (case ParseDirection (pfDir p) of Some d \<Rightarrow> d | None \<Rightarrow> DirC2S) else None),
              mProto = pfProto p, FlagsSet = st, FlagsClear = cl, mPort = word_of_int (pfPort p), mDstIP = [],
              mLen = (case pfLen p of Some n \<Rightarrow> n | None \<Rightarrow> 0), HasLen = (pfLen p \<noteq> None),
              LenGT = (case pfLenGT p of Some n \<Rightarrow> n | None \<Rightarrow> 0), HasLenGT = (pfLenGT p \<noteq> None),
              LenLT = (case pfLenLT p of Some n \<Rightarrow> n | None \<Rightarrow> 0), HasLenLT = (pfLenLT p \<noteq> None),
              PayloadPrefix = bytes_of (pfPrefix p), PayloadContains = bytes_of (pfContains p),
              Where = (if thread then map_option makeWherePredicate (pfWhere p) else None)\<rparr>)"

definition Compile :: "(int \<Rightarrow> string) \<Rightarrow> (float64 \<Rightarrow> string) \<Rightarrow> bool \<Rightarrow> PacketFaultDef \<Rightarrow> PRule res" where
  "Compile dur flo thread p =
    (case compile_action p (zero_prule\<lparr>pLabel := pfLabel p, pProbability := pfProbability p, pMaxFires := pfMaxFires p, pMode := pfMode p\<rparr>) of
       Inl e \<Rightarrow> Inl e
     | Inr r \<Rightarrow>
         (case compile_match thread p of
            Inl e \<Rightarrow> Inl e
          | Inr m \<Rightarrow>
              let r = (compile_trigger p r)\<lparr>pMatch := m\<rparr> in
              (case Validate dur flo r of Some e \<Rightarrow> Inl e | None \<Rightarrow> Inr r)))"

section \<open>The builtins\<close>

definition starDuration :: "'a scanning_scheme \<Rightarrow> string \<Rightarrow> sval \<Rightarrow> int res" where
  "starDuration N builtin v =
    (case v of
       VString s \<Rightarrow>
         (case ParseDuration N s of
            Inl e \<Rightarrow> Inl (builtin @ ''(): invalid duration '' @ go_quote s @ '': '' @ e)
          | Inr d \<Rightarrow> if d \<le> 0 then Inl (builtin @ ''(): duration must be positive, got '' @ go_quote s) else Inr d)
     | _ \<Rightarrow> Inl (builtin @ ''(): duration must be a string like \"250ms\", got '' @ sval_Type v))"

definition starPositiveInt :: "string \<Rightarrow> string \<Rightarrow> sval \<Rightarrow> int \<Rightarrow> int res" where
  "starPositiveInt builtin key v least =
    (case AsInt32 v of
       None \<Rightarrow> Inl (builtin @ ''(): '' @ key @ '' must be an integer, got '' @ sval_Type v)
     | Some n \<Rightarrow> if n < least then Inl (builtin @ ''(): '' @ key @ '' must be >= '' @ show_int least @ '', got '' @ show_int n) else Inr n)"

definition put :: "(int \<Rightarrow> PacketFaultDef) \<Rightarrow> int res \<Rightarrow> PacketFaultDef res" where
  "put k r = (case r of Inl e \<Rightarrow> Inl e | Inr n \<Rightarrow> Inr (k n))"

text \<open>The handlers of \<^verbatim>\<open>packetFaultBuiltins\<close>, \<^const>\<open>None\<close> where a builtin has none for a name.\<close>

definition extra :: "'a scanning_scheme \<Rightarrow> string \<Rightarrow> string \<Rightarrow> sval \<Rightarrow> PacketFaultDef \<Rightarrow> PacketFaultDef res option" where
  "extra N builtin key v pf =
    (if builtin = ''packet_delay'' \<and> key \<in> {''__positional__'', ''duration''} then
       Some (put (\<lambda>n. pf\<lparr>pfDelay := n\<rparr>) (starDuration N builtin v))
     else if builtin = ''packet_reorder'' \<and> key = ''by'' then
       Some (put (\<lambda>n. pf\<lparr>pfReorderBy := n\<rparr>) (starPositiveInt builtin key v 1))
     else if builtin = ''packet_duplicate'' \<and> key = ''count'' then
       Some (put (\<lambda>n. pf\<lparr>pfDuplicateCount := n\<rparr>) (starPositiveInt builtin key v 2))
     else if builtin = ''packet_corrupt'' \<and> key = ''offset'' then
       Some (put (\<lambda>n. pf\<lparr>pfCorruptOffset := n\<rparr>) (starPositiveInt builtin key v 0))
     else if builtin = ''packet_corrupt'' \<and> key = ''length'' then
       Some (put (\<lambda>n. pf\<lparr>pfCorruptLength := n\<rparr>) (starPositiveInt builtin key v 1))
     else if builtin = ''packet_corrupt'' \<and> key = ''corrupt_mode'' then
       Some (if AsString v \<in> {''flip'', ''zero'', ''random''} then Inr (pf\<lparr>pfCorruptMode := AsString v\<rparr>)
             else Inl (''packet_corrupt(): corrupt_mode must be \"flip\", \"zero\" or \"random\", got '' @ go_quote (AsString v)))
     else if builtin = ''packet_corrupt'' \<and> key = ''checksum'' then
       Some (if AsString v \<in> {''fix'', ''break''} then Inr (pf\<lparr>pfChecksum := AsString v\<rparr>)
             else Inl (''packet_corrupt(): checksum must be \"fix\" or \"break\", got '' @ go_quote (AsString v)))
     else if builtin = ''packet_window'' \<and> key = ''size'' then
       Some (case starPositiveInt builtin key v 0 of
          Inl e \<Rightarrow> Inl e
        | Inr n \<Rightarrow>
            if 65535 < n then Inl (''packet_window(): size must be within 0..65535, got '' @ show_int n)
            else Inr (pf\<lparr>pfWindowSize := n\<rparr>))
     else None)"

definition packetFaultBuiltins :: "(string \<times> string) list" where
  "packetFaultBuiltins = [(''packet_drop'', ''drop''), (''packet_pass'', ''pass''), (''packet_reset'', ''reset''),
     (''packet_delay'', ''delay''), (''packet_reorder'', ''reorder''), (''packet_duplicate'', ''duplicate''),
     (''packet_corrupt'', ''corrupt''), (''packet_window'', ''window'')]"

definition packetMatcherKwargs :: string where
  "packetMatcherKwargs = ''dir, proto, flags, port, len, len_gt, len_lt, '' @
     ''payload_prefix, payload_contains, where, nth, after, every, probability, max_fires, mode, label''"

definition extraNames :: "string \<Rightarrow> string" where
  "extraNames builtin =
    (if builtin = ''packet_delay'' then '', duration''
     else if builtin = ''packet_reorder'' then '', by''
     else if builtin = ''packet_duplicate'' then '', count''
     else if builtin = ''packet_corrupt'' then '', offset, length, corrupt_mode, checksum''
     else if builtin = ''packet_window'' then '', size'' else [])"

definition one_kwarg :: "'a scanning_scheme \<Rightarrow> string \<Rightarrow> string \<Rightarrow> sval \<Rightarrow> PacketFaultDef \<Rightarrow> PacketFaultDef res" where
  "one_kwarg N name key v pf =
    (case parsePacketMatcherKwarg N name key v pf of
       BadArg e \<Rightarrow> Inl e
     | Handled pf' \<Rightarrow> Inr pf'
     | NotMine \<Rightarrow>
         (case extra N name key v pf of
            None \<Rightarrow> Inl (name @ ''(): unknown keyword argument '' @ go_quote key @ ''; valid: '' @ packetMatcherKwargs @ extraNames name)
          | Some r \<Rightarrow> r))"

fun kwarg_loop :: "'a scanning_scheme \<Rightarrow> string \<Rightarrow> kwargs \<Rightarrow> PacketFaultDef \<Rightarrow> PacketFaultDef res" where
  "kwarg_loop N name [] pf = Inr pf"
| "kwarg_loop N name ((key, v) # kvs) pf =
    (case one_kwarg N name key v pf of Inl e \<Rightarrow> Inl e | Inr pf' \<Rightarrow> kwarg_loop N name kvs pf')"

definition positional :: "'a scanning_scheme \<Rightarrow> string \<Rightarrow> sval list \<Rightarrow> PacketFaultDef \<Rightarrow> PacketFaultDef res" where
  "positional N name args pf =
    (case args of
       [] \<Rightarrow> Inr pf
     | v # rest \<Rightarrow>
         (case extra N name ''__positional__'' v pf of
            None \<Rightarrow> Inl (name @ ''(): takes only keyword arguments'')
          | Some r \<Rightarrow>
              if rest \<noteq> [] then Inl (name @ ''(): takes at most 1 positional argument, got '' @ show_nat (length args)) else r))"

definition packetBuiltin ::
  "'a scanning_scheme \<Rightarrow> (int \<Rightarrow> string) \<Rightarrow> (float64 \<Rightarrow> string) \<Rightarrow> string \<Rightarrow> string \<Rightarrow> sval list \<Rightarrow> kwargs \<Rightarrow> PacketFaultDef res" where
  "packetBuiltin N dur flo name action args kwargs =
    (case positional N name args (new_fault action) of
       Inl e \<Rightarrow> Inl e
     | Inr pf \<Rightarrow>
         (case kwarg_loop N name kwargs pf of
            Inl e \<Rightarrow> Inl e
          | Inr pf \<Rightarrow>
              (case finishPacketFault name kwargs pf of
                 Inl e \<Rightarrow> Inl e
               | Inr pf \<Rightarrow>
                   (case Compile dur flo False pf of
                      Inl e \<Rightarrow> Inl (name @ ''(): '' @ e)
                    | Inr _ \<Rightarrow> Inr pf))))"

definition describePacketFaults :: "PacketFaultDef list \<Rightarrow> string" where
  "describePacketFaults defs =
    join '', '' (map (\<lambda>d. ''packet_'' @ pfAction d @ (if pfLabel d \<noteq> [] then ''['' @ pfLabel d @ '']'' else [])) defs)"

section \<open>What a keyword says of a packet\<close>

definition flags_hold :: "string \<Rightarrow> PacketView \<Rightarrow> bool" where
  "flags_hold s p = (case ParseFlagSpec s of Inr (st, cl) \<Rightarrow> Flags p AND st = st \<and> Flags p AND cl = 0 | Inl _ \<Rightarrow> False)"

definition payload_starts :: "string \<Rightarrow> PacketView \<Rightarrow> bool" where
  "payload_starts s p \<longleftrightarrow> (\<exists>b. Payload p = bytes_of s @ b)"

definition payload_has :: "string \<Rightarrow> PacketView \<Rightarrow> bool" where
  "payload_has s p \<longleftrightarrow> (\<exists>a b. Payload p = a @ bytes_of s @ b)"

definition kw_holds :: "string \<Rightarrow> sval \<Rightarrow> PacketView \<Rightarrow> bool" where
  "kw_holds key v p =
    (if key = ''dir'' then AsString v = ''both'' \<or> ParseDirection (AsString v) = Some (Dir p)
     else if key = ''proto'' then Proto p = AsString v
     else if key = ''flags'' then flags_hold (AsString v) p
     else if key = ''port'' then v = VInt (uint (DstPort p))
     else if key = ''len'' then v = VInt (PayloadLen p)
     else if key = ''len_gt'' then \<exists>n. v = VInt n \<and> n < PayloadLen p
     else if key = ''len_lt'' then \<exists>n. v = VInt n \<and> PayloadLen p < n
     else if key = ''payload_prefix'' then payload_starts (AsString v) p
     else if key = ''payload_contains'' then payload_has (AsString v) p
     else if key = ''where'' then \<exists>t f. v = VCallable t f \<and> f p = WBool True
     else True)"

text \<open>The same, read off the fields of a packet fault.\<close>

definition pf_holds :: "PacketFaultDef \<Rightarrow> PacketView \<Rightarrow> bool" where
  "pf_holds pf p \<longleftrightarrow>
    (pfDir pf = [] \<or> pfDir pf = ''both'' \<or> ParseDirection (pfDir pf) = Some (Dir p)) \<and>
    (pfProto pf = [] \<or> Proto p = pfProto pf) \<and> flags_hold (pfFlags pf) p \<and>
    (pfPort pf = 0 \<or> uint (DstPort p) = pfPort pf) \<and>
    (\<forall>n. pfLen pf = Some n \<longrightarrow> PayloadLen p = n) \<and> (\<forall>n. pfLenGT pf = Some n \<longrightarrow> n < PayloadLen p) \<and>
    (\<forall>n. pfLenLT pf = Some n \<longrightarrow> PayloadLen p < n) \<and>
    payload_starts (pfPrefix pf) p \<and> payload_has (pfContains pf) p \<and>
    (\<forall>f. pfWhere pf = Some f \<longrightarrow> f p = WBool True)"

definition well_set :: "PacketFaultDef \<Rightarrow> bool" where
  "well_set pf \<longleftrightarrow> (pfDir pf = [] \<or> pfDir pf = ''both'' \<or> ParseDirection (pfDir pf) \<noteq> None) \<and>
     0 \<le> pfPort pf \<and> pfPort pf \<le> 65535"

fun unset :: "string \<Rightarrow> PacketFaultDef \<Rightarrow> bool" where
  "unset key pf =
    (if key = ''dir'' then pfDir pf = [] else if key = ''proto'' then pfProto pf = [] else if key = ''flags'' then pfFlags pf = []
     else if key = ''port'' then pfPort pf = 0 else if key = ''len'' then pfLen pf = None else if key = ''len_gt'' then pfLenGT pf = None
     else if key = ''len_lt'' then pfLenLT pf = None else if key = ''payload_prefix'' then pfPrefix pf = []
     else if key = ''payload_contains'' then pfContains pf = [] else if key = ''where'' then pfWhere pf = None else True)"

lemma bytes_has_prefix_iff: "bytes_has_prefix s p \<longleftrightarrow> (\<exists>b. s = p @ b)"
  unfolding bytes_has_prefix_def by (metis append_eq_conv_conj append_take_drop_id)

lemma bytes_contains_iff: "bytes_contains s p \<longleftrightarrow> (\<exists>a b. s = a @ p @ b)"
proof (induction s)
  case (Cons x xs)
  have "(\<exists>a b. x # xs = a @ p @ b) \<longleftrightarrow> (\<exists>b. x # xs = p @ b) \<or> (\<exists>a b. xs = a @ p @ b)"
  proof
    assume "\<exists>a b. x # xs = a @ p @ b"
    then obtain a b where "x # xs = a @ p @ b" by blast
    then show "(\<exists>b. x # xs = p @ b) \<or> (\<exists>a b. xs = a @ p @ b)" by (cases a) auto
  next
    assume "(\<exists>b. x # xs = p @ b) \<or> (\<exists>a b. xs = a @ p @ b)"
    then show "\<exists>a b. x # xs = a @ p @ b" by (metis append_Cons append_Nil)
  qed
  then show ?case using Cons by (simp add: bytes_has_prefix_iff)
qed simp

lemma bytes_of_Nil [simp]: "bytes_of [] = []" "bytes_of s = [] \<longleftrightarrow> s = []"
  by (simp_all add: bytes_of_def)

lemma ex_split: "\<exists>a b. xs = a @ b"
  by (rule exI [of _ xs]) simp

lemma payload_empty [simp]: "payload_starts [] p" "payload_has [] p"
  by (simp_all add: payload_starts_def payload_has_def ex_split)

lemma makeWherePredicate_iff: "makeWherePredicate f p \<longleftrightarrow> f p = WBool True"
  by (auto simp: makeWherePredicate_def where_result_of_def split: where_result.split)

lemma flags_hold_Nil [simp]: "flags_hold [] p"
  by (simp add: flags_hold_def ParseFlagSpec_def trim_space_def)

lemma port_round: "0 \<le> n \<Longrightarrow> n \<le> 65535 \<Longrightarrow> uint (word_of_int n :: 16 word) = n"
  by (simp add: uint_word_of_int_eq take_bit_int_eq_self)

lemma port_word: "0 \<le> n \<Longrightarrow> n \<le> 65535 \<Longrightarrow> (word_of_int n :: 16 word) = w \<longleftrightarrow> n = uint w"
  by (metis port_round word_of_int_uint)

lemma port_holds:
  assumes "well_set pf"
  shows "(word_of_int (pfPort pf) \<noteq> (0 :: 16 word) \<longrightarrow> DstPort p = word_of_int (pfPort pf)) \<longleftrightarrow> pfPort pf = 0 \<or> uint (DstPort p) = pfPort pf"
proof -
  have "0 \<le> pfPort pf" "pfPort pf \<le> 65535" using assms by (simp_all add: well_set_def)
  then have "word_of_int (pfPort pf) = (0 :: 16 word) \<longleftrightarrow> pfPort pf = 0" "word_of_int (pfPort pf) = DstPort p \<longleftrightarrow> pfPort pf = uint (DstPort p)"
    using port_word by (metis uint_0_eq, blast intro: port_word)
  then show ?thesis by metis
qed

lemma dir_holds:
  assumes "well_set pf" "pfDir pf \<noteq> [] \<and> pfDir pf \<noteq> ''both''"
  shows "(case ParseDirection (pfDir pf) of Some d \<Rightarrow> d | None \<Rightarrow> DirC2S) = Dir p \<longleftrightarrow> ParseDirection (pfDir pf) = Some (Dir p)"
  using assms by (auto simp: well_set_def)

lemma match_holds:
  assumes "compile_match True pf = Inr m" "well_set pf"
  shows "fst (pkt_Matches m p) \<longleftrightarrow> pf_holds pf p"
proof -
  obtain st cl where f: "(if pfFlags pf \<noteq> [] then ParseFlagSpec (pfFlags pf) else Inr (0, 0)) = Inr (st, cl)"
    and m: "mDir m = (if pfDir pf \<noteq> [] \<and> pfDir pf \<noteq> ''both'' then Some (case ParseDirection (pfDir pf) of Some d \<Rightarrow> d | None \<Rightarrow> DirC2S) else None)"
      "mProto m = pfProto pf" "FlagsSet m = st" "FlagsClear m = cl" "mPort m = word_of_int (pfPort pf)" "mDstIP m = []"
      "mLen m = (case pfLen pf of Some n \<Rightarrow> n | None \<Rightarrow> 0)" "HasLen m = (pfLen pf \<noteq> None)"
      "LenGT m = (case pfLenGT pf of Some n \<Rightarrow> n | None \<Rightarrow> 0)" "HasLenGT m = (pfLenGT pf \<noteq> None)"
      "LenLT m = (case pfLenLT pf of Some n \<Rightarrow> n | None \<Rightarrow> 0)" "HasLenLT m = (pfLenLT pf \<noteq> None)"
      "PayloadPrefix m = bytes_of (pfPrefix pf)" "PayloadContains m = bytes_of (pfContains pf)"
      "Where m = map_option makeWherePredicate (pfWhere pf)"
    using assms(1) unfolding compile_match_def by (auto split: sum.splits prod.splits if_splits)
  have fl: "(st \<noteq> 0 \<longrightarrow> Flags p AND st = st) \<and> (cl \<noteq> 0 \<longrightarrow> Flags p AND cl = 0) \<longleftrightarrow> flags_hold (pfFlags pf) p"
    using f by (cases "pfFlags pf = []") (auto simp: flags_hold_def [of "pfFlags pf"])
  have dir: "(mDir m \<noteq> None \<longrightarrow> mDir m = Some (Dir p)) \<longleftrightarrow> pfDir pf = [] \<or> pfDir pf = ''both'' \<or> ParseDirection (pfDir pf) = Some (Dir p)"
    using dir_holds [OF assms(2), of p] m(1) by auto
  have len: "(HasLen m \<longrightarrow> PayloadLen p = mLen m) \<longleftrightarrow> (\<forall>n. pfLen pf = Some n \<longrightarrow> PayloadLen p = n)"
    "(HasLenGT m \<longrightarrow> \<not> PayloadLen p \<le> LenGT m) \<longleftrightarrow> (\<forall>n. pfLenGT pf = Some n \<longrightarrow> n < PayloadLen p)"
    "(HasLenLT m \<longrightarrow> \<not> LenLT m \<le> PayloadLen p) \<longleftrightarrow> (\<forall>n. pfLenLT pf = Some n \<longrightarrow> PayloadLen p < n)"
    by (auto simp: m)
  have pay: "(PayloadPrefix m \<noteq> [] \<longrightarrow> bytes_has_prefix (Payload p) (PayloadPrefix m)) \<longleftrightarrow> payload_starts (pfPrefix pf) p"
    "(PayloadContains m \<noteq> [] \<longrightarrow> bytes_contains (Payload p) (PayloadContains m)) \<longleftrightarrow> payload_has (pfContains pf) p"
    by (cases "pfPrefix pf"; simp add: m bytes_has_prefix_iff payload_starts_def)
      (cases "pfContains pf"; simp add: m bytes_contains_iff payload_has_def ex_split)
  have wh: "(case Where m of Some f \<Rightarrow> f p | None \<Rightarrow> True) \<longleftrightarrow> (\<forall>f. pfWhere pf = Some f \<longrightarrow> f p = WBool True)"
    by (cases "pfWhere pf") (simp_all add: m makeWherePredicate_iff)
  have i: "(if P then False else Q) \<longleftrightarrow> \<not> P \<and> Q" for P Q by simp
  have d: "matchesDeclarative m p \<longleftrightarrow>
    (mDir m \<noteq> None \<longrightarrow> mDir m = Some (Dir p)) \<and> (pfProto pf = [] \<or> pfProto pf = Proto p) \<and>
    ((st \<noteq> 0 \<longrightarrow> Flags p AND st = st) \<and> (cl \<noteq> 0 \<longrightarrow> Flags p AND cl = 0)) \<and>
    (word_of_int (pfPort pf) \<noteq> (0 :: 16 word) \<longrightarrow> DstPort p = word_of_int (pfPort pf)) \<and>
    (HasLen m \<longrightarrow> PayloadLen p = mLen m) \<and> (HasLenGT m \<longrightarrow> \<not> PayloadLen p \<le> LenGT m) \<and> (HasLenLT m \<longrightarrow> \<not> LenLT m \<le> PayloadLen p) \<and>
    (PayloadPrefix m \<noteq> [] \<longrightarrow> bytes_has_prefix (Payload p) (PayloadPrefix m)) \<and>
    (PayloadContains m \<noteq> [] \<longrightarrow> bytes_contains (Payload p) (PayloadContains m))"
    unfolding matchesDeclarative_def m(2-6) i by blast
  have pr: "(pfProto pf = [] \<or> pfProto pf = Proto p) \<longleftrightarrow> (pfProto pf = [] \<or> Proto p = pfProto pf)" by auto
  have "fst (pkt_Matches m p) \<longleftrightarrow> matchesDeclarative m p \<and> (case Where m of Some f \<Rightarrow> f p | None \<Rightarrow> True)"
    by (simp add: pkt_Matches_def split: option.splits)
  then show ?thesis
    unfolding d dir pr fl len pay wh port_holds [OF assms(2)] pf_holds_def by blast
qed

declare unset.simps [simp del]

text \<open>A keyword adds its own condition to those given before and sets no field of another keyword.\<close>

lemma extra_matches:
  assumes "extra N name key v pf = Some (Inr pf')"
  shows "(\<forall>p. pf_holds pf' p = pf_holds pf p) \<and> well_set pf' = well_set pf \<and> (\<forall>k. unset k pf' = unset k pf) \<and> pfAction pf' = pfAction pf"
proof -
  have "pfDir pf' = pfDir pf" "pfProto pf' = pfProto pf" "pfFlags pf' = pfFlags pf" "pfPort pf' = pfPort pf" "pfLen pf' = pfLen pf"
    "pfLenGT pf' = pfLenGT pf" "pfLenLT pf' = pfLenLT pf" "pfPrefix pf' = pfPrefix pf" "pfContains pf' = pfContains pf"
    "pfWhere pf' = pfWhere pf" "pfAction pf' = pfAction pf"
    using assms unfolding extra_def put_def by (auto split: if_splits sum.splits)
  then show ?thesis by (simp add: pf_holds_def well_set_def unset.simps)
qed

lemma AsInt32_VInt: "AsInt32 v = Some n \<Longrightarrow> v = VInt n"
  by (cases v) (auto simp: AsInt32_def split: if_splits)

lemma int_kwarg_Handled: "int_kwarg b k v f = Handled x \<Longrightarrow> \<exists>n. v = VInt n \<and> f n = Handled x"
  by (auto simp: int_kwarg_def dest: AsInt32_VInt split: option.splits)

lemma len_kwarg_Handled: "len_kwarg b k v f = Handled x \<Longrightarrow> \<exists>n. v = VInt n \<and> x = f n"
  unfolding len_kwarg_def by (drule int_kwarg_Handled) (auto split: if_splits)

lemma count_kwarg_Handled: "count_kwarg b k v f = Handled x \<Longrightarrow> \<exists>n. x = f n"
  unfolding count_kwarg_def by (drule int_kwarg_Handled) (auto split: if_splits)

lemma matcher_dir: "parsePacketMatcherKwarg N b ''dir'' v pf =
    (if ParseDirection (AsString v) = None \<and> AsString v \<noteq> ''both''
     then BadArg (b @ ''(): dir must be \"c2s\", \"s2c\" or \"both\", got '' @ go_quote (AsString v)) else Handled (pf\<lparr>pfDir := AsString v\<rparr>))"
  by (simp add: parsePacketMatcherKwarg_def Let_def)

lemma matcher_proto: "parsePacketMatcherKwarg N b ''proto'' v pf =
    (if AsString v \<in> {''tcp'', ''udp'', ''icmp''} then Handled (pf\<lparr>pfProto := AsString v\<rparr>)
     else BadArg (b @ ''(): proto must be \"tcp\", \"udp\" or \"icmp\", got '' @ go_quote (AsString v)))"
  by (simp add: parsePacketMatcherKwarg_def Let_def)

lemma matcher_flags: "parsePacketMatcherKwarg N b ''flags'' v pf =
    (case ParseFlagSpec (AsString v) of Inl e \<Rightarrow> BadArg (b @ ''(): flags= '' @ e) | Inr _ \<Rightarrow> Handled (pf\<lparr>pfFlags := AsString v\<rparr>))"
  by (simp add: parsePacketMatcherKwarg_def Let_def)

lemma matcher_port: "parsePacketMatcherKwarg N b ''port'' v pf =
    int_kwarg b ''port'' v (\<lambda>n. if n \<le> 0 \<or> 65535 < n then BadArg (b @ ''(): port must be within 1..65535, got '' @ show_int n)
      else Handled (pf\<lparr>pfPort := n\<rparr>))"
  by (simp add: parsePacketMatcherKwarg_def)

lemma matcher_len:
  "parsePacketMatcherKwarg N b ''len'' v pf = len_kwarg b ''len'' v (\<lambda>n. pf\<lparr>pfLen := Some n\<rparr>)"
  "parsePacketMatcherKwarg N b ''len_gt'' v pf = len_kwarg b ''len_gt'' v (\<lambda>n. pf\<lparr>pfLenGT := Some n\<rparr>)"
  "parsePacketMatcherKwarg N b ''len_lt'' v pf = len_kwarg b ''len_lt'' v (\<lambda>n. pf\<lparr>pfLenLT := Some n\<rparr>)"
  by (simp_all add: parsePacketMatcherKwarg_def)

lemma matcher_payload:
  "parsePacketMatcherKwarg N b ''payload_prefix'' v pf = Handled (pf\<lparr>pfPrefix := AsString v\<rparr>)"
  "parsePacketMatcherKwarg N b ''payload_contains'' v pf = Handled (pf\<lparr>pfContains := AsString v\<rparr>)"
  by (simp_all add: parsePacketMatcherKwarg_def)

lemma matcher_where: "parsePacketMatcherKwarg N b ''where'' v pf =
    (case v of VCallable _ f \<Rightarrow> Handled (pf\<lparr>pfWhere := Some f\<rparr>) | _ \<Rightarrow> BadArg (b @ ''(): where must be a function, got '' @ sval_Type v))"
  by (simp add: parsePacketMatcherKwarg_def)

lemma matcher_other:
  "parsePacketMatcherKwarg N b ''nth'' v pf = count_kwarg b ''nth'' v (\<lambda>n. pf\<lparr>pfNth := n\<rparr>)"
  "parsePacketMatcherKwarg N b ''after'' v pf = count_kwarg b ''after'' v (\<lambda>n. pf\<lparr>pfAfter := n\<rparr>)"
  "parsePacketMatcherKwarg N b ''every'' v pf = count_kwarg b ''every'' v (\<lambda>n. pf\<lparr>pfEvery := n\<rparr>)"
  "parsePacketMatcherKwarg N b ''probability'' v pf = Handled (pf\<lparr>pfProbability := parseProbability N v\<rparr>)"
  "parsePacketMatcherKwarg N b ''max_fires'' v pf = Handled pf" "parsePacketMatcherKwarg N b ''mode'' v pf = Handled pf"
  "parsePacketMatcherKwarg N b ''label'' v pf = Handled (pf\<lparr>pfLabel := AsString v\<rparr>)"
  by (simp_all add: parsePacketMatcherKwarg_def)

lemma keyword_kwarg_never_NotMine: "len_kwarg b k v f \<noteq> NotMine" "(\<And>n. g n \<noteq> NotMine) \<Longrightarrow> int_kwarg b k v g \<noteq> NotMine"
  by (simp_all add: len_kwarg_def int_kwarg_def split: option.split)

lemma Handled_cases:
  assumes "parsePacketMatcherKwarg N name key v pf = Handled pf'"
  obtains (dir) "key = ''dir''" "pf' = pf\<lparr>pfDir := AsString v\<rparr>" "ParseDirection (AsString v) \<noteq> None \<or> AsString v = ''both''"
  | (proto) "key = ''proto''" "pf' = pf\<lparr>pfProto := AsString v\<rparr>" "AsString v \<noteq> []"
  | (flags) "key = ''flags''" "pf' = pf\<lparr>pfFlags := AsString v\<rparr>"
  | (port) n where "key = ''port''" "v = VInt n" "pf' = pf\<lparr>pfPort := n\<rparr>" "0 < n" "n \<le> 65535"
  | (len) n where "key = ''len''" "v = VInt n" "pf' = pf\<lparr>pfLen := Some n\<rparr>"
  | (gt) n where "key = ''len_gt''" "v = VInt n" "pf' = pf\<lparr>pfLenGT := Some n\<rparr>"
  | (lt) n where "key = ''len_lt''" "v = VInt n" "pf' = pf\<lparr>pfLenLT := Some n\<rparr>"
  | (prefix) "key = ''payload_prefix''" "pf' = pf\<lparr>pfPrefix := AsString v\<rparr>"
  | (contains) "key = ''payload_contains''" "pf' = pf\<lparr>pfContains := AsString v\<rparr>"
  | (pred) t f where "key = ''where''" "v = VCallable t f" "pf' = pf\<lparr>pfWhere := Some f\<rparr>"
  | (other) n x l where "key \<in> {''nth'', ''after'', ''every'', ''probability'', ''max_fires'', ''mode'', ''label''}"
      "pf' \<in> {pf\<lparr>pfNth := n\<rparr>, pf\<lparr>pfAfter := n\<rparr>, pf\<lparr>pfEvery := n\<rparr>, pf\<lparr>pfProbability := x\<rparr>, pf, pf\<lparr>pfLabel := l\<rparr>}"
proof -
  have "key \<in> {''dir'', ''proto'', ''flags'', ''port'', ''len'', ''len_gt'', ''len_lt'', ''payload_prefix'', ''payload_contains'', ''where'',
    ''nth'', ''after'', ''every'', ''probability'', ''max_fires'', ''mode'', ''label''}"
    using assms unfolding parsePacketMatcherKwarg_def by (auto split: if_splits)
  then show thesis
  proof (elim insertE emptyE)
    assume k: "key = ''dir''"
    show thesis using assms unfolding k matcher_dir by (auto intro: dir [OF k] split: if_splits)
  next
    assume k: "key = ''proto''"
    show thesis using assms unfolding k matcher_proto by (auto intro: proto [OF k] split: if_splits)
  next
    assume k: "key = ''flags''"
    show thesis using assms unfolding k matcher_flags by (auto intro: flags [OF k] split: sum.splits)
  next
    assume k: "key = ''port''"
    show thesis using assms unfolding k matcher_port by (auto dest!: int_kwarg_Handled intro: port [OF k] split: if_splits)
  next
    assume k: "key = ''len''"
    show thesis using assms unfolding k matcher_len(1) by (auto dest!: len_kwarg_Handled intro: len [OF k])
  next
    assume k: "key = ''len_gt''"
    show thesis using assms unfolding k matcher_len(2) by (auto dest!: len_kwarg_Handled intro: gt [OF k])
  next
    assume k: "key = ''len_lt''"
    show thesis using assms unfolding k matcher_len(3) by (auto dest!: len_kwarg_Handled intro: lt [OF k])
  next
    assume k: "key = ''payload_prefix''"
    show thesis using assms unfolding k matcher_payload(1) by (auto intro: prefix [OF k])
  next
    assume k: "key = ''payload_contains''"
    show thesis using assms unfolding k matcher_payload(2) by (auto intro: contains [OF k])
  next
    assume k: "key = ''where''"
    show thesis using assms unfolding k matcher_where by (auto intro: pred [OF k] split: sval.splits)
  next
    assume k: "key = ''nth''"
    show thesis using assms unfolding k matcher_other by (auto dest!: count_kwarg_Handled intro: other simp: k)
  next
    assume k: "key = ''after''"
    show thesis using assms unfolding k matcher_other by (auto dest!: count_kwarg_Handled intro: other simp: k)
  next
    assume k: "key = ''every''"
    show thesis using assms unfolding k matcher_other by (auto dest!: count_kwarg_Handled intro: other simp: k)
  qed (use assms in \<open>auto simp: matcher_other intro: other\<close>)
qed

lemma NotMine_key:
  assumes "parsePacketMatcherKwarg N name key v pf = NotMine"
  shows "key \<notin> {''dir'', ''proto'', ''flags'', ''port'', ''len'', ''len_gt'', ''len_lt'', ''payload_prefix'', ''payload_contains'', ''where''}"
  using assms
  by (intro notI, elim insertE emptyE)
    (auto simp: matcher_dir matcher_proto matcher_flags matcher_port matcher_len matcher_payload matcher_where keyword_kwarg_never_NotMine
      split: if_splits sum.splits sval.splits)

lemma kwarg_adds:
  assumes "one_kwarg N name key v pf = Inr pf'" "unset key pf" "well_set pf"
  shows "well_set pf' \<and> pfAction pf' = pfAction pf \<and> (\<forall>p. pf_holds pf' p \<longleftrightarrow> pf_holds pf p \<and> kw_holds key v p) \<and>
    (\<forall>k. k \<noteq> key \<longrightarrow> unset k pf \<longrightarrow> unset k pf')"
proof (cases "parsePacketMatcherKwarg N name key v pf")
  case (Handled pf'')
  then have "parsePacketMatcherKwarg N name key v pf = Handled pf'" using assms(1) by (simp add: one_kwarg_def)
  then show ?thesis
  proof (cases rule: Handled_cases)
    case other
    then show ?thesis using assms(3) by (elim insertE emptyE) (simp_all add: kw_holds_def pf_holds_def well_set_def unset.simps)
  next
    case dir
    then show ?thesis using assms(2,3) by (auto simp: kw_holds_def pf_holds_def well_set_def unset.simps ParseDirection_def)
  next
    case port
    then show ?thesis using assms(2,3) by (auto simp: kw_holds_def pf_holds_def well_set_def unset.simps)
  next
    case proto
    then show ?thesis using assms(2,3) by (auto simp: kw_holds_def pf_holds_def well_set_def unset.simps)
  qed (use assms(2,3) in \<open>auto simp: kw_holds_def pf_holds_def well_set_def unset.simps\<close>)
next
  case NotMine
  then have e: "extra N name key v pf = Some (Inr pf')" using assms(1) by (auto simp: one_kwarg_def split: option.splits)
  have "kw_holds key v p" for p using NotMine_key [OF NotMine] by (simp add: kw_holds_def)
  then show ?thesis using extra_matches [OF e] assms(3) by blast
next
  case (BadArg e)
  then show ?thesis using assms(1) by (simp add: one_kwarg_def)
qed

lemma kwargs_add:
  assumes "kwarg_loop N name kvs pf = Inr pf'" "distinct (map fst kvs)" "\<forall>k\<in>fst ` set kvs. unset k pf" "well_set pf"
  shows "well_set pf' \<and> pfAction pf' = pfAction pf \<and> (\<forall>p. pf_holds pf' p \<longleftrightarrow> pf_holds pf p \<and> (\<forall>(key, v)\<in>set kvs. kw_holds key v p))"
  using assms
proof (induction kvs arbitrary: pf)
  case (Cons kv kvs)
  obtain key v where kv: "kv = (key, v)" by force
  obtain pf1 where s: "one_kwarg N name key v pf = Inr pf1" "kwarg_loop N name kvs pf1 = Inr pf'"
    using Cons.prems(1) kv by (auto split: sum.splits)
  have u: "unset key pf" using Cons.prems(3) kv by auto
  note A = kwarg_adds [OF s(1) u Cons.prems(4)]
  have "\<forall>k\<in>fst ` set kvs. unset k pf1"
  proof
    fix k
    assume k: "k \<in> fst ` set kvs"
    then have "k \<noteq> key" using Cons.prems(2) kv by auto
    moreover have "unset k pf" using Cons.prems(3) kv k by auto
    ultimately show "unset k pf1" using A by blast
  qed
  from Cons.IH [OF s(2) _ this] A Cons.prems(2) kv show ?case by auto
qed simp

lemma pf_holds_cong:
  "pfDir a = pfDir b \<Longrightarrow> pfProto a = pfProto b \<Longrightarrow> pfFlags a = pfFlags b \<Longrightarrow> pfPort a = pfPort b \<Longrightarrow> pfLen a = pfLen b \<Longrightarrow>
   pfLenGT a = pfLenGT b \<Longrightarrow> pfLenLT a = pfLenLT b \<Longrightarrow> pfPrefix a = pfPrefix b \<Longrightarrow> pfContains a = pfContains b \<Longrightarrow>
   pfWhere a = pfWhere b \<Longrightarrow> pf_holds a p = pf_holds b p \<and> well_set a = well_set b"
  by (simp add: pf_holds_def well_set_def)

text \<open>Compiling for the check at load time leaves the \<^verbatim>\<open>where=\<close> function out; with it the rule is as valid.\<close>

lemma Validate_Where: "Validate dur flo (r\<lparr>pMatch := m\<lparr>Where := w\<rparr>\<rparr>) = Validate dur flo (r\<lparr>pMatch := m\<rparr>)"
proof -
  let ?a = "r\<lparr>pMatch := m\<lparr>Where := w\<rparr>\<rparr>" and ?b = "r\<lparr>pMatch := m\<rparr>"
  have f: "pAction ?a = pAction ?b" "mProto (pMatch ?a) = mProto (pMatch ?b)" "pDelay ?a = pDelay ?b" "ReorderBy ?a = ReorderBy ?b"
    "DuplicateCount ?a = DuplicateCount ?b" "CorruptLength ?a = CorruptLength ?b" "CorruptOffset ?a = CorruptOffset ?b"
    "CorruptMode ?a = CorruptMode ?b" "Checksum ?a = Checksum ?b" "pProbability ?a = pProbability ?b" "pMaxFires ?a = pMaxFires ?b"
    "pMode ?a = pMode ?b" "pTrigger ?a = pTrigger ?b" "pTriggerN ?a = pTriggerN ?b"
    by simp_all
  show ?thesis unfolding Validate_def action_error_def f ..
qed

lemma compile_match_thread:
  "compile_match False p = Inr m \<Longrightarrow> compile_match True p = Inr (m\<lparr>Where := map_option makeWherePredicate (pfWhere p)\<rparr>)"
  by (cases "if pfFlags p \<noteq> [] then ParseFlagSpec (pfFlags p) else Inr (0, 0)") (auto simp: compile_match_def)

lemma compile_action_String: "compile_action p r = Inr r' \<Longrightarrow> action_String (pAction r') = pfAction p"
  by (auto simp: compile_action_def Let_def split: if_splits)

lemma compile_trigger_Action [simp]: "pAction (compile_trigger p r) = pAction r"
  by (simp add: compile_trigger_def)

lemma Compile_run:
  assumes "Compile dur flo False p = Inr r"
  obtains r' m where "Compile dur flo True p = Inr r'" "compile_match True p = Inr m" "pMatch r' = m" "Validate dur flo r' = None"
    "action_String (pAction r') = pfAction p"
proof -
  let ?r0 = "zero_prule\<lparr>pLabel := pfLabel p, pProbability := pfProbability p, pMaxFires := pfMaxFires p, pMode := pfMode p\<rparr>"
  obtain r1 m where c: "compile_action p ?r0 = Inr r1" "compile_match False p = Inr m"
    "Validate dur flo ((compile_trigger p r1)\<lparr>pMatch := m\<rparr>) = None"
    using assms by (auto simp: Compile_def Let_def split: sum.splits option.splits)
  let ?m = "m\<lparr>Where := map_option makeWherePredicate (pfWhere p)\<rparr>"
  let ?r = "(compile_trigger p r1)\<lparr>pMatch := ?m\<rparr>"
  have m: "compile_match True p = Inr ?m" by (rule compile_match_thread [OF c(2)])
  have v: "Validate dur flo ?r = None" using c(3) Validate_Where by simp
  have "Compile dur flo True p = Inr ?r" using c(1) m v by (simp add: Compile_def Let_def)
  then show thesis using that [of ?r ?m] m v compile_action_String [OF c(1)] by simp
qed


definition demo_scanning :: scanning where
  "demo_scanning = \<lparr>ParseDuration = (\<lambda>_. Inl ''time: invalid duration''), ParseFloat = (\<lambda>_. Inl ''invalid syntax''),
     DurationString = (\<lambda>_. []), fmt0 = (\<lambda>_. []), rounded = Fin, Sscanf_f = (\<lambda>_. Fin 0), of_int64 = (\<lambda>n. Fin (of_int n))\<rparr>"

definition demo_kwargs :: kwargs where
  "demo_kwargs = [(''dir'', VString ''c2s''), (''port'', VInt 80), (''flags'', VString ''SYN,!ACK'')]"

lemma demo_accepted: "\<not> isl (packetBuiltin demo_scanning (\<lambda>_. []) (\<lambda>_. []) ''packet_drop'' ''drop'' [] demo_kwargs)"
  by code_simp


section \<open>Small probabilities\<close>

text \<open>A value above one is a percentage. One percent is not above one, so it is read as certainty; and none at all, like text
that is not a number, is the value that stands for a missing probability, with which a rule always acts.\<close>

lemma one_percent_is_certain:
  assumes "Sscanf_f N ''1'' = Fin 1" "Sscanf_f N ''0'' = Fin 0" "Sscanf_f N ''half'' = Fin 0"
    and "s \<in> {''1%'', ''0%'', ''half''}" "pProbability r = parseProbability N (VString s)"
  shows "fst (rollProbability r g dec)"
proof -
  have "trim_suffix ''1%'' ''%'' = ''1''" "trim_suffix ''0%'' ''%'' = ''0''" "trim_suffix ''half'' ''%'' = ''half''" by code_simp+
  then have "parseProbability N (VString s) \<in> {Fin 0, Fin 1}"
    using assms(1-4) by (auto simp: parseProbability_def Let_def)
  then show ?thesis using assms(5) by (auto simp: rollProbability_def fle_def)
qed

end
