(* ===== verification/Spec2Isabelle.thy ===== *)
theory Spec2Isabelle
  imports Supervisor Schedule Plan_Leaf Test_Verdict Sql_Match Vacuity Await Endpoint Plan_Coverage Dependency_Order Fault_Scope Redis_Proxy Conn_Owner Packet_Fault
begin

text \<open>
  Faultbox runs the services of a distributed system, injects faults into their system calls, their packets and
  their protocol requests as a Starlark specification says, and judges the recorded trace. This development
  models the parts of the Go sources that decide something; one theory per component, each with the data of the
  source as records and datatypes, one definition per function, and the lemmas about them. A definition keeps the
  name of the function it translates where the name is free; loops and closures have names of their own.

  \<^bold>\<open>How the parts interact.\<close> A specification is loaded and scanned (\<open>Spec_Scan\<close>); the tests it contains are
  listed and multiplied out into leaves (\<open>Plan_Tree\<close>, \<open>Plan_Leaf\<close>, \<open>Plan_Coverage\<close>); services are started in
  dependency order (\<open>Dependency_Order\<close>), each under a seccomp filter generated from the scan
  (\<open>Seccomp_Filter\<close>, \<open>Seccomp_Notif\<close>, \<open>Session\<close>). The supervisor receives the notifications of the kernel
  (\<open>Supervisor\<close>, \<open>Notification\<close>), consults the fault rules (\<open>Rule_Syntax\<close>, \<open>Fault_Rule\<close>, \<open>Path_Match\<close>), and
  answers or parks them in hold queues (\<open>Hold_Queue\<close>) that the scheduler releases in a chosen order
  (\<open>Schedule\<close>, \<open>Lehmer\<close>). The builtins of a test install and remove rules (\<open>Fault_Scope\<close>). Packets pass a
  userspace link with rules of its own (\<open>Packet_Fault\<close>, \<open>Packet_Rule\<close>, \<open>Packet_Surgery\<close>, \<open>Defer_Queue\<close>, \<open>Shaper\<close>,
  \<open>Endpoint\<close>, \<open>Gateway\<close>), requests pass protocol proxies (\<open>Proxy_Manager\<close>, \<open>Sql_Match\<close>, \<open>Resp_Wire\<close>,
  \<open>Redis_Proxy\<close>) that attribute connections to processes (\<open>Conn_Owner\<close>). Everything emits into the event log
  (\<open>Event_Log\<close>), over which matchers, waits, expectations and the determinism check run (\<open>Matchers\<close>, \<open>Await\<close>,
  \<open>Temporal\<close>, \<open>Determinism\<close>, \<open>Vacuity\<close>) and from which the verdict is computed (\<open>Test_Verdict\<close>).

  \<^bold>\<open>Shared ground.\<close> \<open>Go_Prelude\<close> has Go's strings, integers with their wrap-around, comparisons of floating-point
  numbers, and the functions of the standard library the sources use. Errors are \<open>Inl\<close> values, panics are
  \<open>None\<close> or a value of their own, a map that is ranged over is a list of entries in the order of the visit or
  comes with that order as an argument, third-party code is an argument. \<open>Binary_Heap\<close> is \<^verbatim>\<open>container/heap\<close>.

  \<^bold>\<open>Theories and sources\<close> (below \<^verbatim>\<open>src/internal\<close>).

  \<^item> \<open>Path_Match\<close>: \<^verbatim>\<open>pathmatch/pathmatch.go\<close>. The matcher decides the relation \<open>glob\<close>, one rule per construct.
  \<^item> \<open>Fault_Rule\<close>, \<open>Rule_Syntax\<close>: \<^verbatim>\<open>engine/fault.go\<close>, the rule strings of \<^verbatim>\<open>config/config.go\<close>. At which calls a rule
    fires; parsed rules are usable; printed rules are read back.
  \<^item> \<open>Hold_Queue\<close>: \<^verbatim>\<open>engine/hold.go\<close>. No notification is answered twice or lost; \<^verbatim>\<open>Wait\<close> as a step relation.
  \<^item> \<open>Seccomp_Filter\<close>, \<open>Seccomp_Notif\<close>: \<^verbatim>\<open>seccomp/*.go\<close>. The generated BPF program, run by an interpreter, notifies
    on exactly the requested calls; records of the kernel are read and written back; the launch handshake.
  \<^item> \<open>Session\<close>, \<open>Notification\<close>, \<open>Supervisor\<close>: \<^verbatim>\<open>engine/session.go\<close>, \<^verbatim>\<open>engine/launch_linux.go\<close>. Rule tables agree with the filter;
    a call fails only by a configured rule; every notification has one answer under every interleaving; teardown
    answers what is held; virtual time.
  \<^item> \<open>Schedule\<close>, \<open>Lehmer\<close>: \<^verbatim>\<open>engine/permutation.go\<close>, \<^verbatim>\<open>engine/scheduler.go\<close>. Every order is decoded once and carried out.
  \<^item> \<open>Plan_Leaf\<close>, \<open>Plan_Tree\<close>, \<open>Plan_Coverage\<close>: \<^verbatim>\<open>star/leaf.go\<close>, \<^verbatim>\<open>nondet.go\<close>, \<^verbatim>\<open>interleavings.go\<close>, \<^verbatim>\<open>choose.go\<close>, \<^verbatim>\<open>chooseaxes.go\<close>,
    \<^verbatim>\<open>plan/*.go\<close>, \<^verbatim>\<open>generate/analyzer.go\<close>. The leaves are all combinations, each once; the announced counts are those
    of a run; coverage is exact.
  \<^item> \<open>Dependency_Order\<close>: \<^verbatim>\<open>config/config.go\<close>, \<^verbatim>\<open>star/runtime.go\<close>. The walk returns, finds cycles and orders the rest.
  \<^item> \<open>Spec_Scan\<close>, \<open>Fault_Scope\<close>: \<^verbatim>\<open>star/spec_statements.go\<close>, \<^verbatim>\<open>star/runtime.go\<close>, \<^verbatim>\<open>star/builtins.go\<close>. What the launch-time scan
    finds, that accepted faults are in force down to the filter, and that scopes leave nothing behind.
  \<^item> \<open>Event_Log\<close>, \<open>Matchers\<close>, \<open>Await\<close>, \<open>Temporal\<close>, \<open>Determinism\<close>, \<open>Vacuity\<close>, \<open>Test_Verdict\<close>: \<^verbatim>\<open>star/events.go\<close>, \<^verbatim>\<open>match.go\<close>,
    \<^verbatim>\<open>await.go\<close>, \<^verbatim>\<open>temporal.go\<close>, \<^verbatim>\<open>determinism.go\<close>, \<^verbatim>\<open>vacuity.go\<close>, \<^verbatim>\<open>runtime.go\<close>. Vector clocks are causality; waits miss
    no event; the expectations decide their formulas; what a pass stands for.
  \<^item> \<open>Packet_Rule\<close>, \<open>Packet_Surgery\<close>, \<open>Defer_Queue\<close>, \<open>Shaper\<close>, \<open>Endpoint\<close>, \<open>Gateway\<close>: \<^verbatim>\<open>netfault/*.go\<close>. Accounting of the
    rules, exact corruption, packets conserved under every interleaving, pacing, scoped installation.
  \<^item> \<open>Packet_Fault\<close>: \<^verbatim>\<open>star/packetfault.go\<close>. Accepted keywords are exactly the packets a compiled rule is due for.
  \<^item> \<open>Proxy_Manager\<close>, \<open>Sql_Match\<close>, \<open>Resp_Wire\<close>, \<open>Redis_Proxy\<close>: \<^verbatim>\<open>proxy/proxy.go\<close>, \<^verbatim>\<open>sqlmatch\<close>, \<^verbatim>\<open>redis.go\<close>, \<^verbatim>\<open>observability.go\<close>.
    Selection of requests, lossless reading of replies, command-by-command mediation.
  \<^item> \<open>Conn_Owner\<close>: \<^verbatim>\<open>connowner/tracker.go\<close>. Attribution on proof only; removed registrations stay removed.

  \<^bold>\<open>Contracts.\<close> Interfaces are locales, interpreted on the definitions of the components that provide them:
  \<open>trigger_gate\<close> (syscall and packet triggers), \<open>conserving_queue\<close> (hold queue), \<open>choice_axis\<close> (the three kinds of
  plan axes), \<open>growing_log\<close> (the event log towards the expectations), \<open>release_queue\<close> and \<open>heap_order\<close> (delayed packets).

  \<^bold>\<open>Bounds.\<close> Recursions over input that are not structural have a termination proof. \<open>readRESPRaw\<close> and the Redis loop
  count steps: one more than there are bytes is shown to be enough on every input. The walk of \<open>Dependency_Order\<close> is a
  partial function that is shown to be total. Goroutines are step relations over which the properties are
  inductive invariants, without a bound on the number of steps.

  \<^bold>\<open>Not modelled.\<close> The Starlark interpreter and the argument parsing of most builtins; process, container and device
  start; the protocol clients, mocks and the other protocol proxies, which are loops over third-party drivers; file
  formats of bundles and lock files; command line, reports and other text output; wall-clock time and identifiers
  that are random. These are calls into the operating system, third-party packages or formatting, with no decision of
  the program in them that the theorems here rely on.
\<close>

end
